theory Spec2Isabelle
  imports Main
begin


section \<open>Strings\<close>

text \<open>
  A JavaScript string is modelled as a \<^typ>\<open>string\<close>; a \<^typ>\<open>char\<close> stands for one
  code unit (only code units below 256 are represented).  The CSV codec and the
  builder treat four characters specially; they are named here.
\<close>

abbreviation dquote :: char where "dquote \<equiv> CHR 0x22"
abbreviation comma :: char where "comma \<equiv> CHR '',''"
abbreviation lf :: char where "lf \<equiv> CHR 0x0A"
abbreviation cr :: char where "cr \<equiv> CHR 0x0D"

text \<open>\<^verbatim>\<open>Array.prototype.join\<close>: no separator before the first or after the last element.\<close>

fun join :: "'a list \<Rightarrow> 'a list list \<Rightarrow> 'a list" where
  "join sep [] = []"
| "join sep [x] = x"
| "join sep (x # y # ys) = x @ sep @ join sep (y # ys)"

section \<open>CSV codec (\<^verbatim>\<open>src/App.jsx\<close>, \<^verbatim>\<open>parseCSV\<close> and \<^verbatim>\<open>stringifyCSV\<close>)\<close>

text \<open>
  The \<^verbatim>\<open>while (i < input.length)\<close> loop of \<^verbatim>\<open>parseCSV\<close>.  The remaining input
  is the list argument (\<^verbatim>\<open>input[i]\<close> is its head, \<^verbatim>\<open>input[i + 1]\<close> the head of
  its tail); \<^verbatim>\<open>rows\<close>, \<^verbatim>\<open>row\<close>, \<^verbatim>\<open>field\<close> and \<^verbatim>\<open>inQuotes\<close> are the loop
  variables.  The result is their value when the loop ends.
\<close>

fun parseLoop :: "string \<Rightarrow> string list list \<Rightarrow> string list \<Rightarrow> string \<Rightarrow> bool
    \<Rightarrow> string list list \<times> string list \<times> string" where
  "parseLoop [] rows row field inQuotes = (rows, row, field)"
| "parseLoop (ch # rest) rows row field True =
     (if ch = dquote then
        (case rest of
           nxt # rest' \<Rightarrow>
             if nxt = dquote then parseLoop rest' rows row (field @ [dquote]) True
             else parseLoop rest rows row field False
         | [] \<Rightarrow> parseLoop rest rows row field False)
      else parseLoop rest rows row (field @ [ch]) True)"
| "parseLoop (ch # rest) rows row field False =
     (if ch = dquote then parseLoop rest rows row field True
      else if ch = comma then parseLoop rest rows (row @ [field]) [] False
      else if ch = lf then parseLoop rest (rows @ [row @ [field]]) [] [] False
      else if ch = cr then parseLoop rest rows row field False
      else parseLoop rest rows row (field @ [ch]) False)"

text \<open>
  After the loop the last field is flushed into the row, and the row is kept
  when it has more than one field or its only field is not empty.
\<close>

definition parseCSV :: "string \<Rightarrow> string list list" where
  "parseCSV input =
     (case parseLoop input [] [] [] False of
        (rows, row, field) \<Rightarrow>
          let row' = row @ [field]
          in if length row' > 1 \<or> row' ! 0 \<noteq> [] then rows @ [row'] else rows)"

text \<open>
  \<^verbatim>\<open>stringifyCSV\<close>: \<^verbatim>\<open>needsQuote\<close> is the test of the regular expression
  \<^verbatim>\<open>/[",\n\r]/\<close>, \<^verbatim>\<open>escapeQuotes\<close> is \<^verbatim>\<open>replace(/"/g, '""')\<close>.
\<close>

definition needsQuote :: "string \<Rightarrow> bool" where
  "needsQuote cell = (\<exists>ch \<in> set cell. ch = dquote \<or> ch = comma \<or> ch = lf \<or> ch = cr)"

definition escapeQuotes :: "string \<Rightarrow> string" where
  "escapeQuotes cell = concat (map (\<lambda>ch. if ch = dquote then [dquote, dquote] else [ch]) cell)"

definition stringifyCell :: "string \<Rightarrow> string" where
  "stringifyCell cell =
     (let escaped = escapeQuotes cell
      in if needsQuote cell then [dquote] @ escaped @ [dquote] else escaped)"

definition stringifyRow :: "string list \<Rightarrow> string" where
  "stringifyRow r = join [comma] (map stringifyCell r)"

definition stringifyCSV :: "string list list \<Rightarrow> string" where
  "stringifyCSV rows = join [lf] (map stringifyRow rows)"


section \<open>String helpers of the builder and the tree view\<close>

text \<open>
  \<^verbatim>\<open>\s\<close> and \<^verbatim>\<open>trim()\<close> on the represented code units: tab, line feed, vertical
  tab, form feed, carriage return, space and no-break space.
\<close>

definition isWhite :: "char \<Rightarrow> bool" where
  "isWhite c = (of_char c \<in> {9, 10, 11, 12, 13, 32, 160 :: nat})"

definition trim :: "string \<Rightarrow> string" where
  "trim s = rev (dropWhile isWhite (rev (dropWhile isWhite s)))"

text \<open>
  \<^verbatim>\<open>s.split(/\s+/)\<close>: the pieces between maximal runs of white space; a string
  without white space (also the empty one) is its own single piece.
\<close>

function splitWs :: "string \<Rightarrow> string list" where
  "splitWs s =
     (let tok = takeWhile (\<lambda>c. \<not> isWhite c) s;
          rest = dropWhile (\<lambda>c. \<not> isWhite c) s
      in if rest = [] then [tok] else tok # splitWs (dropWhile isWhite rest))"
  by pat_completeness auto
termination
proof (relation "measure length")
  show "wf (measure length)" by simp
next
  fix s tok rest :: string
  assume r: "rest = dropWhile (\<lambda>c. \<not> isWhite c) s" and ne: "rest \<noteq> []"
  from ne obtain c cs where rc: "rest = c # cs" by (cases rest) auto
  have "isWhite c" using r rc by (metis hd_dropWhile list.sel(1) ne)
  then have "length (dropWhile isWhite rest) \<le> length cs"
    using rc by (simp add: length_dropWhile_le)
  moreover have "length rest \<le> length s" using r by (simp add: length_dropWhile_le)
  ultimately show "(dropWhile isWhite rest, s) \<in> measure length" using rc by simp
qed

declare splitWs.simps [simp del]

definition lowerChar :: "char \<Rightarrow> char" where
  "lowerChar c =
     (let n = (of_char c :: nat)
      in if (65 \<le> n \<and> n \<le> 90) \<or> (192 \<le> n \<and> n \<le> 222 \<and> n \<noteq> 215)
         then char_of (n + 32) else c)"

definition toLowerCase :: "string \<Rightarrow> string" where
  "toLowerCase s = map lowerChar s"

text \<open>\<^verbatim>\<open>s.includes(q)\<close>: \<open>q\<close> occurs in \<open>s\<close> as a contiguous piece.\<close>

fun includesStr :: "string \<Rightarrow> string \<Rightarrow> bool" where
  "includesStr [] q = (q = [])"
| "includesStr (c # cs) q = (take (length q) (c # cs) = q \<or> includesStr cs q)"

section \<open>Nodes, styles and the builder's state (\<^verbatim>\<open>src/App.jsx\<close>)\<close>

text \<open>
  One record covers the two shapes of node the application writes and reads
  (the type \<^verbatim>\<open>XscpNode\<close> of \<^verbatim>\<open>table-preview.tsx\<close>).  An element node made by
  \<^verbatim>\<open>makeDomNode\<close> has \<^verbatim>\<open>tag: "div"\<close> at top level and the real tag, the
  attributes and the flag \<^verbatim>\<open>text\<close> under \<^verbatim>\<open>data\<close>; a text node made by
  \<^verbatim>\<open>makeTextNode\<close> has \<^verbatim>\<open>text: true\<close> and \<^verbatim>\<open>v\<close> at top level and nothing else.
  An absent \<^verbatim>\<open>classes\<close> or \<^verbatim>\<open>children\<close> is read as the empty list everywhere
  (\<^verbatim>\<open>|| []\<close>), so both are lists.  The constant fields \<^verbatim>\<open>type: "DOM"\<close> and
  \<^verbatim>\<open>data.slot: ""\<close> are never read and are left out.
\<close>

record node =
  nid :: string
  ntext :: bool
  nv :: "string option"
  ntag :: "string option"
  classes :: "string list"
  children :: "string list"
  dtag :: "string option"
  attributes :: "(string \<times> string) list"
  dtext :: bool

text \<open>
  A style record: \<^verbatim>\<open>_id\<close>, \<^verbatim>\<open>name\<close>, \<^verbatim>\<open>styleLess\<close> and \<^verbatim>\<open>variants\<close> (variant name
  and its \<^verbatim>\<open>styleLess\<close>); the other fields are constants.
\<close>

record style =
  sid :: string
  sname :: string
  styleLess :: string
  variants :: "(string \<times> string) list"

text \<open>
  The state of one run of the \<^verbatim>\<open>built\<close> memo: the arrays \<^verbatim>\<open>nodes\<close> and
  \<^verbatim>\<open>styles\<close>, the map \<^verbatim>\<open>styleIndex\<close>, and the number of calls of \<^verbatim>\<open>uid\<close> made
  so far.  A node object is referred to by its position in \<^verbatim>\<open>nodes\<close>: the
  source keeps a reference to the object it pushed and later appends to its
  \<^verbatim>\<open>children\<close> in place.
\<close>

record bstate =
  nodes :: "node list"
  styles :: "style list"
  styleIndex :: "string \<rightharpoonup> string"
  seed :: nat

text \<open>
  \<^verbatim>\<open>uid(prefix)\<close> appends to the prefix eight base-36 digits of
  \<^verbatim>\<open>Math.random()\<close> and four of \<^verbatim>\<open>Date.now()\<close>.  Both are outside the program;
  the string they yield at the \<open>k\<close>-th call of a run is the parameter \<open>rnd k\<close>.
\<close>

definition uid :: "(nat \<Rightarrow> string) \<Rightarrow> string \<Rightarrow> bstate \<Rightarrow> string \<times> bstate" where
  "uid rnd prefix s = (prefix @ rnd (seed s), s\<lparr>seed := Suc (seed s)\<rparr>)"

definition makeDomNode ::
  "(nat \<Rightarrow> string) \<Rightarrow> string \<Rightarrow> string list \<Rightarrow> (string \<times> string) list \<Rightarrow> bool
     \<Rightarrow> bstate \<Rightarrow> node \<times> bstate" where
  "makeDomNode rnd tag cls attrs text s =
     (case uid rnd ''n_'' s of
        (i, s1) \<Rightarrow>
          (\<lparr>nid = i, ntext = False, nv = None, ntag = Some ''div'', classes = cls,
            children = [], dtag = Some tag, attributes = attrs, dtext = text\<rparr>, s1))"

definition makeTextNode :: "(nat \<Rightarrow> string) \<Rightarrow> string \<Rightarrow> bstate \<Rightarrow> node \<times> bstate" where
  "makeTextNode rnd textValue s =
     (case uid rnd ''t_'' s of
        (i, s1) \<Rightarrow>
          (\<lparr>nid = i, ntext = True, nv = Some textValue, ntag = None, classes = [],
            children = [], dtag = None, attributes = [], dtext = False\<rparr>, s1))"

text \<open>\<^verbatim>\<open>push(node)\<close> appends to \<^verbatim>\<open>nodes\<close> and returns the reference.\<close>

definition push :: "node \<Rightarrow> bstate \<Rightarrow> nat \<times> bstate" where
  "push n s = (length (nodes s), s\<lparr>nodes := nodes s @ [n]\<rparr>)"

text \<open>\<^verbatim>\<open>x.children.push(id)\<close> on the node object that \<open>ref\<close> refers to.\<close>

definition pushChild :: "nat \<Rightarrow> string \<Rightarrow> bstate \<Rightarrow> bstate" where
  "pushChild ref cid s =
     s\<lparr>nodes := (nodes s)[ref := (nodes s ! ref)\<lparr>children := children (nodes s ! ref) @ [cid]\<rparr>]\<rparr>"

definition idOf :: "nat \<Rightarrow> bstate \<Rightarrow> string" where
  "idOf ref s = nid (nodes s ! ref)"

section \<open>Style resolution and the style index\<close>

definition twScaleRem :: "(string \<times> string) list" where
  "twScaleRem =
     [(''0'', ''0rem''), (''1'', ''0.25rem''), (''2'', ''0.5rem''), (''3'', ''0.75rem''),
      (''4'', ''1rem''), (''5'', ''1.25rem''), (''6'', ''1.5rem''), (''8'', ''2rem''),
      (''10'', ''2.5rem''), (''12'', ''3rem''), (''16'', ''4rem''), (''20'', ''5rem''),
      (''24'', ''6rem''), (''32'', ''8rem'')]"

definition isDigit :: "char \<Rightarrow> bool" where
  "isDigit c = (48 \<le> (of_char c :: nat) \<and> (of_char c :: nat) \<le> 57)"

text \<open>
  A match of \<^verbatim>\<open>/^(p|px|py|pt|pr|pb|pl)-(\d+)$/\<close>, respectively \<^verbatim>\<open>/^gap-(\d+)$/\<close>:
  the two groups, respectively the digits.
\<close>

definition matchPadding :: "string \<Rightarrow> (string \<times> string) option" where
  "matchPadding token =
     (let dir = takeWhile (\<lambda>c. c \<noteq> CHR ''-'') token;
          rest = dropWhile (\<lambda>c. c \<noteq> CHR ''-'') token
      in if dir \<in> set [''p'', ''px'', ''py'', ''pt'', ''pr'', ''pb'', ''pl'']
            \<and> rest \<noteq> [] \<and> tl rest \<noteq> [] \<and> list_all isDigit (tl rest)
         then Some (dir, tl rest) else None)"

definition matchGap :: "string \<Rightarrow> string option" where
  "matchGap token =
     (if take 4 token = ''gap-'' \<and> drop 4 token \<noteq> [] \<and> list_all isDigit (drop 4 token)
      then Some (drop 4 token) else None)"

definition paddingCss :: "string \<Rightarrow> string \<Rightarrow> string" where
  "paddingCss dir val =
     (if dir = ''p'' then ''padding: '' @ val @ '';''
      else if dir = ''px'' then ''padding-left: '' @ val @ ''; padding-right: '' @ val @ '';''
      else if dir = ''py'' then ''padding-top: '' @ val @ ''; padding-bottom: '' @ val @ '';''
      else if dir = ''pt'' then ''padding-top: '' @ val @ '';''
      else if dir = ''pr'' then ''padding-right: '' @ val @ '';''
      else if dir = ''pb'' then ''padding-bottom: '' @ val @ '';''
      else ''padding-left: '' @ val @ '';'')"

text \<open>The tests of \<^verbatim>\<open>tokenCss\<close> that follow the one for \<^verbatim>\<open>gap-N\<close>.\<close>

definition tokenCssRest :: "string \<Rightarrow> string" where
  "tokenCssRest token =
     (if token = ''text-center'' then ''text-align: center;''
      else if token = ''border'' then ''border-style: solid; border-width: 1px;''
      else if token = ''rounded-md'' then
        ''border-top-left-radius: 6px; border-top-right-radius: 6px; border-bottom-left-radius: 6px; border-bottom-right-radius: 6px;''
      else if token = ''bg-blue-500'' then ''background-color: #3B82F6;''
      else if token = ''border-blue-500'' then
        ''border-top-color: #3B82F6; border-right-color: #3B82F6; border-bottom-color: #3B82F6; border-left-color: #3B82F6;''
      else if token = ''text-white'' then ''color: #fff;''
      else if token = ''transition-colors'' then
        ''transition-property: border-color, background-color;''
      else if token = ''duration-200'' then ''transition-duration: 200ms;''
      else if token = ''ease-in-out'' then ''transition-timing-function: ease;''
      else [])"

definition tokenCss :: "string \<Rightarrow> string" where
  "tokenCss token =
     (case matchPadding token of
        Some (dir, digits) \<Rightarrow>
          (case map_of twScaleRem digits of
             None \<Rightarrow> []
           | Some val \<Rightarrow> paddingCss dir val)
      | None \<Rightarrow>
          if token = ''w-full'' then ''width: 100%;''
          else if token = ''max-w-7xl'' then ''max-width: 80rem;''
          else if token = ''mx-auto'' then ''margin-left: auto; margin-right: auto;''
          else if token = ''flex'' then ''display: flex;''
          else if token = ''grid'' then ''display: grid;''
          else if token = ''items-center'' then ''align-items: center;''
          else if token = ''justify-center'' then ''justify-content: center;''
          else (case matchGap token of
                  Some digits \<Rightarrow>
                    (case map_of twScaleRem digits of
                       Some val \<Rightarrow> ''grid-row-gap: '' @ val @ ''; grid-column-gap: '' @ val @ '';''
                     | None \<Rightarrow> tokenCssRest token)
                | None \<Rightarrow> tokenCssRest token))"

definition tailwindToStyleLess :: "string \<Rightarrow> string" where
  "tailwindToStyleLess className =
     (if className = [] then []
      else join '' '' (filter (\<lambda>t. t \<noteq> []) (map tokenCss (splitWs (trim className)))))"

text \<open>
  \<^verbatim>\<open>SECTION_PRESETS\<close>: preset name, its \<^verbatim>\<open>styleLess\<close> and its variants.  (A name
  that is a property of every object, such as \<^verbatim>\<open>constructor\<close>, also passes the
  test \<^verbatim>\<open>SECTION_PRESETS[name]\<close>; it then gets the empty \<^verbatim>\<open>styleLess\<close> and no
  variants, which is what \<^verbatim>\<open>tailwindToStyleLess\<close> gives it too.)
\<close>

definition SECTION_PRESETS :: "(string \<times> string \<times> (string \<times> string) list) list" where
  "SECTION_PRESETS =
     [(''section_table'', [], []),
      (''padding-global'', ''padding-right: 5%; padding-left: 5%;'', []),
      (''container-large'',
         ''width: 100%; max-width: 80rem; margin-right: auto; margin-left: auto;'', []),
      (''padding-section-medium'', ''padding-top: 5rem; padding-bottom: 5rem;'',
         [(''medium'', ''padding-top: 4rem; padding-bottom: 4rem;''),
          (''small'', ''padding-top: 3rem; padding-bottom: 3rem;'')]),
      (''table_component'', [], [])]"

text \<open>\<^verbatim>\<open>ensureStyle(name)\<close>; \<^verbatim>\<open>null\<close> is \<open>None\<close>.\<close>

definition ensureStyle :: "(nat \<Rightarrow> string) \<Rightarrow> string \<Rightarrow> bstate \<Rightarrow> string option \<times> bstate" where
  "ensureStyle rnd name s =
     (if name = [] \<or> trim name = [] then (None, s)
      else case styleIndex s name of
        Some i \<Rightarrow> (Some i, s)
      | None \<Rightarrow>
          (case uid rnd ''cls_'' s of
             (i, s1) \<Rightarrow>
               (case (case map_of SECTION_PRESETS name of
                        Some (sl, vs) \<Rightarrow> (sl, vs)
                      | None \<Rightarrow> (tailwindToStyleLess name, [])) of
                  (sl, vs) \<Rightarrow>
                    (Some i,
                     s1\<lparr>styles := styles s1 @ [\<lparr>sid = i, sname = name, styleLess = sl, variants = vs\<rparr>],
                        styleIndex := (styleIndex s1)(name \<mapsto> i)\<rparr>))))"

text \<open>\<^verbatim>\<open>names.map((n) => ensureStyle(n))\<close>, left to right.\<close>

fun ensureStyles ::
  "(nat \<Rightarrow> string) \<Rightarrow> string list \<Rightarrow> bstate \<Rightarrow> string option list \<times> bstate" where
  "ensureStyles rnd [] s = ([], s)"
| "ensureStyles rnd (n # ns) s =
     (case ensureStyle rnd n s of
        (r, s1) \<Rightarrow> (case ensureStyles rnd ns s1 of (rs, s2) \<Rightarrow> (r # rs, s2)))"

text \<open>
  \<^verbatim>\<open>classIds(list)\<close>: \<^verbatim>\<open>filter(Boolean)\<close> drops the empty names before the map and
  the \<^verbatim>\<open>null\<close> (and empty) results after it.
\<close>

definition classIds :: "(nat \<Rightarrow> string) \<Rightarrow> string list \<Rightarrow> bstate \<Rightarrow> string list \<times> bstate" where
  "classIds rnd list s =
     (let names = concat (map (\<lambda>n. if n = [] then [] else splitWs (trim n)) list)
      in case ensureStyles rnd (filter (\<lambda>n. n \<noteq> []) names) s of
           (rs, s1) \<Rightarrow> (filter (\<lambda>i. i \<noteq> []) (List.map_filter (\<lambda>r. r) rs), s1))"

text \<open>The argument \<^verbatim>\<open>c ? [c] : []\<close> of the calls of \<^verbatim>\<open>classIds\<close>.\<close>

definition classArg :: "string \<Rightarrow> string list" where
  "classArg c = (if c = [] then [] else [c])"

section \<open>The builder (\<^verbatim>\<open>built\<close> in \<^verbatim>\<open>src/App.jsx\<close>)\<close>

text \<open>
  The values the memo depends on.  \<^verbatim>\<open>cols\<close> and \<^verbatim>\<open>rows\<close> come from
  \<^verbatim>\<open>parseInt\<close> and may be negative; \<^verbatim>\<open>csvData\<close> is \<^verbatim>\<open>null\<close> (\<open>None\<close>) or a grid,
  and a grid is truthy even when it is empty.
\<close>

record config =
  cols :: int
  rows :: int
  includeHead :: bool
  includeFoot :: bool
  wrapInSection :: bool
  tableClass :: string
  theadClass :: string
  tbodyClass :: string
  tfootClass :: string
  cellClass :: string
  rowClass :: string
  useThInHead :: bool
  addAriaRole :: bool
  csvData :: "string list list option"
  csvHasHeaderRow :: bool
  useSpanFallback :: bool

text \<open>
  A loop bound: an integer, or the \<^verbatim>\<open>-Infinity\<close> that \<^verbatim>\<open>Math.max()\<close> returns for
  no arguments.  \<^verbatim>\<open>for (let c = 0; c < bound; c++)\<close> runs \<open>loopCount bound\<close> times.
\<close>

datatype jsnum = NegInfinity | Num int

fun mathMax :: "int list \<Rightarrow> jsnum" where
  "mathMax [] = NegInfinity"
| "mathMax (x # xs) = Num (fold max xs x)"

fun loopCount :: "jsnum \<Rightarrow> nat" where
  "loopCount NegInfinity = 0"
| "loopCount (Num n) = nat n"

definition effectiveCols :: "config \<Rightarrow> jsnum" where
  "effectiveCols cfg =
     (case csvData cfg of
        Some d \<Rightarrow> mathMax (map (\<lambda>r. int (length r)) d)
      | None \<Rightarrow> Num (cols cfg))"

definition effectiveRows :: "config \<Rightarrow> jsnum" where
  "effectiveRows cfg =
     (case csvData cfg of
        Some d \<Rightarrow>
          if csvHasHeaderRow cfg then Num (max (int (length d) - 1) 0) else Num (int (length d))
      | None \<Rightarrow> Num (rows cfg))"

text \<open>\<^verbatim>\<open>xs[i]\<close>: \<^verbatim>\<open>undefined\<close> (\<open>None\<close>) out of range.\<close>

definition nthOpt :: "'a list \<Rightarrow> nat \<Rightarrow> 'a option" where
  "nthOpt xs i = (if i < length xs then Some (xs ! i) else None)"

text \<open>
  \<^verbatim>\<open>textValue\<close> of cell \<open>c\<close>: \<^verbatim>\<open>sourceRow[c] ?? ""\<close> when there is a grid and a
  source row, the empty string otherwise.
\<close>

definition textValue :: "config \<Rightarrow> string list option \<Rightarrow> nat \<Rightarrow> string" where
  "textValue cfg sourceRow c =
     (case csvData cfg of
        None \<Rightarrow> []
      | Some d \<Rightarrow>
          (case sourceRow of
             None \<Rightarrow> []
           | Some r \<Rightarrow> (case nthOpt r c of Some v \<Rightarrow> v | None \<Rightarrow> [])))"

text \<open>One round of the loop over the cells in \<^verbatim>\<open>makeRow\<close>; \<open>tr\<close> refers to the row.\<close>

definition cellStep ::
  "(nat \<Rightarrow> string) \<Rightarrow> config \<Rightarrow> nat \<Rightarrow> string \<Rightarrow> string list option \<Rightarrow> nat
     \<Rightarrow> bstate \<Rightarrow> bstate" where
  "cellStep rnd cfg tr cellTag sourceRow c s =
     (case classIds rnd (classArg (cellClass cfg)) s of (cls, s1) \<Rightarrow>
      case makeDomNode rnd cellTag cls [] False s1 of (celln, s2) \<Rightarrow>
      case push celln s2 of (cell, s3) \<Rightarrow>
      let s4 =
        (case csvData cfg of
           None \<Rightarrow> s3
         | Some d \<Rightarrow>
             if useSpanFallback cfg then
               (case makeDomNode rnd ''span'' [] [] False s3 of (spann, a1) \<Rightarrow>
                case push spann a1 of (span, a2) \<Rightarrow>
                case makeTextNode rnd (textValue cfg sourceRow c) a2 of (tnn, a3) \<Rightarrow>
                case push tnn a3 of (tn, a4) \<Rightarrow>
                let a5 = pushChild span (idOf tn a4) a4
                in pushChild cell (idOf span a5) a5)
             else
               (case makeTextNode rnd (textValue cfg sourceRow c) s3 of (tnn, a1) \<Rightarrow>
                case push tnn a1 of (tn, a2) \<Rightarrow>
                pushChild cell (idOf tn a2) a2))
      in pushChild tr (idOf cell s4) s4)"

text \<open>\<^verbatim>\<open>makeRow(sectionTag, rIndex)\<close>; the result is the reference to the row.\<close>

definition makeRow ::
  "(nat \<Rightarrow> string) \<Rightarrow> config \<Rightarrow> string \<Rightarrow> nat \<Rightarrow> bstate \<Rightarrow> nat \<times> bstate" where
  "makeRow rnd cfg sectionTag rIndex s =
     (case classIds rnd (classArg (rowClass cfg)) s of (cls, s1) \<Rightarrow>
      case makeDomNode rnd ''tr'' cls [] False s1 of (trn, s2) \<Rightarrow>
      case push trn s2 of (tr, s3) \<Rightarrow>
      let cellTag = (if sectionTag = ''thead'' \<and> useThInHead cfg then ''th'' else ''td'');
          sourceRow =
            (case csvData cfg of
               Some d \<Rightarrow>
                 if csvHasHeaderRow cfg \<and> sectionTag = ''tbody'' then nthOpt d (rIndex + 1)
                 else nthOpt d rIndex
             | None \<Rightarrow> None);
          cellCount = (case csvData cfg of Some d \<Rightarrow> effectiveCols cfg | None \<Rightarrow> Num (cols cfg))
      in (tr, fold (cellStep rnd cfg tr cellTag sourceRow) [0 ..< loopCount cellCount] s3))"

text \<open>
  The memo, in the order of the source: the table element; the head (a
  reference, or \<^verbatim>\<open>null\<close>); the body with its loop over the rows; the foot; the
  sections attached to the table; the wrapper chain.
\<close>

definition buildTable :: "(nat \<Rightarrow> string) \<Rightarrow> config \<Rightarrow> bstate \<Rightarrow> nat \<times> bstate" where
  "buildTable rnd cfg s =
     (let tableAttrs = (if addAriaRole cfg then [(''role'', ''table'')] else [])
      in case classIds rnd (classArg (tableClass cfg)) s of (cls, s1) \<Rightarrow>
         case makeDomNode rnd ''table'' cls tableAttrs False s1 of (n, s2) \<Rightarrow>
         push n s2)"

text \<open>A section with the single row \<^verbatim>\<open>makeRow(tag, 0)\<close>: the head and the foot.\<close>

definition buildOneRowSection ::
  "(nat \<Rightarrow> string) \<Rightarrow> config \<Rightarrow> string \<Rightarrow> string \<Rightarrow> bstate \<Rightarrow> nat \<times> bstate" where
  "buildOneRowSection rnd cfg tag cls0 s =
     (case classIds rnd (classArg cls0) s of (cls, s1) \<Rightarrow>
      case makeDomNode rnd tag cls [] False s1 of (n, s2) \<Rightarrow>
      case push n s2 of (sec, s3) \<Rightarrow>
      case makeRow rnd cfg tag 0 s3 of (tr, s4) \<Rightarrow>
      (sec, pushChild sec (idOf tr s4) s4))"

definition buildHead :: "(nat \<Rightarrow> string) \<Rightarrow> config \<Rightarrow> bstate \<Rightarrow> nat option \<times> bstate" where
  "buildHead rnd cfg s =
     (if includeHead cfg then
        (case buildOneRowSection rnd cfg ''thead'' (theadClass cfg) s of (r, s1) \<Rightarrow> (Some r, s1))
      else (None, s))"

definition bodyStep :: "(nat \<Rightarrow> string) \<Rightarrow> config \<Rightarrow> nat \<Rightarrow> nat \<Rightarrow> bstate \<Rightarrow> bstate" where
  "bodyStep rnd cfg tbody r s =
     (case makeRow rnd cfg ''tbody'' r s of (tr, s1) \<Rightarrow> pushChild tbody (idOf tr s1) s1)"

definition buildBody :: "(nat \<Rightarrow> string) \<Rightarrow> config \<Rightarrow> bstate \<Rightarrow> nat \<times> bstate" where
  "buildBody rnd cfg s =
     (case classIds rnd (classArg (tbodyClass cfg)) s of (cls, s1) \<Rightarrow>
      case makeDomNode rnd ''tbody'' cls [] False s1 of (n, s2) \<Rightarrow>
      case push n s2 of (tbody, s3) \<Rightarrow>
      let bodyRowCount = (case csvData cfg of Some d \<Rightarrow> effectiveRows cfg | None \<Rightarrow> Num (rows cfg))
      in (tbody, fold (bodyStep rnd cfg tbody) [0 ..< loopCount bodyRowCount] s3))"

definition buildFoot :: "(nat \<Rightarrow> string) \<Rightarrow> config \<Rightarrow> bstate \<Rightarrow> nat option \<times> bstate" where
  "buildFoot rnd cfg s =
     (if includeFoot cfg then
        (case buildOneRowSection rnd cfg ''tfoot'' (tfootClass cfg) s of (r, s1) \<Rightarrow> (Some r, s1))
      else (None, s))"

definition attachSections :: "nat \<Rightarrow> nat option \<Rightarrow> nat \<Rightarrow> nat option \<Rightarrow> bstate \<Rightarrow> bstate" where
  "attachSections table thead tbody tfoot s =
     (let s1 = (case thead of Some h \<Rightarrow> pushChild table (idOf h s) s | None \<Rightarrow> s);
          s2 = pushChild table (idOf tbody s1) s1
      in case tfoot of Some f \<Rightarrow> pushChild table (idOf f s2) s2 | None \<Rightarrow> s2)"

definition pushDiv :: "(nat \<Rightarrow> string) \<Rightarrow> string \<Rightarrow> bstate \<Rightarrow> nat \<times> bstate" where
  "pushDiv rnd preset s =
     (case classIds rnd [preset] s of (cls, s1) \<Rightarrow>
      case makeDomNode rnd ''div'' cls [] False s1 of (n, s2) \<Rightarrow>
      push n s2)"

definition wrapSection :: "(nat \<Rightarrow> string) \<Rightarrow> config \<Rightarrow> nat \<Rightarrow> bstate \<Rightarrow> bstate" where
  "wrapSection rnd cfg table s =
     (if wrapInSection cfg then
        (case pushDiv rnd ''section_table'' s of (outer, s1) \<Rightarrow>
         case pushDiv rnd ''padding-global'' s1 of (padGlobal, s2) \<Rightarrow>
         case pushDiv rnd ''container-large'' s2 of (container, s3) \<Rightarrow>
         case pushDiv rnd ''padding-section-medium'' s3 of (padSection, s4) \<Rightarrow>
         case pushDiv rnd ''table_component'' s4 of (tableWrapper, s5) \<Rightarrow>
         let s6 = pushChild outer (idOf padGlobal s5) s5;
             s7 = pushChild padGlobal (idOf container s6) s6;
             s8 = pushChild container (idOf padSection s7) s7;
             s9 = pushChild padSection (idOf tableWrapper s8) s8
         in pushChild tableWrapper (idOf table s9) s9)
      else s)"

definition initState :: bstate where
  "initState = \<lparr>nodes = [], styles = [], styleIndex = Map.empty, seed = 0\<rparr>"

definition builtState :: "(nat \<Rightarrow> string) \<Rightarrow> config \<Rightarrow> bstate" where
  "builtState rnd cfg =
     (case buildTable rnd cfg initState of (table, s1) \<Rightarrow>
      case buildHead rnd cfg s1 of (thead, s2) \<Rightarrow>
      case buildBody rnd cfg s2 of (tbody, s3) \<Rightarrow>
      case buildFoot rnd cfg s3 of (tfoot, s4) \<Rightarrow>
      wrapSection rnd cfg table (attachSections table thead tbody tfoot s4))"

text \<open>
  The payload: \<^verbatim>\<open>nodes\<close> and \<^verbatim>\<open>styles\<close>; \<^verbatim>\<open>assets\<close>, \<^verbatim>\<open>ix1\<close>, \<^verbatim>\<open>ix2\<close> and \<^verbatim>\<open>meta\<close> are
  constants.
\<close>

record payload =
  pnodes :: "node list"
  pstyles :: "style list"

definition built :: "(nat \<Rightarrow> string) \<Rightarrow> config \<Rightarrow> payload" where
  "built rnd cfg = \<lparr>pnodes = nodes (builtState rnd cfg), pstyles = styles (builtState rnd cfg)\<rparr>"

section \<open>The extractor (\<^verbatim>\<open>src/components/table-preview.tsx\<close>)\<close>

text \<open>
  \<^verbatim>\<open>new Map()\<close> filled by \<^verbatim>\<open>nodes.forEach((n) => indexById.set(n._id, n))\<close>: a
  later node replaces an earlier one with the same id.
\<close>

definition indexById :: "node list \<Rightarrow> (string \<rightharpoonup> node)" where
  "indexById ns = fold (\<lambda>n m. m(nid n \<mapsto> n)) ns Map.empty"

text \<open>\<^verbatim>\<open>node?.data?.tag || node?.tag || ""\<close>: an empty string is falsy.\<close>

definition rawTag :: "node \<Rightarrow> string" where
  "rawTag n =
     (case dtag n of
        Some t \<Rightarrow> if t \<noteq> [] then t else (case ntag n of Some u \<Rightarrow> u | None \<Rightarrow> [])
      | None \<Rightarrow> (case ntag n of Some u \<Rightarrow> u | None \<Rightarrow> []))"

definition normalizeTag :: "node \<Rightarrow> string" where
  "normalizeTag n = toLowerCase (rawTag n)"

text \<open>
  \<^verbatim>\<open>getTextFromNode\<close> calls itself on the children of a node, as deep as the
  \<^verbatim>\<open>children\<close> chains go; on a chain that comes back to itself it never
  returns, and the engine ends it with a \<^verbatim>\<open>RangeError\<close> when the call stack is
  full.  The first argument is the number of nested calls the stack still
  holds.  \<open>firstText\<close> is the \<^verbatim>\<open>for (const cid of children)\<close> loop.
\<close>

datatype error = RangeError | TypeError

fun getTextFromNode :: "nat \<Rightarrow> (string \<rightharpoonup> node) \<Rightarrow> node option \<Rightarrow> error + string"
  and firstText :: "nat \<Rightarrow> (string \<rightharpoonup> node) \<Rightarrow> string list \<Rightarrow> error + string" where
  "getTextFromNode 0 idx n = Inl RangeError"
| "getTextFromNode (Suc k) idx None = Inr []"
| "getTextFromNode (Suc k) idx (Some n) =
     (if ntext n then Inr (case nv n of Some v \<Rightarrow> v | None \<Rightarrow> [])
      else firstText k idx (children n))"
| "firstText k idx [] = Inr []"
| "firstText k idx (cid # cids) =
     (case getTextFromNode k idx (idx cid) of
        Inl e \<Rightarrow> Inl e
      | Inr t \<Rightarrow> if t \<noteq> [] then Inr t else firstText k idx cids)"

text \<open>A loop that stops at the first exception.\<close>

fun mapE :: "('a \<Rightarrow> error + 'b) \<Rightarrow> 'a list \<Rightarrow> error + 'b list" where
  "mapE f [] = Inr []"
| "mapE f (x # xs) =
     (case f x of
        Inl e \<Rightarrow> Inl e
      | Inr y \<Rightarrow> (case mapE f xs of Inl e \<Rightarrow> Inl e | Inr ys \<Rightarrow> Inr (y # ys)))"

text \<open>\<^verbatim>\<open>ids.map((id) => indexById.get(id))\<close> followed by a filter that drops \<^verbatim>\<open>undefined\<close>.\<close>

definition lookupAll :: "(string \<rightharpoonup> node) \<Rightarrow> string list \<Rightarrow> node list" where
  "lookupAll idx ids = List.map_filter idx ids"

definition readRow :: "nat \<Rightarrow> (string \<rightharpoonup> node) \<Rightarrow> node \<Rightarrow> error + string list" where
  "readRow fuel idx tr =
     mapE (\<lambda>cell. getTextFromNode fuel idx (Some cell))
       (filter (\<lambda>n. normalizeTag n = ''td'' \<or> normalizeTag n = ''th'')
          (lookupAll idx (children tr)))"

definition readSectionRows ::
  "nat \<Rightarrow> (string \<rightharpoonup> node) \<Rightarrow> node option \<Rightarrow> error + string list list" where
  "readSectionRows fuel idx section =
     (case section of
        None \<Rightarrow> Inr []
      | Some sec \<Rightarrow>
          mapE (readRow fuel idx)
            (filter (\<lambda>n. normalizeTag n = ''tr'') (lookupAll idx (children sec))))"

text \<open>
  The argument \<^verbatim>\<open>json\<close>: a falsy value; a string that \<^verbatim>\<open>JSON.parse\<close> rejects; or
  an object (given, or parsed from a string) of the declared type
  \<^verbatim>\<open>{ payload?: { nodes?: XscpNode[] } }\<close>, of which only \<^verbatim>\<open>payload.nodes\<close> is read
  (\<open>None\<close> when \<^verbatim>\<open>payload\<close> or \<^verbatim>\<open>nodes\<close> is missing).  This is the extractor on what
  the builder makes; a string that parses to a value of another type is the
  subject of the next section, and there the exception is a \<^verbatim>\<open>TypeError\<close>.  On
  nodes of the declared type the two extractors agree (lemma \<open>extract_refines\<close>).
\<close>

datatype json_arg = Falsy | Unparsable | Envelope "node list option"

record extracted =
  rowsOut :: "string list list"
  hasHeader :: bool

definition extractRowsFromXscp :: "nat \<Rightarrow> json_arg \<Rightarrow> error + extracted option" where
  "extractRowsFromXscp fuel json =
     (case json of
        Falsy \<Rightarrow> Inr None
      | Unparsable \<Rightarrow> Inr None
      | Envelope pn \<Rightarrow>
          let ns = (case pn of Some l \<Rightarrow> l | None \<Rightarrow> [])
          in if ns = [] then Inr None
             else
               let idx = indexById ns
               in (case find (\<lambda>n. normalizeTag n = ''table'') ns of
                    None \<Rightarrow> Inr None
                  | Some tableNode \<Rightarrow>
                      let tableChildren = lookupAll idx (children tableNode);
                          thead = find (\<lambda>n. normalizeTag n = ''thead'') tableChildren;
                          tbody = find (\<lambda>n. normalizeTag n = ''tbody'') tableChildren;
                          tfoot = find (\<lambda>n. normalizeTag n = ''tfoot'') tableChildren
                      in (case readSectionRows fuel idx thead of
                            Inl e \<Rightarrow> Inl e
                          | Inr headRows \<Rightarrow>
                              (case readSectionRows fuel idx tbody of
                                 Inl e \<Rightarrow> Inl e
                               | Inr bodyRows \<Rightarrow>
                                   (case readSectionRows fuel idx tfoot of
                                      Inl e \<Rightarrow> Inl e
                                    | Inr footerRows \<Rightarrow>
                                        Inr (Some \<lparr>rowsOut = (if headRows \<noteq> [] then headRows @ bodyRows
                                                                else bodyRows),
                                                   hasHeader = (headRows \<noteq> [])\<rparr>))))))"

text \<open>
  \<^verbatim>\<open>built.json\<close> is \<^verbatim>\<open>JSON.stringify\<close> of the envelope, and \<^verbatim>\<open>TablePreview\<close> parses
  it back: strings, booleans and arrays come back as they were.
\<close>

definition builtJson :: "payload \<Rightarrow> json_arg" where
  "builtJson p = Envelope (Some (pnodes p))"

section \<open>The tree view (\<^verbatim>\<open>DomTreePreview\<close> and \<^verbatim>\<open>DomNodeItem\<close> in \<^verbatim>\<open>src/App.jsx\<close>)\<close>

definition classNameById :: "style list \<Rightarrow> (string \<rightharpoonup> string)" where
  "classNameById ss = fold (\<lambda>st m. m(sid st \<mapsto> sname st)) ss Map.empty"

text \<open>
  \<^verbatim>\<open>parentById\<close> as the list of its \<^verbatim>\<open>set\<close> calls, latest first, so that
  \<open>map_of\<close> is \<^verbatim>\<open>get\<close>.
\<close>

definition parentById :: "node list \<Rightarrow> (string \<times> string) list" where
  "parentById ns = fold (\<lambda>n p. fold (\<lambda>c p. (c, nid n) # p) (children n) p) ns []"

definition roots :: "node list \<Rightarrow> node list" where
  "roots ns = filter (\<lambda>n. nid n \<notin> set (concat (map children ns))) ns"

text \<open>A \<^verbatim>\<open>Set\<close> of strings in insertion order; \<^verbatim>\<open>add\<close> of a member changes nothing.\<close>

definition setAdd :: "string list \<Rightarrow> string \<Rightarrow> string list" where
  "setAdd xs x = (if x \<in> set xs then xs else xs @ [x])"

definition normalizeQuery :: "string \<Rightarrow> string" where
  "normalizeQuery searchQuery = toLowerCase (trim searchQuery)"

definition nodeMatches :: "(string \<rightharpoonup> string) \<Rightarrow> string \<Rightarrow> node \<Rightarrow> bool" where
  "nodeMatches cn q n =
     (let tag = toLowerCase (rawTag n);
          classNames = map (\<lambda>i. case cn i of Some name \<Rightarrow> toLowerCase name | None \<Rightarrow> []) (classes n)
      in includesStr tag q \<or> list_ex (\<lambda>c. includesStr c q) classNames)"

definition matchSet :: "node list \<Rightarrow> style list \<Rightarrow> string \<Rightarrow> string list" where
  "matchSet ns ss searchQuery =
     (let q = normalizeQuery searchQuery
      in if q = [] then []
         else fold (\<lambda>n acc. if nodeMatches (classNameById ss) q n then setAdd acc (nid n) else acc)
                ns [])"

text \<open>
  \<^verbatim>\<open>let cur = parentById.get(id); while (cur && !set.has(cur)) { set.add(cur);
  cur = parentById.get(cur); }\<close>
\<close>

function climb :: "(string \<times> string) list \<Rightarrow> string \<Rightarrow> string list \<Rightarrow> string list" where
  "climb p i acc =
     (case map_of p i of
        None \<Rightarrow> acc
      | Some cur \<Rightarrow> if cur = [] \<or> cur \<in> set acc then acc else climb p cur (acc @ [cur]))"
  by pat_completeness auto
termination
proof (relation "measure (\<lambda>(p, i, acc). card (snd ` set p - set acc))")
  show "wf (measure (\<lambda>(p, i, acc). card (snd ` set p - set acc)))" by simp
next
  fix p :: "(string \<times> string) list" and i cur :: string and acc :: "string list"
  assume m: "map_of p i = Some cur" and n: "\<not> (cur = [] \<or> cur \<in> set acc)"
  from m have "(i, cur) \<in> set p" by (rule map_of_SomeD)
  then have "cur \<in> snd ` set p - set acc" using n by force
  then have "card (snd ` set p - set (acc @ [cur])) < card (snd ` set p - set acc)"
    by (intro psubset_card_mono) auto
  then show "((p, cur, acc @ [cur]), (p, i, acc)) \<in> measure (\<lambda>(p, i, acc). card (snd ` set p - set acc))"
    by simp
qed

declare climb.simps [simp del]

definition ancestorSet :: "node list \<Rightarrow> string list \<Rightarrow> string list" where
  "ancestorSet ns ms = fold (climb (parentById ns)) ms []"

datatype expandMode = Auto | All | Collapse

text \<open>The value the effect of \<^verbatim>\<open>DomNodeItem\<close> gives to \<^verbatim>\<open>open\<close>.\<close>

definition openState :: "expandMode \<Rightarrow> bool \<Rightarrow> bool \<Rightarrow> nat \<Rightarrow> bool" where
  "openState mode isMatch isAncestorOfMatch depth =
     (case mode of
        All \<Rightarrow> True
      | Collapse \<Rightarrow> False
      | Auto \<Rightarrow> isMatch \<or> isAncestorOfMatch \<or> depth < 1)"

text \<open>
  \<^verbatim>\<open>open\<close> of the item that \<^verbatim>\<open>DomTreePreview\<close> renders for node \<open>n\<close> at depth
  \<open>depth\<close> (0 for the roots, one more for the children of an item).
\<close>

definition nodeOpen ::
  "node list \<Rightarrow> style list \<Rightarrow> string \<Rightarrow> expandMode \<Rightarrow> node \<Rightarrow> nat \<Rightarrow> bool" where
  "nodeOpen ns ss searchQuery mode n depth =
     (let ms = matchSet ns ss searchQuery;
          as = ancestorSet ns ms
      in openState mode (nid n \<in> set ms) (nid n \<in> set as) depth)"

section \<open>The extractor on any parsed value (\<^verbatim>\<open>src/components/table-preview.tsx\<close>)\<close>

text \<open>
  \<^verbatim>\<open>extractRowsFromXscp\<close> takes a string through \<^verbatim>\<open>JSON.parse\<close>, and a string that
  parses need not have the declared type of the envelope.  This section is the
  extractor on every value that \<^verbatim>\<open>JSON.parse\<close> returns: \<^verbatim>\<open>null\<close>, a boolean, a
  number, a string, an array, or an object, given by its own properties (a list
  that \<open>map_of\<close> reads: the property \<open>p\<close> is the first entry for \<open>p\<close>).  \<open>'n\<close> is
  the type of the number values, with \<open>0\<close> for the two zeros, which are both
  falsy, are the same \<^verbatim>\<open>Map\<close> key and have the same string.  Two objects or
  arrays of such a value are never the same object.  \<open>None\<close> of type
  \<open>'n json option\<close> is \<^verbatim>\<open>undefined\<close>.
\<close>

datatype 'n json =
  JNull | JBool bool | JNum 'n | JStr string | JArr "'n json list" | JObj "(string \<times> 'n json) list"

text \<open>\<^verbatim>\<open>Boolean(x)\<close>: what \<^verbatim>\<open>!x\<close>, \<^verbatim>\<open>x || y\<close> and \<^verbatim>\<open>if (x)\<close> test.\<close>

fun truthy :: "('n::zero) json \<Rightarrow> bool" where
  "truthy JNull = False"
| "truthy (JBool b) = b"
| "truthy (JNum n) = (n \<noteq> 0)"
| "truthy (JStr s) = (s \<noteq> [])"
| "truthy (JArr xs) = True"
| "truthy (JObj kvs) = True"

definition isTruthy :: "('n::zero) json option \<Rightarrow> bool" where
  "isTruthy x = (case x of None \<Rightarrow> False | Some v \<Rightarrow> truthy v)"

text \<open>
  \<^verbatim>\<open>x.p\<close> for a value \<open>x\<close> that is not \<^verbatim>\<open>null\<close>, and for the property names that
  the extractor reads as data: \<^verbatim>\<open>payload\<close>, \<^verbatim>\<open>nodes\<close>, \<^verbatim>\<open>_id\<close>, \<^verbatim>\<open>data\<close>, \<^verbatim>\<open>tag\<close>,
  \<^verbatim>\<open>children\<close>, \<^verbatim>\<open>text\<close> and \<^verbatim>\<open>v\<close>.  None of them is a property of a boolean, a
  number, a string or an array, or an inherited property of an object.
\<close>

fun getProp :: "'n json \<Rightarrow> string \<Rightarrow> 'n json option" where
  "getProp (JObj kvs) p = map_of kvs p"
| "getProp JNull p = None"
| "getProp (JBool b) p = None"
| "getProp (JNum n) p = None"
| "getProp (JStr s) p = None"
| "getProp (JArr xs) p = None"

text \<open>\<^verbatim>\<open>x?.p\<close>: \<^verbatim>\<open>undefined\<close> when \<open>x\<close> is \<^verbatim>\<open>undefined\<close> or \<^verbatim>\<open>null\<close>.\<close>

fun optProp :: "'n json option \<Rightarrow> string \<Rightarrow> 'n json option" where
  "optProp None p = None"
| "optProp (Some JNull) p = None"
| "optProp (Some (JBool b)) p = getProp (JBool b) p"
| "optProp (Some (JNum n)) p = getProp (JNum n) p"
| "optProp (Some (JStr s)) p = getProp (JStr s) p"
| "optProp (Some (JArr xs)) p = getProp (JArr xs) p"
| "optProp (Some (JObj kvs)) p = getProp (JObj kvs) p"

text \<open>\<^verbatim>\<open>x || y\<close>, where evaluating \<open>y\<close> has no effect.\<close>

definition orValue :: "('n::zero) json option \<Rightarrow> 'n json \<Rightarrow> 'n json" where
  "orValue x y = (case x of None \<Rightarrow> y | Some v \<Rightarrow> if truthy v then v else y)"

text \<open>
  \<^verbatim>\<open>node?.data?.tag || node?.tag || ""\<close>, and \<^verbatim>\<open>normalizeTag\<close>, which calls
  \<^verbatim>\<open>toLowerCase\<close> on it: a function of strings only, so that a tag that is
  \<^verbatim>\<open>true\<close>, a number other than 0, an array or an object raises a \<^verbatim>\<open>TypeError\<close>.
\<close>

definition tagValue :: "('n::zero) json option \<Rightarrow> 'n json" where
  "tagValue node =
     orValue (optProp (optProp node ''data'') ''tag'') (orValue (optProp node ''tag'') (JStr []))"

definition normalizeTagJ :: "('n::zero) json option \<Rightarrow> error + string" where
  "normalizeTagJ node =
     (case tagValue node of
        JStr s \<Rightarrow> Inr (toLowerCase s)
      | JNull \<Rightarrow> Inl TypeError
      | JBool b \<Rightarrow> Inl TypeError
      | JNum n \<Rightarrow> Inl TypeError
      | JArr xs \<Rightarrow> Inl TypeError
      | JObj kvs \<Rightarrow> Inl TypeError)"

text \<open>
  The receiver of \<^verbatim>\<open>.forEach\<close>, \<^verbatim>\<open>.find\<close> and \<^verbatim>\<open>.map\<close>: only an array has these
  methods (an own property of that name of a parsed object is not a function).
\<close>

fun arrayOf :: "'n json \<Rightarrow> error + 'n json list" where
  "arrayOf (JArr xs) = Inr xs"
| "arrayOf JNull = Inl TypeError"
| "arrayOf (JBool b) = Inl TypeError"
| "arrayOf (JNum n) = Inl TypeError"
| "arrayOf (JStr s) = Inl TypeError"
| "arrayOf (JObj kvs) = Inl TypeError"

text \<open>
  The values that \<^verbatim>\<open>for (const cid of children)\<close> runs through: the elements of
  an array, the characters of a string; no other value is iterable.
\<close>

fun iterate :: "'n json \<Rightarrow> error + 'n json list" where
  "iterate (JArr xs) = Inr xs"
| "iterate (JStr s) = Inr (map (\<lambda>c. JStr [c]) s)"
| "iterate JNull = Inl TypeError"
| "iterate (JBool b) = Inl TypeError"
| "iterate (JNum n) = Inl TypeError"
| "iterate (JObj kvs) = Inl TypeError"

text \<open>
  \<^verbatim>\<open>nodes.length\<close> is truthy, for a value \<^verbatim>\<open>nodes\<close> that is truthy or \<^verbatim>\<open>[]\<close> (as
  \<^verbatim>\<open>payload?.nodes || []\<close> is): the length of an array or a string, the own
  property \<^verbatim>\<open>length\<close> of an object, \<^verbatim>\<open>undefined\<close> for a number or a boolean.
\<close>

fun hasLength :: "('n::zero) json \<Rightarrow> bool" where
  "hasLength (JArr xs) = (xs \<noteq> [])"
| "hasLength (JStr s) = (s \<noteq> [])"
| "hasLength (JObj kvs) = isTruthy (map_of kvs ''length'')"
| "hasLength JNull = False"
| "hasLength (JBool b) = False"
| "hasLength (JNum n) = False"

text \<open>
  \<^verbatim>\<open>String(x)\<close>, with the number of nested calls that the stack still holds.
  The string of a number is left open (\<open>str\<close>).  An array is joined with
  commas, \<^verbatim>\<open>null\<close> elements giving the empty string; joining takes a call on the
  stack, and one more for each array nested in it.  An object gives
  \<^verbatim>\<open>[object Object]\<close> through the inherited \<^verbatim>\<open>toString\<close>; an own property
  \<^verbatim>\<open>toString\<close> of a parsed object is not a function, and then the inherited
  \<^verbatim>\<open>valueOf\<close> (or an own one) gives no primitive value: a \<^verbatim>\<open>TypeError\<close>.
\<close>

fun jsString :: "nat \<Rightarrow> ('n \<Rightarrow> string) \<Rightarrow> 'n json \<Rightarrow> error + string" where
  "jsString k str (JStr s) = Inr s"
| "jsString k str (JBool b) = Inr (if b then ''true'' else ''false'')"
| "jsString k str JNull = Inr ''null''"
| "jsString k str (JNum n) = Inr (str n)"
| "jsString k str (JObj kvs) =
     (case map_of kvs ''toString'' of
        Some f \<Rightarrow> Inl TypeError
      | None \<Rightarrow> Inr ''[object Object]'')"
| "jsString 0 str (JArr xs) = Inl RangeError"
| "jsString (Suc k) str (JArr xs) =
     (case mapE (\<lambda>e. case e of JNull \<Rightarrow> Inr [] | _ \<Rightarrow> jsString k str e) xs of
        Inl e \<Rightarrow> Inl e
      | Inr ss \<Rightarrow> Inr (join '','' ss))"

text \<open>
  \<^verbatim>\<open>getTextFromNode\<close>, with the number of nested calls that the stack still
  holds, and its loop \<^verbatim>\<open>for (const cid of children)\<close>.  \<open>idx\<close> is \<^verbatim>\<open>indexById.get\<close>.
\<close>

fun getTextFromNodeJ ::
    "nat \<Rightarrow> ('n \<Rightarrow> string) \<Rightarrow> ('n json \<rightharpoonup> 'n json) \<Rightarrow> ('n::zero) json option \<Rightarrow> error + string"
  and firstTextJ ::
    "nat \<Rightarrow> ('n \<Rightarrow> string) \<Rightarrow> ('n json \<rightharpoonup> 'n json) \<Rightarrow> ('n::zero) json list \<Rightarrow> error + string" where
  "getTextFromNodeJ 0 str idx node = Inl RangeError"
| "getTextFromNodeJ (Suc k) str idx node =
     (if \<not> isTruthy node then Inr []
      else if isTruthy (optProp node ''text'') then
        (case optProp node ''v'' of
           None \<Rightarrow> Inr []
         | Some v \<Rightarrow> (case v of JNull \<Rightarrow> Inr [] | _ \<Rightarrow> jsString k str v))
      else
        (case iterate (orValue (optProp node ''children'') (JArr [])) of
           Inl e \<Rightarrow> Inl e
         | Inr cids \<Rightarrow> firstTextJ k str idx cids))"
| "firstTextJ k str idx [] = Inr []"
| "firstTextJ k str idx (cid # cids) =
     (case getTextFromNodeJ k str idx (idx cid) of
        Inl e \<Rightarrow> Inl e
      | Inr t \<Rightarrow> if t \<noteq> [] then Inr t else firstTextJ k str idx cids)"

text \<open>
  \<^verbatim>\<open>indexById\<close> after \<^verbatim>\<open>nodes.forEach((n) => indexById.set(n._id, n))\<close>, for nodes
  none of which is \<^verbatim>\<open>null\<close>, as a function of the argument of \<^verbatim>\<open>get\<close>, which is
  always an element of a parsed array or a character of a parsed string.  The
  key \<^verbatim>\<open>undefined\<close> of the nodes without \<^verbatim>\<open>_id\<close> is never asked for, and a key
  that is an array or an object is another object than any argument: both are
  left out.  The other keys are found by equality.
\<close>

fun isPrimitive :: "'n json \<Rightarrow> bool" where
  "isPrimitive (JArr xs) = False"
| "isPrimitive (JObj kvs) = False"
| "isPrimitive JNull = True"
| "isPrimitive (JBool b) = True"
| "isPrimitive (JNum n) = True"
| "isPrimitive (JStr s) = True"

definition indexByIdJ :: "'n json list \<Rightarrow> ('n json \<rightharpoonup> 'n json)" where
  "indexByIdJ ns =
     fold (\<lambda>n m. case getProp n ''_id'' of
                    None \<Rightarrow> m
                  | Some k \<Rightarrow> if isPrimitive k then m(k \<mapsto> n) else m) ns Map.empty"

text \<open>\<^verbatim>\<open>xs.find((n) => normalizeTag(n) === tag)\<close>, which stops at the first exception.\<close>

fun findTag :: "string \<Rightarrow> ('n::zero) json list \<Rightarrow> error + 'n json option" where
  "findTag tag [] = Inr None"
| "findTag tag (n # ns) =
     (case normalizeTagJ (Some n) of
        Inl e \<Rightarrow> Inl e
      | Inr t \<Rightarrow> if t = tag then Inr (Some n) else findTag tag ns)"

text \<open>\<^verbatim>\<open>xs.filter(p)\<close> for a test \<open>p\<close> that may raise an exception.\<close>

fun filterE :: "('a \<Rightarrow> error + bool) \<Rightarrow> 'a list \<Rightarrow> error + 'a list" where
  "filterE p [] = Inr []"
| "filterE p (x # xs) =
     (case p x of
        Inl e \<Rightarrow> Inl e
      | Inr b \<Rightarrow> (case filterE p xs of Inl e \<Rightarrow> Inl e | Inr ys \<Rightarrow> Inr (if b then x # ys else ys)))"

text \<open>
  The tests \<^verbatim>\<open>n && normalizeTag(n) === "tr"\<close> and
  \<^verbatim>\<open>n && (normalizeTag(n) === "td" || normalizeTag(n) === "th")\<close> of the filters.
\<close>

definition isTagged :: "string list \<Rightarrow> ('n::zero) json \<Rightarrow> error + bool" where
  "isTagged tags n =
     (if \<not> truthy n then Inr False
      else case normalizeTagJ (Some n) of Inl e \<Rightarrow> Inl e | Inr t \<Rightarrow> Inr (t \<in> set tags))"

text \<open>
  \<^verbatim>\<open>(x.children || []).map((id) => indexById.get(id))\<close> without the \<^verbatim>\<open>undefined\<close>
  results, which every filter that follows drops before it looks at anything.
\<close>

definition childNodes :: "('n json \<rightharpoonup> 'n json) \<Rightarrow> ('n::zero) json \<Rightarrow> error + 'n json list" where
  "childNodes idx x =
     (case arrayOf (orValue (getProp x ''children'') (JArr [])) of
        Inl e \<Rightarrow> Inl e
      | Inr ids \<Rightarrow> Inr (List.map_filter idx ids))"

definition readRowJ ::
  "nat \<Rightarrow> ('n \<Rightarrow> string) \<Rightarrow> ('n json \<rightharpoonup> 'n json) \<Rightarrow> ('n::zero) json \<Rightarrow> error + string list" where
  "readRowJ fuel str idx tr =
     (case childNodes idx tr of
        Inl e \<Rightarrow> Inl e
      | Inr found \<Rightarrow>
          (case filterE (isTagged [''td'', ''th'']) found of
             Inl e \<Rightarrow> Inl e
           | Inr cellNodes \<Rightarrow> mapE (\<lambda>cell. getTextFromNodeJ fuel str idx (Some cell)) cellNodes))"

definition readSectionRowsJ ::
  "nat \<Rightarrow> ('n \<Rightarrow> string) \<Rightarrow> ('n json \<rightharpoonup> 'n json) \<Rightarrow> ('n::zero) json option
     \<Rightarrow> error + string list list" where
  "readSectionRowsJ fuel str idx section =
     (case section of
        None \<Rightarrow> Inr []
      | Some sec \<Rightarrow>
          (case childNodes idx sec of
             Inl e \<Rightarrow> Inl e
           | Inr found \<Rightarrow>
               (case filterE (isTagged [''tr'']) found of
                  Inl e \<Rightarrow> Inl e
                | Inr trNodes \<Rightarrow> mapE (readRowJ fuel str idx) trNodes)))"

text \<open>
  The argument \<^verbatim>\<open>json\<close>: a falsy value; a string that \<^verbatim>\<open>JSON.parse\<close> rejects; or
  the value that \<^verbatim>\<open>JSON.parse\<close> returns for the string (or such a value given as
  it is: for one that is not an object, \<^verbatim>\<open>payload\<close> is \<^verbatim>\<open>null\<close> on both ways).
\<close>

datatype 'n json_text = Missing | Rejected | Parsed "'n json"

text \<open>
  \<^verbatim>\<open>extractRowsFromXscp\<close>.  Only \<^verbatim>\<open>JSON.parse\<close> is inside the \<^verbatim>\<open>try\<close> block.
  \<^verbatim>\<open>nodes.forEach\<close> reads \<^verbatim>\<open>n._id\<close> of every node, which raises a \<^verbatim>\<open>TypeError\<close>
  on a node that is \<^verbatim>\<open>null\<close>; the nodes that \<^verbatim>\<open>get\<close> finds are objects, and the
  \<^verbatim>\<open>filter(Boolean)\<close> keeps them.
\<close>

definition extractRowsFromXscpJ ::
  "nat \<Rightarrow> ('n \<Rightarrow> string) \<Rightarrow> ('n::zero) json_text \<Rightarrow> error + extracted option" where
  "extractRowsFromXscpJ fuel str json =
     (case json of
        Missing \<Rightarrow> Inr None
      | Rejected \<Rightarrow> Inr None
      | Parsed parsed \<Rightarrow>
          let payload = optProp (Some parsed) ''payload'';
              nodes = orValue (optProp payload ''nodes'') (JArr [])
          in if \<not> hasLength nodes then Inr None
             else
               (case arrayOf nodes of
                  Inl e \<Rightarrow> Inl e
                | Inr ns \<Rightarrow>
                    if JNull \<in> set ns then Inl TypeError
                    else
                      let idx = indexByIdJ ns
                      in (case findTag ''table'' ns of
                            Inl e \<Rightarrow> Inl e
                          | Inr None \<Rightarrow> Inr None
                          | Inr (Some tableNode) \<Rightarrow>
                              (case childNodes idx tableNode of
                                 Inl e \<Rightarrow> Inl e
                               | Inr found \<Rightarrow>
                                   let tableChildren = filter truthy found
                                   in (case findTag ''thead'' tableChildren of
                                         Inl e \<Rightarrow> Inl e
                                       | Inr thead \<Rightarrow>
                                   (case findTag ''tbody'' tableChildren of
                                         Inl e \<Rightarrow> Inl e
                                       | Inr tbody \<Rightarrow>
                                   (case findTag ''tfoot'' tableChildren of
                                         Inl e \<Rightarrow> Inl e
                                       | Inr tfoot \<Rightarrow>
                                   (case readSectionRowsJ fuel str idx thead of
                                         Inl e \<Rightarrow> Inl e
                                       | Inr headRows \<Rightarrow>
                                   (case readSectionRowsJ fuel str idx tbody of
                                         Inl e \<Rightarrow> Inl e
                                       | Inr bodyRows \<Rightarrow>
                                   (case readSectionRowsJ fuel str idx tfoot of
                                         Inl e \<Rightarrow> Inl e
                                       | Inr footerRows \<Rightarrow>
                                           Inr (Some \<lparr>rowsOut = (if headRows \<noteq> [] then headRows @ bodyRows
                                                                   else bodyRows),
                                                      hasHeader = (headRows \<noteq> [])\<rparr>)))))))))))"

section \<open>Notions used in the statements and proofs\<close>

definition ranked :: "node list \<Rightarrow> (node \<Rightarrow> nat) \<Rightarrow> bool" where
  "ranked ns rank = (\<forall>n \<in> set ns. \<forall>c \<in> set (children n). \<forall>m. indexById ns c = Some m \<longrightarrow> rank m < rank n)"

definition payloadNodes :: "node list option \<Rightarrow> node list" where
  "payloadNodes pn = (case pn of Some l \<Rightarrow> l | None \<Rightarrow> [])"

definition noData :: "json_arg \<Rightarrow> bool" where
  "noData json =
     (case json of
        Falsy \<Rightarrow> True
      | Unparsable \<Rightarrow> True
      | Envelope pn \<Rightarrow>
          payloadNodes pn = [] \<or> \<not> (\<exists>n \<in> set (payloadNodes pn). normalizeTag n = ''table''))"

text \<open>The node objects that \<^verbatim>\<open>makeDomNode\<close> and \<^verbatim>\<open>makeTextNode\<close> build, with their children.\<close>

definition domNode ::
  "string \<Rightarrow> string \<Rightarrow> string list \<Rightarrow> (string \<times> string) list \<Rightarrow> string list \<Rightarrow> node" where
  "domNode i tag cls attrs kids =
     \<lparr>nid = i, ntext = False, nv = None, ntag = Some ''div'', classes = cls, children = kids,
      dtag = Some tag, attributes = attrs, dtext = False\<rparr>"

definition txtNode :: "string \<Rightarrow> string \<Rightarrow> node" where
  "txtNode i v =
     \<lparr>nid = i, ntext = True, nv = Some v, ntag = None, classes = [], children = [],
      dtag = None, attributes = [], dtext = False\<rparr>"

definition specMatches :: "(string \<rightharpoonup> string) \<Rightarrow> string \<Rightarrow> node \<Rightarrow> bool" where
  "specMatches cn query m =
     (query \<noteq> [] \<and>
      ((\<exists>a b. toLowerCase (rawTag m) = a @ toLowerCase query @ b)
       \<or> (\<exists>i \<in> set (classes m). \<exists>name a b. cn i = Some name \<and> toLowerCase name = a @ toLowerCase query @ b)))"

definition addChild :: "node \<Rightarrow> string \<Rightarrow> node" where
  "addChild n c = n\<lparr>children := children n @ [c]\<rparr>"

text \<open>The local values of \<^verbatim>\<open>makeRow\<close> and of the body loop, as functions of the configuration.\<close>

definition cellTagOf :: "config \<Rightarrow> string \<Rightarrow> string" where
  "cellTagOf cfg sectionTag = (if sectionTag = ''thead'' \<and> useThInHead cfg then ''th'' else ''td'')"

definition sourceRowOf :: "config \<Rightarrow> string \<Rightarrow> nat \<Rightarrow> string list option" where
  "sourceRowOf cfg sectionTag rIndex =
     (case csvData cfg of
        Some d \<Rightarrow>
          if csvHasHeaderRow cfg \<and> sectionTag = ''tbody'' then nthOpt d (rIndex + 1)
          else nthOpt d rIndex
      | None \<Rightarrow> None)"

definition cellCountOf :: "config \<Rightarrow> nat" where
  "cellCountOf cfg =
     loopCount (case csvData cfg of Some d \<Rightarrow> effectiveCols cfg | None \<Rightarrow> Num (cols cfg))"

definition bodyRowCountOf :: "config \<Rightarrow> nat" where
  "bodyRowCountOf cfg =
     loopCount (case csvData cfg of Some d \<Rightarrow> effectiveRows cfg | None \<Rightarrow> Num (rows cfg))"

definition rowTexts :: "config \<Rightarrow> string \<Rightarrow> nat \<Rightarrow> string list" where
  "rowTexts cfg sectionTag rIndex =
     map (textValue cfg (sourceRowOf cfg sectionTag rIndex)) [0 ..< cellCountOf cfg]"

text \<open>
  The nodes that one round of the cell loop pushes, when the first \<^verbatim>\<open>uid\<close> of the
  round is the \<open>k\<close>-th of the run: the cell alone without a grid, else the cell
  and its text node, with the span between them when the fallback is on.
\<close>

definition cellNodes ::
  "(nat \<Rightarrow> string) \<Rightarrow> config \<Rightarrow> string \<Rightarrow> string list \<Rightarrow> string \<Rightarrow> nat \<Rightarrow> node list" where
  "cellNodes rnd cfg ct cls txt k =
     (case csvData cfg of
        None \<Rightarrow> [domNode (''n_'' @ rnd k) ct cls [] []]
      | Some d \<Rightarrow>
          if useSpanFallback cfg then
            [domNode (''n_'' @ rnd k) ct cls [] [''n_'' @ rnd (k + 1)],
             domNode (''n_'' @ rnd (k + 1)) ''span'' [] [] [''t_'' @ rnd (k + 2)],
             txtNode (''t_'' @ rnd (k + 2)) txt]
          else
            [domNode (''n_'' @ rnd k) ct cls [] [''t_'' @ rnd (k + 1)],
             txtNode (''t_'' @ rnd (k + 1)) txt])"

definition cellDraws :: "config \<Rightarrow> nat" where
  "cellDraws cfg = (case csvData cfg of None \<Rightarrow> 1 | Some d \<Rightarrow> if useSpanFallback cfg then 3 else 2)"

definition cellBlock :: "(nat \<Rightarrow> string) \<Rightarrow> config \<Rightarrow> string \<Rightarrow> string \<Rightarrow> node list \<Rightarrow> bool" where
  "cellBlock rnd cfg ct txt blk = (\<exists>cls k. blk = cellNodes rnd cfg ct cls txt k)"

text \<open>A row element followed by the blocks of its cells; a section element followed by the blocks of its rows.\<close>

definition rowBlock ::
  "(nat \<Rightarrow> string) \<Rightarrow> config \<Rightarrow> string \<Rightarrow> string list option \<Rightarrow> node list \<Rightarrow> bool" where
  "rowBlock rnd cfg ct sourceRow blk =
     (\<exists>i cls cbs. blk = domNode i ''tr'' cls [] (map (\<lambda>b. nid (hd b)) cbs) # concat cbs
        \<and> list_all2 (\<lambda>b c. cellBlock rnd cfg ct (textValue cfg sourceRow c) b) cbs [0 ..< cellCountOf cfg])"

definition sectionBlock ::
  "(nat \<Rightarrow> string) \<Rightarrow> config \<Rightarrow> string \<Rightarrow> nat list \<Rightarrow> node list \<Rightarrow> bool" where
  "sectionBlock rnd cfg tag rs blk =
     (\<exists>i cls rbs. blk = domNode i tag cls [] (map (\<lambda>b. nid (hd b)) rbs) # concat rbs
        \<and> list_all2 (\<lambda>b r. rowBlock rnd cfg (cellTagOf cfg tag) (sourceRowOf cfg tag r) b) rbs rs)"

text \<open>
  The ids of a list of nodes are, in order, a two-character prefix followed by
  the \<^verbatim>\<open>uid\<close> draws number \<open>k\<close>, for increasing \<open>k\<close> from \<open>lo\<close> up to (not
  including) \<open>hi\<close>.
\<close>

definition idsFrom :: "(nat \<Rightarrow> string) \<Rightarrow> nat \<Rightarrow> nat \<Rightarrow> node list \<Rightarrow> bool" where
  "idsFrom rnd lo hi blk =
     (\<exists>pk. map nid blk = map (\<lambda>(p, k). p @ rnd k) pk \<and> sorted_wrt (<) (map snd pk)
        \<and> (\<forall>(p, k) \<in> set pk. length p = 2 \<and> lo \<le> k \<and> k < hi))"

text \<open>What a piece of the builder does to \<^verbatim>\<open>nodes\<close> and to the count of \<^verbatim>\<open>uid\<close> calls.\<close>

definition creates :: "(nat \<Rightarrow> string) \<Rightarrow> (node list \<Rightarrow> bool) \<Rightarrow> bstate \<Rightarrow> bstate \<Rightarrow> bool" where
  "creates rnd Q s s' =
     (\<exists>blk. blk \<noteq> [] \<and> nodes s' = nodes s @ blk \<and> Q blk
        \<and> idsFrom rnd (seed s) (seed s') blk \<and> seed s \<le> seed s')"

definition appends ::
  "(nat \<Rightarrow> string) \<Rightarrow> nat \<Rightarrow> (node list \<Rightarrow> bool) \<Rightarrow> bstate \<Rightarrow> bstate \<Rightarrow> bool" where
  "appends rnd p Q s s' =
     (\<exists>blk. blk \<noteq> [] \<and> nodes s' = (nodes s)[p := addChild (nodes s ! p) (nid (hd blk))] @ blk \<and> Q blk
        \<and> idsFrom rnd (seed s) (seed s') blk \<and> seed s \<le> seed s')"

definition addChildren :: "node \<Rightarrow> string list \<Rightarrow> node" where
  "addChildren n cs = n\<lparr>children := children n @ cs\<rparr>"

text \<open>The five wrappers of the section template, outermost first, around the node \<open>tableId\<close>.\<close>

definition wrapBlock :: "string \<Rightarrow> node list \<Rightarrow> bool" where
  "wrapBlock tableId W =
     (\<exists>i1 c1 i2 c2 i3 c3 i4 c4 i5 c5.
        W = [domNode i1 ''div'' c1 [] [i2], domNode i2 ''div'' c2 [] [i3],
             domNode i3 ''div'' c3 [] [i4], domNode i4 ''div'' c4 [] [i5],
             domNode i5 ''div'' c5 [] [tableId]])"

text \<open>
  The node list of a finished build: the table element, then the block of the
  head (if any), of the body, of the foot (if any), then the wrappers (if any).
\<close>

definition builtShape :: "(nat \<Rightarrow> string) \<Rightarrow> config \<Rightarrow> node list \<Rightarrow> bool" where
  "builtShape rnd cfg N =
     (\<exists>i cls H B F W.
        N = domNode i ''table'' cls (if addAriaRole cfg then [(''role'', ''table'')] else [])
              ((if includeHead cfg then [nid (hd H)] else []) @ [nid (hd B)]
               @ (if includeFoot cfg then [nid (hd F)] else []))
            # H @ B @ F @ W
        \<and> (if includeHead cfg then sectionBlock rnd cfg ''thead'' [0] H else H = [])
        \<and> sectionBlock rnd cfg ''tbody'' [0 ..< bodyRowCountOf cfg] B
        \<and> (if includeFoot cfg then sectionBlock rnd cfg ''tfoot'' [0] F else F = [])
        \<and> (if wrapInSection cfg then wrapBlock i W else W = [])
        \<and> cls = fst (classIds rnd (classArg (tableClass cfg)) initState))"

text \<open>Every id of the list resolves, through \<^verbatim>\<open>indexById\<close>, to the node of the list that carries it.\<close>

definition resolves :: "node list \<Rightarrow> bool" where
  "resolves N = (\<forall>n \<in> set N. indexById N (nid n) = Some n)"

text \<open>
  The rows that \<^verbatim>\<open>readSectionRows\<close> reads from the section \<open>tag\<close> of the first
  table of a node list (for \<^verbatim>\<open>tfoot\<close> the value \<^verbatim>\<open>footerRows\<close>, which the extractor
  computes and does not return).
\<close>

definition sectionRowsOf :: "nat \<Rightarrow> node list \<Rightarrow> string \<Rightarrow> error + string list list" where
  "sectionRowsOf fuel ns tag =
     (case find (\<lambda>n. normalizeTag n = ''table'') ns of
        None \<Rightarrow> Inr []
      | Some t \<Rightarrow>
          readSectionRows fuel (indexById ns)
            (find (\<lambda>n. normalizeTag n = tag) (lookupAll (indexById ns) (children t))))"

text \<open>Every child id of a node of \<open>blk\<close> is the id of a node of \<open>X\<close>.\<close>

definition closedIn :: "node list \<Rightarrow> node list \<Rightarrow> bool" where
  "closedIn X blk = (\<forall>n \<in> set blk. \<forall>c \<in> set (children n). c \<in> nid ` set X)"

text \<open>
  No node is a text node or a \<^verbatim>\<open>span\<close>, and every \<^verbatim>\<open>td\<close> and \<^verbatim>\<open>th\<close> element has
  no children.
\<close>

definition bareCells :: "node list \<Rightarrow> bool" where
  "bareCells N =
     (\<forall>n \<in> set N. \<not> ntext n \<and> nv n = None \<and> normalizeTag n \<noteq> ''span''
        \<and> (normalizeTag n = ''td'' \<or> normalizeTag n = ''th'' \<longrightarrow> children n = []))"

definition allEmpty :: "string list list \<Rightarrow> bool" where
  "allEmpty rs = (\<forall>r \<in> set rs. \<forall>c \<in> set r. c = [])"

text \<open>A row of the grid cut or filled with empty strings to \<open>w\<close> cells; the width the builder gives a grid.\<close>

definition padRow :: "nat \<Rightarrow> string list \<Rightarrow> string list" where
  "padRow w r = map (\<lambda>c. case nthOpt r c of Some v \<Rightarrow> v | None \<Rightarrow> []) [0 ..< w]"

definition gridWidth :: "string list list \<Rightarrow> nat" where
  "gridWidth g = loopCount (mathMax (map (\<lambda>r. int (length r)) g))"

text \<open>Inputs for the examples: a run of \<^verbatim>\<open>uid\<close> whose draws all differ, and a configuration.\<close>

definition exampleRnd :: "nat \<Rightarrow> string" where
  "exampleRnd k = replicate k (CHR ''x'')"

definition exampleConfig :: config where
  "exampleConfig =
     \<lparr>cols = 2, rows = 1, includeHead = True, includeFoot = False, wrapInSection = False,
      tableClass = [], theadClass = [], tbodyClass = [], tfootClass = [], cellClass = [],
      rowClass = [], useThInHead = True, addAriaRole = True, csvData = None,
      csvHasHeaderRow = True, useSpanFallback = False\<rparr>"

text \<open>
  The kinds of node a build holds besides the table element: section, row and
  wrapper elements; cells, which have no child when there is no grid; and, only
  when there is a grid, spans and text nodes.
\<close>

definition builtNode :: "config \<Rightarrow> node \<Rightarrow> bool" where
  "builtNode cfg n =
     ((\<exists>i tag cls kids. n = domNode i tag cls [] kids
          \<and> tag \<in> {''thead'', ''tbody'', ''tfoot'', ''tr'', ''div''})
      \<or> (\<exists>i tag cls kids. n = domNode i tag cls [] kids \<and> tag \<in> {''td'', ''th''}
            \<and> (csvData cfg = None \<longrightarrow> kids = []))
      \<or> (csvData cfg \<noteq> None
            \<and> ((\<exists>i kids. n = domNode i ''span'' [] [] kids) \<or> (\<exists>i v. n = txtNode i v))))"

text \<open>The section tags a configuration asks for, in the order head, body, foot.\<close>

definition sectionTags :: "config \<Rightarrow> string list" where
  "sectionTags cfg =
     (if includeHead cfg then [''thead''] else []) @ [''tbody'']
     @ (if includeFoot cfg then [''tfoot''] else [])"

text \<open>The style collection and the style index of a state.\<close>

definition sty :: "bstate \<Rightarrow> style list \<times> (string \<rightharpoonup> string)" where
  "sty s = (styles s, styleIndex s)"

text \<open>
  No two style records have the same name, and the index maps exactly the names
  of the records, each to the id of its record.
\<close>

definition styleInv :: "bstate \<Rightarrow> bool" where
  "styleInv s =
     (distinct (map sname (styles s))
      \<and> styleIndex s = map_of (map (\<lambda>st. (sname st, sid st)) (styles s)))"

text \<open>The arguments of the calls of \<^verbatim>\<open>classIds\<close> that follow the one for the table element.\<close>

definition classArgsOf :: "config \<Rightarrow> string list list" where
  "classArgsOf cfg =
     [classArg (rowClass cfg), classArg (cellClass cfg), classArg (theadClass cfg),
      classArg (tbodyClass cfg), classArg (tfootClass cfg)]
     @ (if wrapInSection cfg
        then [[''section_table''], [''padding-global''], [''container-large''],
              [''padding-section-medium''], [''table_component'']]
        else [])"

text \<open>The table class is the only class of the configuration, and there is no wrapper chain.\<close>

definition onlyTableClass :: "config \<Rightarrow> bool" where
  "onlyTableClass cfg =
     (theadClass cfg = [] \<and> tbodyClass cfg = [] \<and> tfootClass cfg = [] \<and> cellClass cfg = []
      \<and> rowClass cfg = [] \<and> \<not> wrapInSection cfg)"

definition styleRec :: "string \<Rightarrow> string \<Rightarrow> style" where
  "styleRec i name = \<lparr>sid = i, sname = name, styleLess = [], variants = []\<rparr>"

text \<open>Draws that are all the same.\<close>

definition constRnd :: "nat \<Rightarrow> string" where
  "constRnd k = ''x''"

text \<open>
  The nodes of one cell of a grid build that hold the text \<open>v\<close>: a \<^verbatim>\<open>td\<close> element
  whose only child is the text node with value \<open>v\<close> that follows it or, with the
  span fallback, the \<^verbatim>\<open>span\<close> element that follows it, whose only child is that
  text node.
\<close>

definition cellHolds :: "config \<Rightarrow> node list \<Rightarrow> string \<Rightarrow> bool" where
  "cellHolds cfg blk v =
     (if useSpanFallback cfg
      then \<exists>i j k cls. blk = [domNode i ''td'' cls [] [j], domNode j ''span'' [] [] [k], txtNode k v]
      else \<exists>i k cls. blk = [domNode i ''td'' cls [] [k], txtNode k v])"

text \<open>
  The value of \<^verbatim>\<open>payload?.nodes || []\<close> for a parsed value, and its elements when
  it is an array.
\<close>

definition nodesArg :: "('n::zero) json \<Rightarrow> 'n json" where
  "nodesArg parsed = orValue (optProp (optProp (Some parsed) ''payload'') ''nodes'') (JArr [])"

definition nodeList :: "('n::zero) json \<Rightarrow> 'n json list" where
  "nodeList parsed = (case nodesArg parsed of JArr xs \<Rightarrow> xs | _ \<Rightarrow> [])"

text \<open>
  The declared types: \<^verbatim>\<open>XscpNode\<close> with \<^verbatim>\<open>_id: string\<close>, \<^verbatim>\<open>text?: boolean\<close>,
  \<^verbatim>\<open>v?: string\<close>, \<^verbatim>\<open>tag?: string\<close>, \<^verbatim>\<open>children?: string[]\<close> and
  \<^verbatim>\<open>data?: { tag?: string }\<close>, and \<^verbatim>\<open>{ payload?: { nodes?: XscpNode[] } }\<close>.
\<close>

definition optionally :: "('a \<Rightarrow> bool) \<Rightarrow> 'a option \<Rightarrow> bool" where
  "optionally P x = (case x of None \<Rightarrow> True | Some v \<Rightarrow> P v)"

fun isStr :: "'n json \<Rightarrow> bool" where
  "isStr (JStr s) = True"
| "isStr JNull = False"
| "isStr (JBool b) = False"
| "isStr (JNum n) = False"
| "isStr (JArr xs) = False"
| "isStr (JObj kvs) = False"

fun isBool :: "'n json \<Rightarrow> bool" where
  "isBool (JBool b) = True"
| "isBool JNull = False"
| "isBool (JStr s) = False"
| "isBool (JNum n) = False"
| "isBool (JArr xs) = False"
| "isBool (JObj kvs) = False"

fun isStrArray :: "'n json \<Rightarrow> bool" where
  "isStrArray (JArr xs) = list_all isStr xs"
| "isStrArray JNull = False"
| "isStrArray (JBool b) = False"
| "isStrArray (JNum n) = False"
| "isStrArray (JStr s) = False"
| "isStrArray (JObj kvs) = False"

fun isTagData :: "'n json \<Rightarrow> bool" where
  "isTagData (JObj kvs) = optionally isStr (map_of kvs ''tag'')"
| "isTagData JNull = False"
| "isTagData (JBool b) = False"
| "isTagData (JNum n) = False"
| "isTagData (JStr s) = False"
| "isTagData (JArr xs) = False"

fun typedNode :: "'n json \<Rightarrow> bool" where
  "typedNode (JObj kvs) =
     ((case map_of kvs ''_id'' of None \<Rightarrow> False | Some i \<Rightarrow> isStr i)
      \<and> optionally isBool (map_of kvs ''text'')
      \<and> optionally isStr (map_of kvs ''v'')
      \<and> optionally isStr (map_of kvs ''tag'')
      \<and> optionally isStrArray (map_of kvs ''children'')
      \<and> optionally isTagData (map_of kvs ''data''))"
| "typedNode JNull = False"
| "typedNode (JBool b) = False"
| "typedNode (JNum n) = False"
| "typedNode (JStr s) = False"
| "typedNode (JArr xs) = False"

fun isNodeArray :: "'n json \<Rightarrow> bool" where
  "isNodeArray (JArr xs) = list_all typedNode xs"
| "isNodeArray JNull = False"
| "isNodeArray (JBool b) = False"
| "isNodeArray (JNum n) = False"
| "isNodeArray (JStr s) = False"
| "isNodeArray (JObj kvs) = False"

fun isPayload :: "'n json \<Rightarrow> bool" where
  "isPayload (JObj kvs) = optionally isNodeArray (map_of kvs ''nodes'')"
| "isPayload JNull = False"
| "isPayload (JBool b) = False"
| "isPayload (JNum n) = False"
| "isPayload (JStr s) = False"
| "isPayload (JArr xs) = False"

fun typedEnvelope :: "'n json \<Rightarrow> bool" where
  "typedEnvelope (JObj kvs) = optionally isPayload (map_of kvs ''payload'')"
| "typedEnvelope JNull = False"
| "typedEnvelope (JBool b) = False"
| "typedEnvelope (JNum n) = False"
| "typedEnvelope (JStr s) = False"
| "typedEnvelope (JArr xs) = False"

text \<open>The ids in \<^verbatim>\<open>children\<close> of a node, when it is an array.\<close>

definition childIds :: "'n json \<Rightarrow> 'n json list" where
  "childIds n = (case getProp n ''children'' of Some (JArr cs) \<Rightarrow> cs | _ \<Rightarrow> [])"

text \<open>
  No chain of \<^verbatim>\<open>children\<close> references that starts at a \<^verbatim>\<open>td\<close> or \<^verbatim>\<open>th\<close> node comes
  back to a node of the chain: \<open>S\<close> holds these cells and every node that
  \<^verbatim>\<open>indexById\<close> gives for a child id of a node of \<open>S\<close>, and the rank, below \<open>d\<close>,
  goes down from a node of \<open>S\<close> to each such child.
\<close>

definition belowCells :: "('n::zero) json list \<Rightarrow> 'n json set \<Rightarrow> ('n json \<Rightarrow> nat) \<Rightarrow> nat \<Rightarrow> bool" where
  "belowCells ns S rank d =
     ((\<forall>n \<in> set ns. isTagged [''td'', ''th''] n = Inr True \<longrightarrow> n \<in> S)
      \<and> (\<forall>n \<in> S. rank n < d
            \<and> (\<forall>c \<in> set (childIds n). \<forall>m. indexByIdJ ns c = Some m \<longrightarrow> m \<in> S \<and> rank m < rank n)))"

text \<open>The tag of a node of the declared type.\<close>

definition tagOf :: "('n::zero) json \<Rightarrow> string" where
  "tagOf n = (case normalizeTagJ (Some n) of Inr s \<Rightarrow> s | Inl e \<Rightarrow> [])"

text \<open>
  Parsed envelopes: the objects that \<^verbatim>\<open>makeDomNode\<close> and \<^verbatim>\<open>makeTextNode\<close> build, as
  \<^verbatim>\<open>JSON.parse\<close> returns them (without the properties that the extractor does
  not read), and an envelope around a value for \<^verbatim>\<open>nodes\<close>.
\<close>

definition elemJson :: "string \<Rightarrow> string \<Rightarrow> string list \<Rightarrow> int json" where
  "elemJson i tag kids =
     JObj [(''_id'', JStr i), (''tag'', JStr ''div''), (''children'', JArr (map JStr kids)),
           (''data'', JObj [(''tag'', JStr tag)])]"

definition textJson :: "string \<Rightarrow> string \<Rightarrow> int json" where
  "textJson i v = JObj [(''_id'', JStr i), (''text'', JBool True), (''v'', JStr v)]"

definition envelopeOf :: "int json \<Rightarrow> int json" where
  "envelopeOf arr = JObj [(''type'', JStr ''@webflow/XscpData''), (''payload'', JObj [(''nodes'', arr)])]"

text \<open>\<^verbatim>\<open>{"payload":{"nodes":[null]}}\<close> and a table whose \<^verbatim>\<open>children\<close> is the number 5.\<close>

definition nullNodeJson :: "int json" where
  "nullNodeJson = JObj [(''payload'', JObj [(''nodes'', JArr [JNull])])]"

definition numChildrenJson :: "int json" where
  "numChildrenJson =
     JObj [(''payload'', JObj [(''nodes'',
       JArr [JObj [(''_id'', JStr ''a''), (''tag'', JStr ''table''), (''children'', JNum 5)]])])]"

text \<open>A table with one cell that lists itself as its child, and one with a cell that holds \<^verbatim>\<open>hi\<close>.\<close>

definition cycJson :: "int json" where
  "cycJson = envelopeOf (JArr
     [elemJson ''a'' ''table'' [''bb''], elemJson ''bb'' ''tbody'' [''ccc''],
      elemJson ''ccc'' ''tr'' [''dddd''], elemJson ''dddd'' ''td'' [''dddd'']])"

definition okJson :: "int json" where
  "okJson = envelopeOf (JArr
     [elemJson ''a'' ''table'' [''bb''], elemJson ''bb'' ''tbody'' [''ccc''],
      elemJson ''ccc'' ''tr'' [''dddd''], elemJson ''dddd'' ''td'' [''eeeee''],
      textJson ''eeeee'' ''hi''])"

text \<open>
  A node of the declared type as \<^verbatim>\<open>JSON.parse\<close> returns it, with the properties
  that the extractor reads, and the envelope around a list of them.
\<close>

definition nodeJson :: "node \<Rightarrow> 'n json" where
  "nodeJson n =
     JObj ([(''_id'', JStr (nid n))]
           @ (if ntext n then [(''text'', JBool True)] else [])
           @ (case nv n of Some v \<Rightarrow> [(''v'', JStr v)] | None \<Rightarrow> [])
           @ (case ntag n of Some t \<Rightarrow> [(''tag'', JStr t)] | None \<Rightarrow> [])
           @ [(''children'', JArr (map JStr (children n)))]
           @ (case dtag n of Some t \<Rightarrow> [(''data'', JObj [(''tag'', JStr t)])] | None \<Rightarrow> []))"

definition nodesJson :: "node list \<Rightarrow> 'n json" where
  "nodesJson ns = JObj [(''payload'', JObj [(''nodes'', JArr (map nodeJson ns))])]"

section \<open>Properties of the CSV codec\<close>

lemma escapeQuotes_plain: "\<not> needsQuote cell \<Longrightarrow> escapeQuotes cell = cell"
  by (induction cell) (auto simp: needsQuote_def escapeQuotes_def)

lemma parseLoop_plain:
  "\<not> needsQuote cell \<Longrightarrow>
   parseLoop (cell @ rest) acc row field False = parseLoop rest acc row (field @ cell) False"
  by (induction cell arbitrary: field) (auto simp: needsQuote_def)

lemma parseLoop_quoted:
  "rest = [] \<or> hd rest \<noteq> dquote \<Longrightarrow>
   parseLoop (escapeQuotes cell @ dquote # rest) acc row field True
     = parseLoop rest acc row (field @ cell) False"
proof (induction cell arbitrary: field)
  case Nil
  then show ?case by (cases rest) (auto simp: escapeQuotes_def)
next
  case (Cons c cs)
  from Cons.IH [OF Cons.prems, of "field @ [c]"] show ?case
    by (auto simp: escapeQuotes_def)
qed

lemma parseLoop_cell:
  assumes "rest = [] \<or> hd rest \<noteq> dquote"
  shows "parseLoop (stringifyCell cell @ rest) acc row [] False = parseLoop rest acc row cell False"
proof (cases "needsQuote cell")
  case True
  then show ?thesis
    using parseLoop_quoted [OF assms, of cell acc row "[]"] by (simp add: stringifyCell_def)
next
  case False
  then show ?thesis
    using parseLoop_plain [of cell rest acc row "[]"] by (simp add: stringifyCell_def escapeQuotes_plain)
qed

lemma parseLoop_row:
  "r \<noteq> [] \<Longrightarrow> rest = [] \<or> hd rest \<noteq> dquote \<Longrightarrow>
   parseLoop (join [comma] (map stringifyCell r) @ rest) acc row [] False
     = parseLoop rest acc (row @ butlast r) (last r) False"
proof (induction r arbitrary: row)
  case Nil
  then show ?case by simp
next
  case (Cons c cs)
  show ?case
  proof (cases cs)
    case Nil
    then show ?thesis using parseLoop_cell [OF Cons.prems(2)] by simp
  next
    case (Cons d ds)
    have "parseLoop (stringifyCell c @ comma # join [comma] (map stringifyCell cs) @ rest) acc row [] False
        = parseLoop (comma # join [comma] (map stringifyCell cs) @ rest) acc row c False"
      by (rule parseLoop_cell) simp
    also have "\<dots> = parseLoop (join [comma] (map stringifyCell cs) @ rest) acc (row @ [c]) [] False"
      by simp
    also have "\<dots> = parseLoop rest acc ((row @ [c]) @ butlast cs) (last cs) False"
      using Cons.IH [OF _ Cons.prems(2)] Cons by simp
    finally show ?thesis using Cons by simp
  qed
qed

lemma parseLoop_rows:
  "g \<noteq> [] \<Longrightarrow> \<forall>r \<in> set g. r \<noteq> [] \<Longrightarrow>
   parseLoop (join [lf] (map stringifyRow g)) acc [] [] False
     = (acc @ butlast g, butlast (last g), last (last g))"
proof (induction g arbitrary: acc)
  case Nil
  then show ?case by simp
next
  case (Cons r rs)
  have r: "r \<noteq> []" using Cons.prems by simp
  show ?case
  proof (cases rs)
    case Nil
    then show ?thesis
      using parseLoop_row [OF r, of "[]" acc "[]"] by (simp add: stringifyRow_def)
  next
    case (Cons r2 rs2)
    have "parseLoop (stringifyRow r @ lf # join [lf] (map stringifyRow rs)) acc [] [] False
        = parseLoop (lf # join [lf] (map stringifyRow rs)) acc ([] @ butlast r) (last r) False"
      unfolding stringifyRow_def by (rule parseLoop_row [OF r]) simp
    also have "\<dots> = parseLoop (join [lf] (map stringifyRow rs)) (acc @ [r]) [] [] False"
      using r by simp
    also have "\<dots> = ((acc @ [r]) @ butlast rs, butlast (last rs), last (last rs))"
      using Cons.IH [of "acc @ [r]"] Cons.prems Cons by simp
    finally show ?thesis using Cons by simp
  qed
qed

lemma stringifyCSV_rows: "stringifyCSV g = join [lf] (map stringifyRow g)"
  by (simp add: stringifyCSV_def)

lemma parse_stringify_nonempty:
  assumes "g \<noteq> []" "\<forall>r \<in> set g. r \<noteq> []"
  shows "parseCSV (stringifyCSV g) = (if last g = [[]] then butlast g else g)"
proof -
  have l: "last g \<noteq> []" using assms by simp
  have a: "butlast (last g) @ [last (last g)] = last g" using l by simp
  have p: "parseLoop (join [lf] (map stringifyRow g)) [] [] [] False
             = (butlast g, butlast (last g), last (last g))"
    using parseLoop_rows [OF assms, of "[]"] by simp
  have e: "parseCSV (stringifyCSV g)
             = (if length (last g) > 1 \<or> last g ! 0 \<noteq> [] then butlast g @ [last g] else butlast g)"
    by (simp only: parseCSV_def stringifyCSV_rows p prod.case Let_def a)
  have c: "length (last g) > 1 \<or> last g ! 0 \<noteq> [] \<longleftrightarrow> last g \<noteq> [[]]"
    using l by (cases "last g") auto
  show ?thesis unfolding e c using assms(1) by simp
qed

lemma parseLoop_rows_nonempty:
  "\<forall>r \<in> set acc. r \<noteq> [] \<Longrightarrow> parseLoop inp acc row field q = (acc', row', field')
   \<Longrightarrow> \<forall>r \<in> set acc'. r \<noteq> []"
  by (induction inp acc row field q rule: parseLoop.induct) (auto split: if_splits list.splits)

lemma parseCSV_rows_nonempty: "\<forall>r \<in> set (parseCSV inp). r \<noteq> []"
proof -
  obtain acc row field where p: "parseLoop inp [] [] [] False = (acc, row, field)"
    by (cases "parseLoop inp [] [] [] False") auto
  from parseLoop_rows_nonempty [OF _ p] have "\<forall>r \<in> set acc. r \<noteq> []" by simp
  then show ?thesis using p by (auto simp: parseCSV_def Let_def)
qed


text \<open>
  Claim C3, as stated: parsing the serialisation of any grid of strings gives
  the grid back (leaving aside the grid that serialises to the empty text).
  It fails on the two-row grid whose second row is one empty cell: the
  serialisation is \<^verbatim>\<open>"a\n"\<close>, and the parser drops the final row.
\<close>

theorem parse_stringify_counterexample:
  "parseCSV (stringifyCSV [[''a''], [[]]]) = [[''a'']]
   \<and> parseCSV (stringifyCSV [[''a''], [[]]]) \<noteq> [[''a''], [[]]]"
  by (simp add: parseCSV_def stringifyCSV_def stringifyRow_def stringifyCell_def
        escapeQuotes_def needsQuote_def)

text \<open>
  Claim C3, amended: parsing the serialisation of a grid gives the grid back
  exactly when every row of the grid has at least one cell and the last row
  (if there is one) is not the single empty cell.
\<close>

theorem parse_stringify_iff:
  "parseCSV (stringifyCSV g) = g \<longleftrightarrow> (\<forall>r \<in> set g. r \<noteq> []) \<and> (g \<noteq> [] \<longrightarrow> last g \<noteq> [[]])"
proof (cases "g = []")
  case True
  then show ?thesis by (simp add: parseCSV_def stringifyCSV_def)
next
  case False
  show ?thesis
  proof (cases "\<forall>r \<in> set g. r \<noteq> []")
    case True
    have "butlast g \<noteq> g"
      using False by (metis length_butlast diff_less length_greater_0_conv less_irrefl zero_less_one)
    then show ?thesis using parse_stringify_nonempty [OF False True] True False by auto
  next
    case False
    then show ?thesis using parseCSV_rows_nonempty [of "stringifyCSV g"] by metis
  qed
qed

theorem parse_stringify_iff_witness:
  "parseCSV (stringifyCSV [[''a'', [comma, dquote, lf, cr]], [[], ''b'']])
     = [[''a'', [comma, dquote, lf, cr]], [[], ''b'']]"
  using parse_stringify_iff [of "[[''a'', [comma, dquote, lf, cr]], [[], ''b'']]"] by simp

text \<open>
  Claim C9: a cell is written between quotes, with every quote inside it
  doubled, if and only if it contains a quote, a comma or a newline character
  (line feed or carriage return, the characters of \<^verbatim>\<open>/[",\n\r]/\<close>); any other
  cell is written unchanged; the cells of a row are joined with commas and the
  rows with a line feed.
\<close>

theorem stringify_quoting:
  "(stringifyCell cell = [dquote] @ escapeQuotes cell @ [dquote]
      \<longleftrightarrow> dquote \<in> set cell \<or> comma \<in> set cell \<or> lf \<in> set cell \<or> cr \<in> set cell)
   \<and> (stringifyCell cell \<noteq> [dquote] @ escapeQuotes cell @ [dquote] \<longrightarrow> stringifyCell cell = cell)
   \<and> escapeQuotes (a @ [dquote] @ b) = escapeQuotes a @ [dquote, dquote] @ escapeQuotes b
   \<and> filter (\<lambda>ch. ch \<noteq> dquote) (escapeQuotes cell) = filter (\<lambda>ch. ch \<noteq> dquote) cell
   \<and> stringifyCSV (r1 # r2 # rs) = stringifyRow r1 @ [lf] @ stringifyCSV (r2 # rs)
   \<and> stringifyRow (c1 # c2 # cs) = stringifyCell c1 @ [comma] @ stringifyRow (c2 # cs)
   \<and> stringifyCSV [r1] = stringifyRow r1 \<and> stringifyRow [c1] = stringifyCell c1"
proof -
  have n: "needsQuote cell \<longleftrightarrow> dquote \<in> set cell \<or> comma \<in> set cell \<or> lf \<in> set cell \<or> cr \<in> set cell"
    by (auto simp: needsQuote_def)
  have l: "length (escapeQuotes cell) \<ge> length cell"
    by (induction cell) (auto simp: escapeQuotes_def)
  have ne: "cell \<noteq> [dquote] @ escapeQuotes cell @ [dquote]"
  proof
    assume "cell = [dquote] @ escapeQuotes cell @ [dquote]"
    then have "length cell = length ([dquote] @ escapeQuotes cell @ [dquote])" by simp
    then show False using l by simp
  qed
  have f: "filter (\<lambda>ch. ch \<noteq> dquote) (escapeQuotes cell) = filter (\<lambda>ch. ch \<noteq> dquote) cell"
    by (induction cell) (auto simp: escapeQuotes_def)
  have c: "stringifyCell cell = (if needsQuote cell then [dquote] @ escapeQuotes cell @ [dquote] else cell)"
    by (simp add: stringifyCell_def escapeQuotes_plain Let_def)
  have c1: "stringifyCell cell = [dquote] @ escapeQuotes cell @ [dquote]
      \<longleftrightarrow> dquote \<in> set cell \<or> comma \<in> set cell \<or> lf \<in> set cell \<or> cr \<in> set cell"
    unfolding n [symmetric] using c ne by (cases "needsQuote cell") simp_all
  have c2: "stringifyCell cell \<noteq> [dquote] @ escapeQuotes cell @ [dquote] \<longrightarrow> stringifyCell cell = cell"
    using c by (cases "needsQuote cell") simp_all
  have c3: "escapeQuotes (a @ [dquote] @ b) = escapeQuotes a @ [dquote, dquote] @ escapeQuotes b"
    by (simp add: escapeQuotes_def)
  have c5: "stringifyCSV (r1 # r2 # rs) = stringifyRow r1 @ [lf] @ stringifyCSV (r2 # rs)"
    by (simp add: stringifyCSV_def)
  have c6: "stringifyRow (c1 # c2 # cs) = stringifyCell c1 @ [comma] @ stringifyRow (c2 # cs)"
    by (simp add: stringifyRow_def)
  have c7: "stringifyCSV [r1] = stringifyRow r1" by (simp add: stringifyCSV_def)
  have c8: "stringifyRow [c1] = stringifyCell c1" by (simp add: stringifyRow_def)
  from c1 c2 c3 f c5 c6 c7 c8 show ?thesis by (intro conjI)
qed

theorem stringify_quoting_witness:
  "stringifyCell ''a,b'' = [dquote] @ ''a,b'' @ [dquote] \<and> stringifyCell ''ab'' = ''ab''
   \<and> stringifyCell [cr] = [dquote, cr, dquote]"
  using stringify_quoting [of "''a,b''"] stringify_quoting [of "''ab''"] stringify_quoting [of "[cr]"]
  by (simp add: escapeQuotes_def)

section \<open>Properties of the extractor\<close>

lemma indexById_fold_Some:
  "fold (\<lambda>n m. m(nid n \<mapsto> n)) ns m0 i = Some n \<Longrightarrow> (n \<in> set ns \<and> nid n = i) \<or> m0 i = Some n"
proof (induction ns arbitrary: m0)
  case Nil
  then show ?case by simp
next
  case (Cons a ns)
  from Cons.prems have "fold (\<lambda>n m. m(nid n \<mapsto> n)) ns (m0(nid a \<mapsto> a)) i = Some n"
    by (simp only: fold_simps comp_apply)
  from Cons.IH [OF this] show ?case by (auto split: if_splits)
qed

lemma indexById_Some_mem: "indexById ns i = Some n \<Longrightarrow> n \<in> set ns \<and> nid n = i"
  using indexById_fold_Some [of ns Map.empty i n] by (simp add: indexById_def)

lemma getText_None: "0 < k \<Longrightarrow> getTextFromNode k idx None = Inr []"
  by (cases k) simp_all

lemma getText_ranked:
  assumes r: "ranked ns rank"
  shows "n \<in> set ns \<Longrightarrow> rank n + 1 < k \<Longrightarrow>
         \<exists>t. \<forall>k' \<ge> k. getTextFromNode k' (indexById ns) (Some n) = Inr t"
proof (induction k arbitrary: n)
  case 0
  then show ?case by simp
next
  case (Suc k)
  have ch: "set cs \<subseteq> set (children n) \<Longrightarrow> \<exists>t. \<forall>j \<ge> k. firstText j (indexById ns) cs = Inr t" for cs
  proof (induction cs)
    case Nil
    then show ?case by simp
  next
    case (Cons c cs)
    then obtain t where t: "\<forall>j \<ge> k. firstText j (indexById ns) cs = Inr t" by auto
    have "\<exists>u. \<forall>j \<ge> k. getTextFromNode j (indexById ns) (indexById ns c) = Inr u"
    proof (cases "indexById ns c")
      case None
      have "0 < k" using Suc.prems by simp
      then show ?thesis using None by (auto simp: getText_None)
    next
      case (Some m)
      have "m \<in> set ns" using Some indexById_Some_mem by blast
      moreover have "rank m < rank n"
        using r Some Suc.prems(1) Cons.prems by (auto simp: ranked_def)
      ultimately show ?thesis using Suc.IH [of m] Suc.prems(2) Some by simp
    qed
    then obtain u where u: "\<forall>j \<ge> k. getTextFromNode j (indexById ns) (indexById ns c) = Inr u" ..
    show ?case
    proof (cases "u = []")
      case True
      then show ?thesis using t u by auto
    next
      case False
      then show ?thesis using u by auto
    qed
  qed
  from ch [of "children n"] obtain t where t: "\<forall>j \<ge> k. firstText j (indexById ns) (children n) = Inr t"
    by auto
  show ?case
  proof (cases "ntext n")
    case True
    have "\<forall>k' \<ge> Suc k. getTextFromNode k' (indexById ns) (Some n) = Inr (case nv n of Some v \<Rightarrow> v | None \<Rightarrow> [])"
    proof (intro allI impI)
      fix k' assume "Suc k \<le> k'"
      then obtain j where "k' = Suc j" by (cases k') auto
      then show "getTextFromNode k' (indexById ns) (Some n) = Inr (case nv n of Some v \<Rightarrow> v | None \<Rightarrow> [])"
        using True by simp
    qed
    then show ?thesis by blast
  next
    case False
    have "\<forall>k' \<ge> Suc k. getTextFromNode k' (indexById ns) (Some n) = Inr t"
    proof (intro allI impI)
      fix k' assume a: "Suc k \<le> k'"
      then obtain j where j: "k' = Suc j" by (cases k') auto
      then have "k \<le> j" using a by simp
      then show "getTextFromNode k' (indexById ns) (Some n) = Inr t"
        using False t j by simp
    qed
    then show ?thesis by blast
  qed
qed

lemma mapE_total:
  "(\<And>x. x \<in> set xs \<Longrightarrow> \<exists>y. \<forall>k \<ge> F. f k x = Inr y) \<Longrightarrow> \<exists>ys. \<forall>k \<ge> (F::nat). mapE (f k) xs = Inr ys"
proof (induction xs)
  case Nil
  then show ?case by simp
next
  case (Cons x xs)
  then obtain ys where ys: "\<forall>k \<ge> F. mapE (f k) xs = Inr ys" by auto
  from Cons.prems [of x] obtain y where y: "\<forall>k \<ge> F. f k x = Inr y" by auto
  from y ys have "\<forall>k \<ge> F. mapE (f k) (x # xs) = Inr (y # ys)" by simp
  then show ?case by blast
qed

lemma lookupAll_mem: "n \<in> set (lookupAll (indexById ns) ids) \<Longrightarrow> n \<in> set ns"
  by (auto simp: lookupAll_def List.map_filter_def dest: indexById_Some_mem)

lemma readRow_total:
  assumes "ranked ns rank" "\<forall>n \<in> set ns. rank n < d"
  shows "\<exists>ys. \<forall>k \<ge> Suc (Suc d). readRow k (indexById ns) tr = Inr ys"
  unfolding readRow_def
proof (rule mapE_total)
  fix x assume "x \<in> set (filter (\<lambda>n. normalizeTag n = ''td'' \<or> normalizeTag n = ''th'') (lookupAll (indexById ns) (children tr)))"
  then have x: "x \<in> set ns" using lookupAll_mem by auto
  then have "rank x + 1 < Suc (Suc d)" using assms(2) by auto
  from getText_ranked [OF assms(1) x this]
  show "\<exists>y. \<forall>k\<ge>Suc (Suc d). getTextFromNode k (indexById ns) (Some x) = Inr y" .
qed

lemma readSectionRows_total:
  assumes "ranked ns rank" "\<forall>n \<in> set ns. rank n < d"
  shows "\<exists>ys. \<forall>k \<ge> Suc (Suc d). readSectionRows k (indexById ns) sec = Inr ys"
proof (cases sec)
  case None
  then show ?thesis by (simp add: readSectionRows_def)
next
  case (Some a)
  have "\<exists>ys. \<forall>k \<ge> Suc (Suc d). mapE (readRow k (indexById ns))
      (filter (\<lambda>n. normalizeTag n = ''tr'') (lookupAll (indexById ns) (children a))) = Inr ys"
    by (rule mapE_total) (rule readRow_total [OF assms])
  then show ?thesis using Some by (simp add: readSectionRows_def)
qed

lemma find_Some_mem: "find P xs = Some x \<Longrightarrow> x \<in> set xs \<and> P x"
  by (induction xs) (auto split: if_splits)

lemma extract_null_iff: "extractRowsFromXscp fuel json = Inr None \<longleftrightarrow> noData json"
proof (cases json)
  case Falsy
  then show ?thesis by (simp add: extractRowsFromXscp_def noData_def)
next
  case Unparsable
  then show ?thesis by (simp add: extractRowsFromXscp_def noData_def)
next
  case (Envelope pn)
  show ?thesis
  proof (cases "find (\<lambda>n. normalizeTag n = ''table'') (payloadNodes pn)")
    case None
    then show ?thesis using Envelope
      by (auto simp: extractRowsFromXscp_def noData_def payloadNodes_def Let_def find_None_iff
          split: option.splits dest: find_Some_mem)
  next
    case (Some t)
    from find_Some_mem [OF Some] have "\<not> noData json"
      using Envelope by (auto simp: noData_def)
    moreover have "extractRowsFromXscp fuel json \<noteq> Inr None"
      using Envelope Some find_Some_mem [OF Some]
      by (auto simp: extractRowsFromXscp_def payloadNodes_def Let_def split: option.splits sum.splits)
    ultimately show ?thesis by simp
  qed
qed

lemma extract_total:
  assumes "ranked ns rank" "\<forall>n \<in> set ns. rank n < d" "\<not> noData (Envelope (Some ns))"
  shows "\<exists>r. \<forall>k \<ge> Suc (Suc d). extractRowsFromXscp k (Envelope (Some ns)) = Inr (Some r)"
proof -
  from assms(3) obtain t where t: "find (\<lambda>n. normalizeTag n = ''table'') ns = Some t" and ne: "ns \<noteq> []"
    by (cases "find (\<lambda>n. normalizeTag n = ''table'') ns") (auto simp: noData_def payloadNodes_def find_None_iff)
  define tc where "tc = lookupAll (indexById ns) (children t)"
  obtain h where h: "\<forall>k \<ge> Suc (Suc d). readSectionRows k (indexById ns) (find (\<lambda>n. normalizeTag n = ''thead'') tc) = Inr h"
    using readSectionRows_total [OF assms(1,2)] by blast
  obtain b where b: "\<forall>k \<ge> Suc (Suc d). readSectionRows k (indexById ns) (find (\<lambda>n. normalizeTag n = ''tbody'') tc) = Inr b"
    using readSectionRows_total [OF assms(1,2)] by blast
  obtain f where f: "\<forall>k \<ge> Suc (Suc d). readSectionRows k (indexById ns) (find (\<lambda>n. normalizeTag n = ''tfoot'') tc) = Inr f"
    using readSectionRows_total [OF assms(1,2)] by blast
  have "\<forall>k \<ge> Suc (Suc d). extractRowsFromXscp k (Envelope (Some ns))
          = Inr (Some \<lparr>rowsOut = (if h \<noteq> [] then h @ b else b), hasHeader = (h \<noteq> [])\<rparr>)"
    using t ne h b f by (simp add: extractRowsFromXscp_def Let_def tc_def)
  then show ?thesis by blast
qed

lemma toLower_simps:
  "toLowerCase ''table'' = ''table''" "toLowerCase ''thead'' = ''thead''"
  "toLowerCase ''tbody'' = ''tbody''" "toLowerCase ''tfoot'' = ''tfoot''"
  "toLowerCase ''tr'' = ''tr''" "toLowerCase ''td'' = ''td''" "toLowerCase ''th'' = ''th''"
  "toLowerCase ''div'' = ''div''" "toLowerCase ''span'' = ''span''" "toLowerCase [] = []"
  by (simp_all add: toLowerCase_def lowerChar_def)

lemma normalizeTag_domNode [simp]:
  "normalizeTag (domNode i tag cls attrs kids) = (if tag \<noteq> [] then toLowerCase tag else ''div'')"
  by (simp add: normalizeTag_def rawTag_def domNode_def toLower_simps)

lemma node_sel [simp]:
  "nid (domNode i tag cls attrs kids) = i" "children (domNode i tag cls attrs kids) = kids"
  "\<not> ntext (domNode i tag cls attrs kids)" "classes (domNode i tag cls attrs kids) = cls"
  "dtag (domNode i tag cls attrs kids) = Some tag" "rawTag (txtNode i v) = []"
  "children (txtNode i v) = []" "(domNode i tag cls attrs kids = txtNode j v) = False"
  "(txtNode j v = domNode i tag cls attrs kids) = False"
  "ntext (txtNode i v)" "nv (txtNode i v) = Some v" "nid (txtNode i v) = i"
  by (simp_all add: domNode_def txtNode_def rawTag_def)

lemma rawTag_domNode [simp]:
  "rawTag (domNode i tag cls attrs kids) = (if tag \<noteq> [] then tag else ''div'')"
  by (simp add: rawTag_def domNode_def)

lemma normalizeTag_txtNode [simp]: "normalizeTag (txtNode i v) = []"
  by (simp add: normalizeTag_def toLower_simps)

lemma domNode_eq [simp]:
  "domNode i tag cls attrs kids = domNode i' tag' cls' attrs' kids'
     \<longleftrightarrow> i = i' \<and> tag = tag' \<and> cls = cls' \<and> attrs = attrs' \<and> kids = kids'"
  by (auto simp: domNode_def)

lemma txtNode_eq [simp]: "txtNode i v = txtNode i' v' \<longleftrightarrow> i = i' \<and> v = v'"
  by (auto simp: txtNode_def)

lemma addChild_domNode [simp]:
  "addChild (domNode i tag cls attrs kids) c = domNode i tag cls attrs (kids @ [c])"
  by (simp add: addChild_def domNode_def)

lemma nid_addChild [simp]: "nid (addChild n c) = nid n"
  by (simp add: addChild_def)

lemma lookupAll_simps [simp]:
  "lookupAll idx [] = []"
  "lookupAll idx (i # is) = (case idx i of None \<Rightarrow> lookupAll idx is | Some n \<Rightarrow> n # lookupAll idx is)"
  by (simp_all add: lookupAll_def List.map_filter_def split: option.splits)

lemma readSectionRows_None [simp]: "readSectionRows k idx None = Inr []"
  by (simp add: readSectionRows_def)

section \<open>Properties of the extractor on any parsed value\<close>

lemma isStr_iff: "isStr x \<longleftrightarrow> (\<exists>s. x = JStr s)"
  by (cases x) simp_all

lemma optionally_simps [simp]: "optionally P None" "optionally P (Some v) = P v"
  by (simp_all add: optionally_def)

lemma typedNode_obj: "typedNode n \<Longrightarrow> \<exists>kvs. n = JObj kvs"
  by (cases n) simp_all

lemma typedNode_truthy: "typedNode n \<Longrightarrow> truthy n \<and> n \<noteq> JNull"
  by (cases n) simp_all

lemma tagValue_typed:
  assumes "typedNode n"
  shows "\<exists>s. tagValue (Some n) = JStr s"
proof -
  from assms obtain kvs where n: "n = JObj kvs" using typedNode_obj by blast
  have t: "optionally isStr (map_of kvs ''tag'')" and d: "optionally isTagData (map_of kvs ''data'')"
    using assms n by simp_all
  have 2: "\<exists>s. orValue (map_of kvs ''tag'') (JStr []) = JStr s"
    using t by (cases "map_of kvs ''tag''") (auto simp: orValue_def isStr_iff)
  then obtain s2 where s2: "orValue (map_of kvs ''tag'') (JStr []) = JStr s2" ..
  have "\<exists>s. orValue (optProp (map_of kvs ''data'') ''tag'') (JStr s2) = JStr s"
  proof (cases "map_of kvs ''data''")
    case None
    then show ?thesis by (simp add: orValue_def)
  next
    case (Some dv)
    with d have "isTagData dv" by simp
    then obtain dk where dk: "dv = JObj dk" and o: "optionally isStr (map_of dk ''tag'')"
      by (cases dv) simp_all
    show ?thesis using o Some dk
      by (cases "map_of dk ''tag''") (auto simp: orValue_def isStr_iff)
  qed
  then show ?thesis by (simp add: tagValue_def n s2)
qed

lemma normalizeTagJ_typed: "typedNode n \<Longrightarrow> normalizeTagJ (Some n) = Inr (tagOf n)"
  using tagValue_typed [of n] by (auto simp: normalizeTagJ_def tagOf_def)

lemma findTag_typed:
  "list_all typedNode xs \<Longrightarrow> findTag tag xs = Inr (find (\<lambda>n. tagOf n = tag) xs)"
  by (induction xs) (simp_all add: normalizeTagJ_typed)

lemma filterE_typed:
  "list_all typedNode xs \<Longrightarrow>
   filterE (isTagged tags) xs = Inr (filter (\<lambda>n. tagOf n \<in> set tags) xs)"
  by (induction xs) (simp_all add: isTagged_def normalizeTagJ_typed typedNode_truthy)

lemma children_typed:
  assumes "typedNode n"
  shows "arrayOf (orValue (getProp n ''children'') (JArr [])) = Inr (childIds n)"
    and "iterate (orValue (optProp (Some n) ''children'') (JArr [])) = Inr (childIds n)"
proof -
  from assms obtain kvs where n: "n = JObj kvs" using typedNode_obj by blast
  have c: "optionally isStrArray (map_of kvs ''children'')" using assms n by simp
  show "arrayOf (orValue (getProp n ''children'') (JArr [])) = Inr (childIds n)"
  proof (cases "map_of kvs ''children''")
    case None
    then show ?thesis by (simp add: n orValue_def childIds_def)
  next
    case (Some cv)
    with c have "isStrArray cv" by simp
    then obtain cs where "cv = JArr cs" by (cases cv) simp_all
    then show ?thesis using Some by (simp add: n orValue_def childIds_def)
  qed
  then show "iterate (orValue (optProp (Some n) ''children'') (JArr [])) = Inr (childIds n)"
    by (cases "orValue (getProp n ''children'') (JArr [])") (simp_all add: n)
qed

lemma indexByIdJ_fold_Some:
  "fold (\<lambda>n m. case getProp n ''_id'' of None \<Rightarrow> m
                | Some k \<Rightarrow> if isPrimitive k then m(k \<mapsto> n) else m) ns m0 i = Some n
   \<Longrightarrow> n \<in> set ns \<or> m0 i = Some n"
proof (induction ns arbitrary: m0)
  case Nil
  then show ?case by simp
next
  case (Cons a ns)
  let ?f = "\<lambda>n m. case getProp n ''_id'' of None \<Rightarrow> m
                | Some k \<Rightarrow> if isPrimitive k then m(k \<mapsto> n) else m"
  from Cons.prems have "fold ?f ns (?f a m0) i = Some n" by (simp only: fold_simps comp_apply)
  from Cons.IH [OF this] show ?case by (auto split: option.splits if_splits)
qed

lemma indexByIdJ_Some_mem: "indexByIdJ ns i = Some n \<Longrightarrow> n \<in> set ns"
  using indexByIdJ_fold_Some [of ns Map.empty i n] by (simp add: indexByIdJ_def)

lemma childNodes_typed:
  assumes "typedNode n"
  shows "childNodes (indexByIdJ ns) n = Inr (List.map_filter (indexByIdJ ns) (childIds n))"
  by (simp add: childNodes_def children_typed(1) [OF assms])

lemma found_mem: "m \<in> set (List.map_filter (indexByIdJ ns) ids) \<Longrightarrow> m \<in> set ns"
  by (auto simp: List.map_filter_def dest: indexByIdJ_Some_mem)

lemma found_child:
  "m \<in> set (List.map_filter (indexByIdJ ns) ids) \<Longrightarrow> \<exists>c \<in> set ids. indexByIdJ ns c = Some m"
  by (auto simp: List.map_filter_def)

lemma getTextJ_None: "0 < k \<Longrightarrow> getTextFromNodeJ k str idx None = Inr []"
  by (cases k) (simp_all add: isTruthy_def)

lemma text_typed:
  assumes "typedNode n" "isTruthy (optProp (Some n) ''text'')"
  shows "\<exists>t. \<forall>k. (case optProp (Some n) ''v'' of None \<Rightarrow> Inr []
            | Some v \<Rightarrow> (case v of JNull \<Rightarrow> Inr [] | _ \<Rightarrow> jsString k str v)) = Inr t"
proof -
  from assms obtain kvs where n: "n = JObj kvs" using typedNode_obj by blast
  have v: "optionally isStr (map_of kvs ''v'')" using assms n by simp
  show ?thesis
  proof (cases "map_of kvs ''v''")
    case None
    then show ?thesis by (simp add: n)
  next
    case (Some x)
    with v obtain s where "x = JStr s" by (auto simp: isStr_iff)
    then show ?thesis using Some by (simp add: n)
  qed
qed

lemma getTextJ_ranked:
  assumes t: "list_all typedNode ns" and b: "belowCells ns S rank d"
  shows "n \<in> S \<Longrightarrow> n \<in> set ns \<Longrightarrow> rank n + 1 < k \<Longrightarrow>
         \<exists>t. \<forall>k' \<ge> k. getTextFromNodeJ k' str (indexByIdJ ns) (Some n) = Inr t"
proof (induction k arbitrary: n)
  case 0
  then show ?case by simp
next
  case (Suc k)
  have tn: "typedNode n" using t Suc.prems(2) by (simp add: list_all_iff)
  have ch: "set cs \<subseteq> set (childIds n) \<Longrightarrow>
            \<exists>t. \<forall>j \<ge> k. firstTextJ j str (indexByIdJ ns) cs = Inr t" for cs
  proof (induction cs)
    case Nil
    then show ?case by simp
  next
    case (Cons c cs)
    then obtain u where u: "\<forall>j \<ge> k. firstTextJ j str (indexByIdJ ns) cs = Inr u" by auto
    have "\<exists>w. \<forall>j \<ge> k. getTextFromNodeJ j str (indexByIdJ ns) (indexByIdJ ns c) = Inr w"
    proof (cases "indexByIdJ ns c")
      case None
      have "0 < k" using Suc.prems by simp
      then show ?thesis using None by (auto simp: getTextJ_None)
    next
      case (Some m)
      have "m \<in> set ns" using Some indexByIdJ_Some_mem by blast
      moreover have "m \<in> S \<and> rank m < rank n"
        using b Some Suc.prems(1) Cons.prems unfolding belowCells_def by auto
      ultimately show ?thesis using Suc.IH [of m] Suc.prems(3) Some by simp
    qed
    then obtain w where w: "\<forall>j \<ge> k. getTextFromNodeJ j str (indexByIdJ ns) (indexByIdJ ns c) = Inr w" ..
    show ?case
    proof (cases "w = []")
      case True
      then show ?thesis using u w by auto
    next
      case False
      then show ?thesis using w by auto
    qed
  qed
  from ch [of "childIds n"] obtain u where
    u: "\<forall>j \<ge> k. firstTextJ j str (indexByIdJ ns) (childIds n) = Inr u" by auto
  have tr: "isTruthy (Some n)" using typedNode_truthy [OF tn] by (simp add: isTruthy_def)
  show ?case
  proof (cases "isTruthy (optProp (Some n) ''text'')")
    case True
    from text_typed [OF tn True, of str] obtain w where
      w: "\<forall>k. (case optProp (Some n) ''v'' of None \<Rightarrow> Inr []
            | Some v \<Rightarrow> (case v of JNull \<Rightarrow> Inr [] | _ \<Rightarrow> jsString k str v)) = Inr w" by blast
    have "\<forall>k' \<ge> Suc k. getTextFromNodeJ k' str (indexByIdJ ns) (Some n) = Inr w"
    proof (intro allI impI)
      fix k' assume "Suc k \<le> k'"
      then obtain j where "k' = Suc j" by (cases k') auto
      then show "getTextFromNodeJ k' str (indexByIdJ ns) (Some n) = Inr w"
        using True tr w by simp
    qed
    then show ?thesis by blast
  next
    case False
    have "\<forall>k' \<ge> Suc k. getTextFromNodeJ k' str (indexByIdJ ns) (Some n) = Inr u"
    proof (intro allI impI)
      fix k' assume a: "Suc k \<le> k'"
      then obtain j where j: "k' = Suc j" by (cases k') auto
      then have "k \<le> j" using a by simp
      then show "getTextFromNodeJ k' str (indexByIdJ ns) (Some n) = Inr u"
        using False tr u j by (simp add: children_typed(2) [OF tn])
    qed
    then show ?thesis by blast
  qed
qed

lemma isTagged_typed: "typedNode n \<Longrightarrow> isTagged tags n = Inr (tagOf n \<in> set tags)"
  by (simp add: isTagged_def normalizeTagJ_typed typedNode_truthy)

lemma typed_found:
  "list_all typedNode ns \<Longrightarrow> list_all typedNode (List.map_filter (indexByIdJ ns) ids)"
  by (auto simp: list_all_iff dest: found_mem)

lemma readRowJ_total:
  assumes t: "list_all typedNode ns" and b: "belowCells ns S rank d" and tr: "typedNode tr"
  shows "\<exists>ys. \<forall>k \<ge> Suc (Suc d). readRowJ k str (indexByIdJ ns) tr = Inr ys"
proof -
  define cells where
    "cells = filter (\<lambda>n. tagOf n \<in> set [''td'', ''th'']) (List.map_filter (indexByIdJ ns) (childIds tr))"
  have e: "readRowJ k str (indexByIdJ ns) tr
      = mapE (\<lambda>cell. getTextFromNodeJ k str (indexByIdJ ns) (Some cell)) cells" for k
    by (simp add: readRowJ_def childNodes_typed [OF tr] filterE_typed [OF typed_found [OF t]] cells_def)
  have "\<exists>ys. \<forall>k \<ge> Suc (Suc d). mapE (\<lambda>cell. getTextFromNodeJ k str (indexByIdJ ns) (Some cell)) cells = Inr ys"
  proof (rule mapE_total)
    fix x assume "x \<in> set cells"
    then have x: "x \<in> set ns" and tg: "tagOf x \<in> set [''td'', ''th'']"
      unfolding cells_def using found_mem by auto
    have tx: "typedNode x" using t x by (simp add: list_all_iff)
    have "isTagged [''td'', ''th''] x = Inr True" using isTagged_typed [OF tx] tg by simp
    then have s: "x \<in> S" using b x unfolding belowCells_def by blast
    then have "rank x < d" using b unfolding belowCells_def by blast
    then have "rank x + 1 < Suc (Suc d)" by simp
    from getTextJ_ranked [OF t b s x this]
    show "\<exists>y. \<forall>k \<ge> Suc (Suc d). getTextFromNodeJ k str (indexByIdJ ns) (Some x) = Inr y" .
  qed
  then show ?thesis by (simp add: e)
qed

lemma readSectionRowsJ_total:
  assumes t: "list_all typedNode ns" and b: "belowCells ns S rank d"
    and s: "optionally typedNode sec"
  shows "\<exists>ys. \<forall>k \<ge> Suc (Suc d). readSectionRowsJ k str (indexByIdJ ns) sec = Inr ys"
proof (cases sec)
  case None
  then show ?thesis by (simp add: readSectionRowsJ_def)
next
  case (Some a)
  then have ta: "typedNode a" using s by simp
  define trs where
    "trs = filter (\<lambda>n. tagOf n \<in> set [''tr'']) (List.map_filter (indexByIdJ ns) (childIds a))"
  have e: "readSectionRowsJ k str (indexByIdJ ns) sec = mapE (readRowJ k str (indexByIdJ ns)) trs" for k
    by (simp add: readSectionRowsJ_def Some childNodes_typed [OF ta]
        filterE_typed [OF typed_found [OF t]] trs_def)
  have "\<exists>ys. \<forall>k \<ge> Suc (Suc d). mapE (readRowJ k str (indexByIdJ ns)) trs = Inr ys"
  proof (rule mapE_total)
    fix x assume "x \<in> set trs"
    then have "x \<in> set ns" unfolding trs_def using found_mem by auto
    then have "typedNode x" using t by (simp add: list_all_iff)
    from readRowJ_total [OF t b this]
    show "\<exists>y. \<forall>k \<ge> Suc (Suc d). readRowJ k str (indexByIdJ ns) x = Inr y" .
  qed
  then show ?thesis by (simp add: e)
qed

lemma typedEnvelope_nodes:
  assumes "typedEnvelope v"
  shows "nodesArg v = JArr (nodeList v) \<and> list_all typedNode (nodeList v)"
proof -
  from assms obtain kvs where v: "v = JObj kvs" by (cases v) simp_all
  show ?thesis
  proof (cases "map_of kvs ''payload''")
    case None
    then show ?thesis by (simp add: v nodesArg_def nodeList_def orValue_def)
  next
    case (Some p)
    with assms v have "isPayload p" by simp
    then obtain pk where p: "p = JObj pk" and o: "optionally isNodeArray (map_of pk ''nodes'')"
      by (cases p) simp_all
    show ?thesis
    proof (cases "map_of pk ''nodes''")
      case None
      then show ?thesis using Some p by (simp add: v nodesArg_def nodeList_def orValue_def)
    next
      case (Some a)
      with o have "isNodeArray a" by simp
      then obtain xs where "a = JArr xs" "list_all typedNode xs" by (cases a) simp_all
      then show ?thesis using Some \<open>map_of kvs ''payload'' = Some p\<close> p
        by (simp add: v nodesArg_def nodeList_def orValue_def)
    qed
  qed
qed

lemma find_typed: "list_all typedNode xs \<Longrightarrow> optionally typedNode (find P xs)"
  by (induction xs) simp_all

lemma extractJ_typed:
  assumes "typedEnvelope v"
  shows "extractRowsFromXscpJ k str (Parsed v) =
     (if nodeList v = [] then Inr None
      else case find (\<lambda>n. tagOf n = ''table'') (nodeList v) of
        None \<Rightarrow> Inr None
      | Some tableNode \<Rightarrow>
          let idx = indexByIdJ (nodeList v);
              tableChildren = List.map_filter idx (childIds tableNode)
          in (case readSectionRowsJ k str idx (find (\<lambda>n. tagOf n = ''thead'') tableChildren) of
                Inl e \<Rightarrow> Inl e
              | Inr headRows \<Rightarrow>
             (case readSectionRowsJ k str idx (find (\<lambda>n. tagOf n = ''tbody'') tableChildren) of
                Inl e \<Rightarrow> Inl e
              | Inr bodyRows \<Rightarrow>
             (case readSectionRowsJ k str idx (find (\<lambda>n. tagOf n = ''tfoot'') tableChildren) of
                Inl e \<Rightarrow> Inl e
              | Inr footerRows \<Rightarrow>
                  Inr (Some \<lparr>rowsOut = (if headRows \<noteq> [] then headRows @ bodyRows else bodyRows),
                             hasHeader = (headRows \<noteq> [])\<rparr>)))))"
proof -
  define ns where "ns = nodeList v"
  from typedEnvelope_nodes [OF assms] have a: "nodesArg v = JArr ns" and t: "list_all typedNode ns"
    unfolding ns_def by simp_all
  have nn: "JNull \<notin> set ns" using t typedNode_truthy by (auto simp: list_all_iff)
  have a': "orValue (optProp (optProp (Some v) ''payload'') ''nodes'') (JArr []) = JArr ns"
    using a by (simp add: nodesArg_def)
  show ?thesis
  proof (cases "ns = []")
    case True
    then show ?thesis by (simp add: extractRowsFromXscpJ_def a' ns_def [symmetric])
  next
    case False
    show ?thesis
    proof (cases "find (\<lambda>n. tagOf n = ''table'') ns")
      case None
      then show ?thesis using False nn
        by (simp add: extractRowsFromXscpJ_def a' ns_def [symmetric] findTag_typed [OF t])
    next
      case (Some tn)
      then have "tn \<in> set ns" using find_Some_mem by fastforce
      then have tt: "typedNode tn" using t by (simp add: list_all_iff)
      have tf: "list_all typedNode (List.map_filter (indexByIdJ ns) (childIds tn))"
        by (rule typed_found [OF t])
      have ft: "filter truthy (List.map_filter (indexByIdJ ns) (childIds tn))
          = List.map_filter (indexByIdJ ns) (childIds tn)"
        using tf typedNode_truthy by (auto simp: list_all_iff intro: filter_True)
      show ?thesis using False nn Some
        by (simp add: extractRowsFromXscpJ_def a' ns_def [symmetric] findTag_typed [OF t]
            childNodes_typed [OF tt] ft findTag_typed [OF tf] Let_def)
    qed
  qed
qed

lemma extractJ_null_iff:
  assumes "typedEnvelope v"
  shows "extractRowsFromXscpJ k str (Parsed v) = Inr None
     \<longleftrightarrow> nodeList v = [] \<or> (\<forall>n \<in> set (nodeList v). normalizeTagJ (Some n) \<noteq> Inr ''table'')"
proof -
  from typedEnvelope_nodes [OF assms] have t: "list_all typedNode (nodeList v)" by simp
  have n: "(\<forall>n \<in> set (nodeList v). normalizeTagJ (Some n) \<noteq> Inr ''table'')
      \<longleftrightarrow> find (\<lambda>n. tagOf n = ''table'') (nodeList v) = None"
    using t by (auto simp: find_None_iff list_all_iff normalizeTagJ_typed)
  show ?thesis unfolding n extractJ_typed [OF assms]
    by (auto simp: Let_def split: option.splits sum.splits)
qed

lemma extractJ_total:
  assumes ty: "typedEnvelope v" and b: "belowCells (nodeList v) S rank d"
    and ne: "nodeList v \<noteq> []" and tb: "\<exists>n \<in> set (nodeList v). normalizeTagJ (Some n) = Inr ''table''"
  shows "\<exists>r. \<forall>k \<ge> d + 2. extractRowsFromXscpJ k str (Parsed v) = Inr (Some r)"
proof -
  define ns where "ns = nodeList v"
  from typedEnvelope_nodes [OF ty] have t: "list_all typedNode ns" unfolding ns_def by simp
  from tb obtain n0 where "n0 \<in> set ns" "tagOf n0 = ''table''"
    using t unfolding ns_def [symmetric] by (auto simp: list_all_iff normalizeTagJ_typed)
  then obtain tn where f: "find (\<lambda>n. tagOf n = ''table'') ns = Some tn"
    by (cases "find (\<lambda>n. tagOf n = ''table'') ns") (auto simp: find_None_iff)
  define tc where "tc = List.map_filter (indexByIdJ ns) (childIds tn)"
  have tf: "list_all typedNode tc" unfolding tc_def by (rule typed_found [OF t])
  note b' = b [unfolded ns_def [symmetric]]
  from readSectionRowsJ_total [OF t b' find_typed [OF tf], of str "\<lambda>n. tagOf n = ''thead''"]
  obtain hr where hr: "\<forall>k \<ge> Suc (Suc d). readSectionRowsJ k str (indexByIdJ ns)
      (find (\<lambda>n. tagOf n = ''thead'') tc) = Inr hr" by blast
  from readSectionRowsJ_total [OF t b' find_typed [OF tf], of str "\<lambda>n. tagOf n = ''tbody''"]
  obtain br where br: "\<forall>k \<ge> Suc (Suc d). readSectionRowsJ k str (indexByIdJ ns)
      (find (\<lambda>n. tagOf n = ''tbody'') tc) = Inr br" by blast
  from readSectionRowsJ_total [OF t b' find_typed [OF tf], of str "\<lambda>n. tagOf n = ''tfoot''"]
  obtain fr where fr: "\<forall>k \<ge> Suc (Suc d). readSectionRowsJ k str (indexByIdJ ns)
      (find (\<lambda>n. tagOf n = ''tfoot'') tc) = Inr fr" by blast
  have "\<forall>k \<ge> d + 2. extractRowsFromXscpJ k str (Parsed v)
      = Inr (Some \<lparr>rowsOut = (if hr \<noteq> [] then hr @ br else br), hasHeader = (hr \<noteq> [])\<rparr>)"
    using hr br fr ne f
    by (simp add: extractJ_typed [OF ty] ns_def [symmetric] tc_def [symmetric] Let_def)
  then show ?thesis by blast
qed

lemma nodeList_envelopeOf [simp]: "nodeList (envelopeOf (JArr xs)) = xs"
  by (simp add: nodeList_def nodesArg_def envelopeOf_def orValue_def)

lemma typed_elemJson [simp]: "typedNode (elemJson i tag kids)"
  by (simp add: elemJson_def list_all_iff)

lemma typed_textJson [simp]: "typedNode (textJson i v)"
  by (simp add: textJson_def)

lemma typedEnvelope_envelopeOf [simp]: "typedEnvelope (envelopeOf (JArr xs)) = list_all typedNode xs"
  by (simp add: envelopeOf_def)

lemma tagOf_elemJson [simp]: "tag \<noteq> [] \<Longrightarrow> tagOf (elemJson i tag kids) = toLowerCase tag"
  by (simp add: tagOf_def normalizeTagJ_def tagValue_def elemJson_def orValue_def)

lemma tagOf_textJson [simp]: "tagOf (textJson i v) = []"
  by (simp add: tagOf_def normalizeTagJ_def tagValue_def textJson_def orValue_def toLowerCase_def)

lemma childIds_elemJson [simp]: "childIds (elemJson i tag kids) = map JStr kids"
  by (simp add: childIds_def elemJson_def)

lemma childIds_textJson [simp]: "childIds (textJson i v) = []"
  by (simp add: childIds_def textJson_def)

lemma cycJ_index:
  "indexByIdJ (nodeList cycJson)
     = [JStr ''a'' \<mapsto> elemJson ''a'' ''table'' [''bb''], JStr ''bb'' \<mapsto> elemJson ''bb'' ''tbody'' [''ccc''],
        JStr ''ccc'' \<mapsto> elemJson ''ccc'' ''tr'' [''dddd''], JStr ''dddd'' \<mapsto> elemJson ''dddd'' ''td'' [''dddd'']]"
  by (simp add: cycJson_def indexByIdJ_def elemJson_def)

lemma okJ_index:
  "indexByIdJ (nodeList okJson)
     = [JStr ''a'' \<mapsto> elemJson ''a'' ''table'' [''bb''], JStr ''bb'' \<mapsto> elemJson ''bb'' ''tbody'' [''ccc''],
        JStr ''ccc'' \<mapsto> elemJson ''ccc'' ''tr'' [''dddd''], JStr ''dddd'' \<mapsto> elemJson ''dddd'' ''td'' [''eeeee''],
        JStr ''eeeee'' \<mapsto> textJson ''eeeee'' ''hi'']"
  by (simp add: okJson_def indexByIdJ_def elemJson_def textJson_def)

lemma cycJ_lookup [simp]:
  "indexByIdJ (nodeList cycJson) (JStr ''bb'') = Some (elemJson ''bb'' ''tbody'' [''ccc''])"
  "indexByIdJ (nodeList cycJson) (JStr ''ccc'') = Some (elemJson ''ccc'' ''tr'' [''dddd''])"
  "indexByIdJ (nodeList cycJson) (JStr ''dddd'') = Some (elemJson ''dddd'' ''td'' [''dddd''])"
  by (simp_all add: cycJ_index)

lemma okJ_lookup [simp]:
  "indexByIdJ (nodeList okJson) (JStr ''eeeee'') = Some (textJson ''eeeee'' ''hi'')"
  by (simp add: okJ_index)

lemma cycJ_getText:
  "getTextFromNodeJ k str (indexByIdJ (nodeList cycJson)) (Some (elemJson ''dddd'' ''td'' [''dddd'']))
     = Inl RangeError"
proof (induction k)
  case 0
  then show ?case by simp
next
  case (Suc k)
  have c: "iterate (orValue (optProp (Some (elemJson ''dddd'' ''td'' [''dddd''])) ''children'') (JArr []))
      = Inr [JStr ''dddd'']"
    using children_typed(2) [OF typed_elemJson, of "''dddd''" "''td''" "[''dddd'']"] by simp
  have t: "\<not> isTruthy (optProp (Some (elemJson ''dddd'' ''td'' [''dddd''])) ''text'')"
    by (simp add: elemJson_def isTruthy_def)
  have n: "isTruthy (Some (elemJson ''dddd'' ''td'' [''dddd'']))"
    by (simp add: elemJson_def isTruthy_def)
  have i: "indexByIdJ (nodeList cycJson) (JStr ''dddd'') = Some (elemJson ''dddd'' ''td'' [''dddd''])"
    by simp
  show ?case using Suc by (simp add: c t n i)
qed

text \<open>
  Claim C7, as stated: whenever the extractor does not return \<^verbatim>\<open>null\<close> it returns
  rows.  Only \<^verbatim>\<open>JSON.parse\<close> is inside the \<^verbatim>\<open>try\<close> block.  The string
  \<^verbatim>\<open>{"payload":{"nodes":[null]}}\<close> parses, and \<^verbatim>\<open>n._id\<close> raises a \<^verbatim>\<open>TypeError\<close> on
  its node; so does \<^verbatim>\<open>.map\<close> on the \<^verbatim>\<open>children\<close> 5 of a table.  And on an envelope
  of the declared type in which a cell lists itself as its child,
  \<^verbatim>\<open>getTextFromNode\<close> calls itself until the stack is full: a \<^verbatim>\<open>RangeError\<close>,
  however deep the stack is.
\<close>

theorem extract_throws_counterexample:
  "(\<forall>fuel str. extractRowsFromXscpJ fuel str (Parsed nullNodeJson) = Inl TypeError)
   \<and> (\<forall>fuel str. extractRowsFromXscpJ fuel str (Parsed numChildrenJson) = Inl TypeError)
   \<and> typedEnvelope cycJson
   \<and> (\<forall>fuel str. extractRowsFromXscpJ fuel str (Parsed cycJson) = Inl RangeError)"
proof -
  have 1: "extractRowsFromXscpJ fuel str (Parsed nullNodeJson) = Inl TypeError" for fuel str
    by (simp add: extractRowsFromXscpJ_def nullNodeJson_def orValue_def)
  have 2: "extractRowsFromXscpJ fuel str (Parsed numChildrenJson) = Inl TypeError" for fuel str
    by (simp add: extractRowsFromXscpJ_def numChildrenJson_def orValue_def normalizeTagJ_def
        tagValue_def toLower_simps childNodes_def)
  have 3: "typedEnvelope cycJson" by (simp add: cycJson_def)
  have 4: "extractRowsFromXscpJ fuel str (Parsed cycJson) = Inl RangeError" for fuel str
  proof -
    have l: "nodeList cycJson = [elemJson ''a'' ''table'' [''bb''], elemJson ''bb'' ''tbody'' [''ccc''],
      elemJson ''ccc'' ''tr'' [''dddd''], elemJson ''dddd'' ''td'' [''dddd'']]"
      by (simp add: cycJson_def)
    have r: "readRowJ fuel str (indexByIdJ (nodeList cycJson)) (elemJson ''ccc'' ''tr'' [''dddd''])
        = Inl RangeError"
      by (simp add: readRowJ_def childNodes_typed isTagged_typed
          List.map_filter_simps toLower_simps cycJ_getText)
    have s: "readSectionRowsJ fuel str (indexByIdJ (nodeList cycJson))
          (Some (elemJson ''bb'' ''tbody'' [''ccc''])) = Inl RangeError"
      using r
      by (simp add: readSectionRowsJ_def childNodes_typed isTagged_typed
          List.map_filter_simps toLower_simps)
    have f: "find (\<lambda>n. tagOf n = ''table'') (nodeList cycJson) = Some (elemJson ''a'' ''table'' [''bb''])"
      by (simp add: l toLower_simps)
    have c: "List.map_filter (indexByIdJ (nodeList cycJson)) (childIds (elemJson ''a'' ''table'' [''bb'']))
        = [elemJson ''bb'' ''tbody'' [''ccc'']]"
      by (simp add: List.map_filter_simps)
    have h: "readSectionRowsJ fuel str (indexByIdJ (nodeList cycJson)) None = Inr []"
      by (simp add: readSectionRowsJ_def)
    have n: "nodeList cycJson \<noteq> []" by (simp add: l)
    show ?thesis
      unfolding extractJ_typed [OF 3]
      by (simp add: f c h n s Let_def toLower_simps)
  qed
  from 1 2 3 4 show ?thesis by blast
qed

text \<open>
  Claim C7, amended.  The extractor returns \<^verbatim>\<open>null\<close> when the argument is missing
  or is a string that \<^verbatim>\<open>JSON.parse\<close> rejects.  On a parsed value of the declared
  type it returns \<^verbatim>\<open>null\<close> exactly when there are no nodes or no node is tagged
  \<^verbatim>\<open>table\<close>; in every other case it returns rows and the header flag, provided no
  chain of \<^verbatim>\<open>children\<close> references that starts at a \<^verbatim>\<open>td\<close> or \<^verbatim>\<open>th\<close> node comes back
  to a node of the chain (the nodes on these chains have ranks below \<open>d\<close> that go
  down along every reference), and the call stack holds \<open>d + 2\<close> nested calls.
  On a parsed value whose \<^verbatim>\<open>nodes\<close> is an array that holds \<^verbatim>\<open>null\<close> it raises a
  \<^verbatim>\<open>TypeError\<close>.
\<close>

theorem extract_null_or_rows:
  "extractRowsFromXscpJ fuel str Missing = Inr None
   \<and> extractRowsFromXscpJ fuel str Rejected = Inr None
   \<and> (typedEnvelope v \<longrightarrow>
        (extractRowsFromXscpJ fuel str (Parsed v) = Inr None
           \<longleftrightarrow> nodeList v = [] \<or> (\<forall>n \<in> set (nodeList v). normalizeTagJ (Some n) \<noteq> Inr ''table'')))
   \<and> (typedEnvelope v \<and> belowCells (nodeList v) S rank d \<and> nodeList v \<noteq> []
        \<and> (\<exists>n \<in> set (nodeList v). normalizeTagJ (Some n) = Inr ''table'')
      \<longrightarrow> (\<exists>r. \<forall>k \<ge> d + 2. extractRowsFromXscpJ k str (Parsed v) = Inr (Some r)))
   \<and> (nodesArg v = JArr xs \<and> JNull \<in> set xs
      \<longrightarrow> extractRowsFromXscpJ fuel str (Parsed v) = Inl TypeError)"
proof -
  have 1: "extractRowsFromXscpJ fuel str Missing = Inr None"
    "extractRowsFromXscpJ fuel str Rejected = Inr None"
    by (simp_all add: extractRowsFromXscpJ_def)
  have 5: "nodesArg v = JArr xs \<and> JNull \<in> set xs
      \<longrightarrow> extractRowsFromXscpJ fuel str (Parsed v) = Inl TypeError"
    by (auto simp: extractRowsFromXscpJ_def nodesArg_def Let_def)
  show ?thesis
    using 1 5 extractJ_null_iff [of v fuel str] extractJ_total [of v S rank d str]
    by blast
qed

text \<open>
  The amended claim C7 on a string that does not parse and on a table with one
  cell that holds \<^verbatim>\<open>hi\<close>: the cell ranks 1 and its text node 0.
\<close>

theorem extract_null_or_rows_witness:
  "typedEnvelope okJson
   \<and> belowCells (nodeList okJson) {elemJson ''dddd'' ''td'' [''eeeee''], textJson ''eeeee'' ''hi''}
        (\<lambda>n. length (childIds n)) 2
   \<and> extractRowsFromXscpJ 4 (\<lambda>n. []) (Parsed okJson)
        = Inr (Some \<lparr>rowsOut = [[''hi'']], hasHeader = False\<rparr>)
   \<and> extractRowsFromXscpJ 0 (\<lambda>n. []) (Rejected :: int json_text) = Inr None
   \<and> nodesArg nullNodeJson = JArr [JNull]
   \<and> extractRowsFromXscpJ 0 (\<lambda>n. []) (Parsed nullNodeJson) = Inl TypeError"
proof -
  have l: "nodeList okJson = [elemJson ''a'' ''table'' [''bb''], elemJson ''bb'' ''tbody'' [''ccc''],
      elemJson ''ccc'' ''tr'' [''dddd''], elemJson ''dddd'' ''td'' [''eeeee''], textJson ''eeeee'' ''hi'']"
    by (simp add: okJson_def)
  have t: "typedEnvelope okJson" by (simp add: okJson_def)
  have b: "belowCells (nodeList okJson) {elemJson ''dddd'' ''td'' [''eeeee''], textJson ''eeeee'' ''hi''}
        (\<lambda>n. length (childIds n)) 2"
    unfolding belowCells_def
    by (simp add: l [symmetric] isTagged_typed toLower_simps) (simp add: l isTagged_typed toLower_simps)
  have n: "nodeList okJson \<noteq> []" by (simp add: l)
  have tb: "\<exists>n \<in> set (nodeList okJson). normalizeTagJ (Some n) = Inr ''table''"
    unfolding l by (simp add: normalizeTagJ_typed toLower_simps)
  have nn: "nodesArg nullNodeJson = JArr [JNull]"
    by (simp add: nodesArg_def nullNodeJson_def orValue_def)
  note w1 = extract_null_or_rows [of 0 "\<lambda>n. []" okJson
      "{elemJson ''dddd'' ''td'' [''eeeee''], textJson ''eeeee'' ''hi''}" "\<lambda>n. length (childIds n)" 2 "[]"]
  note w2 = extract_null_or_rows [of 0 "\<lambda>n. []" nullNodeJson "{}" "\<lambda>n. 0" 0 "[JNull]"]
  from w1 t b n tb obtain r where
    r: "\<forall>k \<ge> 2 + 2. extractRowsFromXscpJ k (\<lambda>n. []) (Parsed okJson) = Inr (Some r)" by blast
  then have r4: "extractRowsFromXscpJ 4 (\<lambda>n. []) (Parsed okJson) = Inr (Some r)" by simp
  have c: "extractRowsFromXscpJ 4 (\<lambda>n. []) (Parsed okJson)
      = Inr (Some \<lparr>rowsOut = [[''hi'']], hasHeader = False\<rparr>)"
    by code_simp
  from w1 have u: "extractRowsFromXscpJ 0 (\<lambda>n. []) (Rejected :: int json_text) = Inr None" by blast
  from w2 nn have e: "extractRowsFromXscpJ 0 (\<lambda>n. []) (Parsed nullNodeJson) = Inl TypeError" by simp
  from t b c u nn e show ?thesis by blast
qed

section \<open>The two extractors agree on nodes of the declared type\<close>

lemma nodeJson_props:
  "getProp (nodeJson n) ''_id'' = Some (JStr (nid n))"
  "getProp (nodeJson n) ''text'' = (if ntext n then Some (JBool True) else None)"
  "getProp (nodeJson n) ''v'' = map_option JStr (nv n)"
  "getProp (nodeJson n) ''tag'' = map_option JStr (ntag n)"
  "getProp (nodeJson n) ''children'' = Some (JArr (map JStr (children n)))"
  "getProp (nodeJson n) ''data'' = map_option (\<lambda>t. JObj [(''tag'', JStr t)]) (dtag n)"
  by (simp_all add: nodeJson_def split: option.splits)

lemma optProp_nodeJson: "optProp (Some (nodeJson n)) p = getProp (nodeJson n) p"
  by (simp add: nodeJson_def)

lemma typed_nodeJson [simp]: "typedNode (nodeJson n :: ('n::zero) json)"
  by (cases "nv n"; cases "ntag n"; cases "dtag n"; cases "ntext n")
    (simp_all add: nodeJson_def list_all_iff)

lemma tagOf_nodeJson [simp]: "tagOf (nodeJson n :: ('n::zero) json) = normalizeTag n"
  by (auto simp: tagOf_def normalizeTagJ_def tagValue_def optProp_nodeJson nodeJson_props
      orValue_def normalizeTag_def rawTag_def toLowerCase_def split: option.splits)

lemma childIds_nodeJson [simp]: "childIds (nodeJson n) = map JStr (children n)"
  by (simp add: childIds_def nodeJson_props)

lemma nodeJson_inj: "(nodeJson n :: 'n json) = nodeJson m \<Longrightarrow> nid n = nid m"
  by (simp add: nodeJson_def)

lemma indexByIdJ_fold_nodeJson:
  assumes "\<forall>i. mJ (JStr i) = map_option nodeJson (m i)"
  shows "fold (\<lambda>n m. case getProp n ''_id'' of None \<Rightarrow> m
                | Some k \<Rightarrow> if isPrimitive k then m(k \<mapsto> n) else m) (map nodeJson ns) mJ (JStr i)
         = map_option nodeJson (fold (\<lambda>n m. m(nid n \<mapsto> n)) ns m i)"
  using assms
proof (induction ns arbitrary: mJ m)
  case Nil
  then show ?case by simp
next
  case (Cons a ns)
  let ?f = "\<lambda>n m. case getProp n ''_id'' of None \<Rightarrow> m
                | Some k \<Rightarrow> if isPrimitive k then m(k \<mapsto> n) else m"
  have s: "?f (nodeJson a) mJ = mJ(JStr (nid a) \<mapsto> nodeJson a)"
    by (simp add: nodeJson_props)
  have r: "\<forall>i. (mJ(JStr (nid a) \<mapsto> nodeJson a)) (JStr i) = map_option nodeJson ((m(nid a \<mapsto> a)) i)"
    using Cons.prems by simp
  have "fold ?f (map nodeJson (a # ns)) mJ (JStr i)
      = fold ?f (map nodeJson ns) (mJ(JStr (nid a) \<mapsto> nodeJson a)) (JStr i)"
    by (simp only: list.map fold_simps comp_apply s)
  also have "\<dots> = map_option nodeJson (fold (\<lambda>n m. m(nid n \<mapsto> n)) ns (m(nid a \<mapsto> a)) i)"
    by (rule Cons.IH [OF r])
  also have "\<dots> = map_option nodeJson (fold (\<lambda>n m. m(nid n \<mapsto> n)) (a # ns) m i)"
    by (simp only: fold_simps comp_apply)
  finally show ?case .
qed

lemma indexByIdJ_nodeJson:
  "indexByIdJ (map nodeJson ns) (JStr i) = map_option nodeJson (indexById ns i)"
  unfolding indexByIdJ_def indexById_def
  by (rule indexByIdJ_fold_nodeJson) simp

lemma found_nodeJson:
  "List.map_filter (indexByIdJ (map nodeJson ns)) (map JStr ids)
     = map nodeJson (lookupAll (indexById ns) ids)"
  by (induction ids) (simp_all add: List.map_filter_simps indexByIdJ_nodeJson split: option.splits)

lemma find_nodeJson:
  "find (\<lambda>m. tagOf m = t) (map nodeJson xs :: ('n::zero) json list)
     = map_option nodeJson (find (\<lambda>n. normalizeTag n = t) xs)"
  by (induction xs) simp_all

lemma filter_nodeJson:
  "filter (\<lambda>m. tagOf m \<in> set tags) (map nodeJson xs :: ('n::zero) json list)
     = map nodeJson (filter (\<lambda>n. normalizeTag n \<in> set tags) xs)"
  by (induction xs) simp_all

lemma mapE_map: "mapE f (map g xs) = mapE (\<lambda>x. f (g x)) xs"
  by (induction xs) (simp_all split: sum.splits)

lemma getTextJ_nodeJson:
  "getTextFromNodeJ k str (indexByIdJ (map nodeJson ns)) (map_option nodeJson no)
     = getTextFromNode k (indexById ns) no"
proof (induction k arbitrary: no)
  case 0
  then show ?case by simp
next
  case (Suc k)
  have ch: "firstTextJ k str (indexByIdJ (map nodeJson ns)) (map JStr cs)
      = firstText k (indexById ns) cs" for cs
  proof (induction cs)
    case Nil
    then show ?case by simp
  next
    case (Cons c cs)
    have "getTextFromNodeJ k str (indexByIdJ (map nodeJson ns)) (indexByIdJ (map nodeJson ns) (JStr c))
        = getTextFromNode k (indexById ns) (indexById ns c)"
      unfolding indexByIdJ_nodeJson by (rule Suc.IH)
    then show ?case using Cons by (simp split: sum.splits)
  qed
  show ?case
  proof (cases no)
    case None
    then show ?thesis by (simp add: isTruthy_def)
  next
    case (Some n)
    have tr: "isTruthy (Some (nodeJson n :: 'a json))"
      by (simp add: isTruthy_def nodeJson_def)
    have tx: "isTruthy (optProp (Some (nodeJson n :: 'a json)) ''text'') = ntext n"
      by (simp add: optProp_nodeJson nodeJson_props isTruthy_def)
    have v: "(case optProp (Some (nodeJson n :: 'a json)) ''v'' of None \<Rightarrow> Inr []
            | Some v \<Rightarrow> (case v of JNull \<Rightarrow> Inr [] | _ \<Rightarrow> jsString k str v))
        = Inr (case nv n of Some v \<Rightarrow> v | None \<Rightarrow> [])"
      by (simp add: optProp_nodeJson nodeJson_props split: option.splits)
    have c: "iterate (orValue (optProp (Some (nodeJson n :: 'a json)) ''children'') (JArr []))
        = Inr (map JStr (children n))"
      by (simp add: children_typed(2))
    show ?thesis using Some by (simp add: tr tx v c ch)
  qed
qed

lemma readRowJ_nodeJson:
  "readRowJ k str (indexByIdJ (map nodeJson ns)) (nodeJson tr) = readRow k (indexById ns) tr"
proof -
  have "readRowJ k str (indexByIdJ (map nodeJson ns)) (nodeJson tr)
      = mapE (\<lambda>cell. getTextFromNodeJ k str (indexByIdJ (map nodeJson ns)) (Some cell))
          (map nodeJson (filter (\<lambda>n. normalizeTag n \<in> set [''td'', ''th''])
             (lookupAll (indexById ns) (children tr))))"
    by (simp add: readRowJ_def childNodes_typed found_nodeJson filterE_typed list_all_iff
        filter_nodeJson del: set_simps)
  also have "\<dots> = mapE (\<lambda>cell. getTextFromNode k (indexById ns) (Some cell))
          (filter (\<lambda>n. normalizeTag n \<in> set [''td'', ''th'']) (lookupAll (indexById ns) (children tr)))"
    unfolding mapE_map using getTextJ_nodeJson [of k str ns "Some c" for c] by simp
  finally show ?thesis by (simp add: readRow_def)
qed

lemma readSectionRowsJ_nodeJson:
  "readSectionRowsJ k str (indexByIdJ (map nodeJson ns)) (map_option nodeJson sec)
     = readSectionRows k (indexById ns) sec"
proof (cases sec)
  case None
  then show ?thesis by (simp add: readSectionRowsJ_def)
next
  case (Some a)
  have "readSectionRowsJ k str (indexByIdJ (map nodeJson ns)) (Some (nodeJson a))
      = mapE (readRowJ k str (indexByIdJ (map nodeJson ns)))
          (map nodeJson (filter (\<lambda>n. normalizeTag n \<in> set [''tr''])
             (lookupAll (indexById ns) (children a))))"
    by (simp add: readSectionRowsJ_def childNodes_typed found_nodeJson filterE_typed list_all_iff
        filter_nodeJson del: set_simps)
  also have "\<dots> = mapE (readRow k (indexById ns))
          (filter (\<lambda>n. normalizeTag n = ''tr'') (lookupAll (indexById ns) (children a)))"
    unfolding mapE_map by (simp add: readRowJ_nodeJson)
  finally show ?thesis using Some by (simp add: readSectionRows_def)
qed

lemma nodeList_nodesJson [simp]: "nodeList (nodesJson ns) = map nodeJson ns"
  by (simp add: nodeList_def nodesArg_def nodesJson_def orValue_def)

lemma typedEnvelope_nodesJson [simp]: "typedEnvelope (nodesJson ns :: ('n::zero) json)"
  by (simp add: nodesJson_def list_all_iff)

lemma extract_refines:
  "extractRowsFromXscpJ k str (Parsed (nodesJson ns)) = extractRowsFromXscp k (Envelope (Some ns))"
proof (cases "ns = []")
  case True
  then show ?thesis by (simp add: extractJ_typed extractRowsFromXscp_def)
next
  case False
  show ?thesis
  proof (cases "find (\<lambda>n. normalizeTag n = ''table'') ns")
    case None
    then show ?thesis using False
      by (simp add: extractJ_typed extractRowsFromXscp_def find_nodeJson)
  next
    case (Some t)
    show ?thesis using False Some
      by (simp add: extractJ_typed extractRowsFromXscp_def find_nodeJson found_nodeJson Let_def
          readSectionRowsJ_nodeJson cong: sum.case_cong)
  qed
qed

section \<open>Properties of the tree view\<close>

lemma includesStr_iff: "includesStr s q \<longleftrightarrow> (\<exists>a b. s = a @ q @ b)"
proof (induction s)
  case Nil
  then show ?case by auto
next
  case (Cons c cs)
  have p: "take (length q) (c # cs) = q \<longleftrightarrow> (\<exists>b. c # cs = q @ b)"
    by (metis append_eq_conv_conj append_take_drop_id)
  show ?case
  proof
    assume "includesStr (c # cs) q"
    then consider "take (length q) (c # cs) = q" | "includesStr cs q" by auto
    then show "\<exists>a b. c # cs = a @ q @ b"
    proof cases
      case 1
      then obtain b where "c # cs = q @ b" using p by blast
      then have "c # cs = [] @ q @ b" by simp
      then show ?thesis by blast
    next
      case 2
      then obtain a b where "cs = a @ q @ b" using Cons.IH by blast
      then have "c # cs = (c # a) @ q @ b" by simp
      then show ?thesis by blast
    qed
  next
    assume "\<exists>a b. c # cs = a @ q @ b"
    then obtain a b where ab: "c # cs = a @ q @ b" by blast
    show "includesStr (c # cs) q"
    proof (cases a)
      case Nil
      then have "take (length q) (c # cs) = q" using ab p by auto
      then show ?thesis by simp
    next
      case (Cons x xs)
      then have "cs = xs @ q @ b" using ab by simp
      then show ?thesis using Cons.IH by auto
    qed
  qed
qed

lemma set_setAdd [simp]: "set (setAdd xs x) = insert x (set xs)"
  by (auto simp: setAdd_def)

lemma set_fold_matches:
  "set (fold (\<lambda>n acc. if P n then setAdd acc (nid n) else acc) ns acc0)
     = set acc0 \<union> nid ` {n \<in> set ns. P n}"
  by (induction ns arbitrary: acc0) auto

lemma set_matchSet:
  "set (matchSet ns ss query)
     = (if normalizeQuery query = [] then {}
        else nid ` {n \<in> set ns. nodeMatches (classNameById ss) (normalizeQuery query) n})"
  by (simp add: matchSet_def Let_def set_fold_matches)

lemma nodeMatches_iff:
  assumes "q \<noteq> []"
  shows "nodeMatches cn q m \<longleftrightarrow>
     (\<exists>a b. toLowerCase (rawTag m) = a @ q @ b)
     \<or> (\<exists>i \<in> set (classes m). \<exists>name a b. cn i = Some name \<and> toLowerCase name = a @ q @ b)"
proof -
  have c: "includesStr (case cn i of Some name \<Rightarrow> toLowerCase name | None \<Rightarrow> []) q
      \<longleftrightarrow> (\<exists>name a b. cn i = Some name \<and> toLowerCase name = a @ q @ b)" for i
    using assms by (cases "cn i") (simp_all add: includesStr_iff)
  show ?thesis
    by (simp add: nodeMatches_def Let_def list_ex_iff c) (simp add: includesStr_iff)
qed

text \<open>
  Claim C8, as stated: a node matches iff the query is not empty and the tag or
  a class name of the node contains the query, ignoring case.  With the query
  \<^verbatim>\<open>"td "\<close> (a blank after the letters) the \<^verbatim>\<open>td\<close> node is in the match set,
  although neither its tag nor a class name contains that query: the view
  trims the query first.
\<close>

theorem match_trim_counterexample:
  "set (matchSet [domNode ''c'' ''td'' [] [] []] [] ''td '') = {''c''}
   \<and> \<not> specMatches (classNameById []) ''td '' (domNode ''c'' ''td'' [] [] [])"
proof -
  have q: "normalizeQuery ''td '' = ''td''"
    by (simp add: normalizeQuery_def trim_def isWhite_def toLowerCase_def lowerChar_def)
  have t: "rawTag (domNode ''c'' ''td'' [] [] []) = ''td''" by simp
  have m: "nodeMatches (classNameById []) ''td'' (domNode ''c'' ''td'' [] [] [])"
    by (simp add: nodeMatches_def Let_def t toLower_simps)
  have l: "toLowerCase ''td '' = ''td ''" by (simp add: toLowerCase_def lowerChar_def)
  have "\<not> (\<exists>a b. ''td'' = a @ ''td '' @ b)"
  proof
    assume "\<exists>a b. ''td'' = a @ ''td '' @ b"
    then obtain a b where "''td'' = a @ ''td '' @ b" by blast
    then have "length ''td'' = length (a @ ''td '' @ b)" by simp
    then show False by simp
  qed
  then have "\<not> specMatches (classNameById []) ''td '' (domNode ''c'' ''td'' [] [] [])"
    by (simp add: specMatches_def t toLower_simps l)
  then show ?thesis using m by (auto simp: set_matchSet q)
qed

text \<open>
  Claim C8, amended: for every node, mode \<^verbatim>\<open>all\<close> opens it, mode \<^verbatim>\<open>collapse\<close>
  closes it, and mode \<^verbatim>\<open>auto\<close> opens it iff its id is in the match set or in the
  ancestor set or its depth is 0.  The match set holds the ids of the nodes
  whose lower-cased tag, or one of whose lower-cased resolved class names,
  contains the query after the query has been trimmed of surrounding white
  space and lower-cased, when that trimmed query is not empty; it is empty
  otherwise.
\<close>

theorem tree_open_decision:
  "nodeOpen ns ss query All n depth
   \<and> \<not> nodeOpen ns ss query Collapse n depth
   \<and> (nodeOpen ns ss query Auto n depth \<longleftrightarrow>
        nid n \<in> set (matchSet ns ss query)
        \<or> nid n \<in> set (ancestorSet ns (matchSet ns ss query)) \<or> depth = 0)
   \<and> set (matchSet ns ss query)
       = {nid m | m. m \<in> set ns \<and> normalizeQuery query \<noteq> [] \<and>
            ((\<exists>a b. toLowerCase (rawTag m) = a @ normalizeQuery query @ b)
             \<or> (\<exists>i \<in> set (classes m). \<exists>name a b.
                   classNameById ss i = Some name \<and> toLowerCase name = a @ normalizeQuery query @ b))}
   \<and> normalizeQuery query = toLowerCase (trim query)"
proof -
  have m: "set (matchSet ns ss query)
       = {nid m | m. m \<in> set ns \<and> normalizeQuery query \<noteq> [] \<and>
            ((\<exists>a b. toLowerCase (rawTag m) = a @ normalizeQuery query @ b)
             \<or> (\<exists>i \<in> set (classes m). \<exists>name a b.
                   classNameById ss i = Some name \<and> toLowerCase name = a @ normalizeQuery query @ b))}"
  proof (cases "normalizeQuery query = []")
    case True
    then show ?thesis by (simp add: set_matchSet)
  next
    case False
    show ?thesis
      unfolding set_matchSet using False nodeMatches_iff [OF False, of "classNameById ss"]
      by auto
  qed
  have o: "nodeOpen ns ss query All n depth" "\<not> nodeOpen ns ss query Collapse n depth"
    "nodeOpen ns ss query Auto n depth \<longleftrightarrow>
        nid n \<in> set (matchSet ns ss query)
        \<or> nid n \<in> set (ancestorSet ns (matchSet ns ss query)) \<or> depth = 0"
    by (auto simp: nodeOpen_def openState_def Let_def)
  from o m show ?thesis by (simp add: normalizeQuery_def)
qed


text \<open>The amended claim C8 on a single \<^verbatim>\<open>td\<close> node, searched with \<^verbatim>\<open>"TD "\<close>.\<close>

theorem tree_open_decision_witness:
  "nodeOpen [domNode ''c'' ''td'' [] [] []] [] ''TD '' Auto (domNode ''c'' ''td'' [] [] []) 1
   \<and> nodeOpen [domNode ''c'' ''td'' [] [] []] [] ''tr'' Auto (domNode ''c'' ''td'' [] [] []) 0
   \<and> \<not> nodeOpen [domNode ''c'' ''td'' [] [] []] [] ''TD '' Collapse (domNode ''c'' ''td'' [] [] []) 0
   \<and> set (matchSet [domNode ''c'' ''td'' [] [] []] [] ''TD '') = {''c''}"
proof -
  have q: "normalizeQuery ''TD '' = ''td''"
    by (simp add: normalizeQuery_def trim_def isWhite_def toLowerCase_def lowerChar_def
        char_of_def bit_0)
  have "nodeMatches (classNameById []) ''td'' (domNode ''c'' ''td'' [] [] [])"
    by (simp add: nodeMatches_def Let_def toLower_simps)
  then have m: "set (matchSet [domNode ''c'' ''td'' [] [] []] [] ''TD '') = {''c''}"
    by (auto simp: set_matchSet q)
  note a = tree_open_decision [of "[domNode ''c'' ''td'' [] [] []]" "[]" "''TD ''" "domNode ''c'' ''td'' [] [] []" 1,
      THEN conjunct2, THEN conjunct2, THEN conjunct1]
  note b = tree_open_decision [of "[domNode ''c'' ''td'' [] [] []]" "[]" "''tr''" "domNode ''c'' ''td'' [] [] []" 0,
      THEN conjunct2, THEN conjunct2, THEN conjunct1]
  note c = tree_open_decision [of "[domNode ''c'' ''td'' [] [] []]" "[]" "''TD ''" "domNode ''c'' ''td'' [] [] []" 0,
      THEN conjunct2, THEN conjunct1]
  have 1: "nodeOpen [domNode ''c'' ''td'' [] [] []] [] ''TD '' Auto (domNode ''c'' ''td'' [] [] []) 1"
    unfolding a m by simp
  have 2: "nodeOpen [domNode ''c'' ''td'' [] [] []] [] ''tr'' Auto (domNode ''c'' ''td'' [] [] []) 0"
    unfolding b by simp
  from 1 2 c m show ?thesis by (intro conjI)
qed

section \<open>Properties of the builder\<close>

subsection \<open>Frame facts of the primitives\<close>

lemma uid_simps [simp]:
  "fst (uid rnd p s) = p @ rnd (seed s)"
  "snd (uid rnd p s) = s\<lparr>seed := Suc (seed s)\<rparr>"
  by (simp_all add: uid_def)

lemma ensureStyle_frame:
  "ensureStyle rnd name s = (r, s') \<Longrightarrow> nodes s' = nodes s \<and> seed s \<le> seed s'"
  by (auto simp: ensureStyle_def uid_def split: if_splits option.splits prod.splits)

lemma ensureStyles_frame:
  "ensureStyles rnd names s = (rs, s') \<Longrightarrow> nodes s' = nodes s \<and> seed s \<le> seed s'"
proof (induction names arbitrary: s rs s')
  case Nil
  then show ?case by simp
next
  case (Cons n ns)
  obtain r s1 where a: "ensureStyle rnd n s = (r, s1)" by (cases "ensureStyle rnd n s")
  obtain rs2 s2 where b: "ensureStyles rnd ns s1 = (rs2, s2)" by (cases "ensureStyles rnd ns s1")
  from Cons.prems a b have "s' = s2" by simp
  with ensureStyle_frame [OF a] Cons.IH [OF b] show ?case by simp
qed

lemma classIds_frame:
  "classIds rnd l s = (cls, s') \<Longrightarrow> nodes s' = nodes s \<and> seed s \<le> seed s'"
  by (auto simp: classIds_def Let_def split: prod.splits dest: ensureStyles_frame)

lemma ensureStyle_blank: "trim name = [] \<Longrightarrow> ensureStyle rnd name s = (None, s)"
  by (simp add: ensureStyle_def)

lemma trim_Nil [simp]: "trim [] = []" by (simp add: trim_def)

lemma ensureStyle_twice:
  assumes "trim name \<noteq> []"
  shows "\<exists>i s1. ensureStyle rnd name s = (Some i, s1) \<and> ensureStyle rnd name s1 = (Some i, s1)
     \<and> (case styleIndex s name of
          Some j \<Rightarrow> i = j \<and> s1 = s
        | None \<Rightarrow> i = ''cls_'' @ rnd (seed s) \<and>
            (\<exists>st. styles s1 = styles s @ [st] \<and> sid st = i \<and> sname st = name))"
proof -
  have n: "name \<noteq> []" using assms by auto
  show ?thesis
  proof (cases "styleIndex s name")
    case None
    then show ?thesis using assms n
      by (auto simp: ensureStyle_def uid_def split: option.splits prod.splits)
  next
    case (Some j)
    then show ?thesis using assms n by (simp add: ensureStyle_def)
  qed
qed


subsection \<open>The primitives as equations on states\<close>

lemma makeDomNode_eq:
  "makeDomNode rnd tag cls attrs False s
     = (domNode (''n_'' @ rnd (seed s)) tag cls attrs [], s\<lparr>seed := Suc (seed s)\<rparr>)"
  by (simp add: makeDomNode_def uid_def domNode_def)

lemma makeTextNode_eq:
  "makeTextNode rnd v s = (txtNode (''t_'' @ rnd (seed s)) v, s\<lparr>seed := Suc (seed s)\<rparr>)"
  by (simp add: makeTextNode_def uid_def txtNode_def)

lemma pushChild_eq:
  "pushChild r c s = s\<lparr>nodes := (nodes s)[r := addChild (nodes s ! r) c]\<rparr>"
  by (simp add: pushChild_def addChild_def)

lemmas prim_defs = makeDomNode_eq makeTextNode_eq pushChild_eq push_def idOf_def

lemma idsFrom_Nil [simp]: "idsFrom rnd lo hi []"
  by (simp add: idsFrom_def)

lemma idsFrom_mono: "idsFrom rnd lo hi blk \<Longrightarrow> lo' \<le> lo \<Longrightarrow> hi \<le> hi' \<Longrightarrow> idsFrom rnd lo' hi' blk"
  unfolding idsFrom_def by (elim exE conjE, rule_tac x = pk in exI) fastforce

lemma idsFrom_append:
  assumes "idsFrom rnd lo mid a" "idsFrom rnd mid hi b" "lo \<le> mid" "mid \<le> hi"
  shows "idsFrom rnd lo hi (a @ b)"
proof -
  from assms(1) obtain pa where pa: "map nid a = map (\<lambda>(p, k). p @ rnd k) pa" "sorted_wrt (<) (map snd pa)"
    "\<forall>(p, k) \<in> set pa. length p = 2 \<and> lo \<le> k \<and> k < mid" unfolding idsFrom_def by blast
  from assms(2) obtain pb where pb: "map nid b = map (\<lambda>(p, k). p @ rnd k) pb" "sorted_wrt (<) (map snd pb)"
    "\<forall>(p, k) \<in> set pb. length p = 2 \<and> mid \<le> k \<and> k < hi" unfolding idsFrom_def by blast
  have "sorted_wrt (<) (map snd (pa @ pb))"
    using pa(2,3) pb(2,3) by (fastforce simp: sorted_wrt_append)
  moreover have "\<forall>(p, k) \<in> set (pa @ pb). length p = 2 \<and> lo \<le> k \<and> k < hi"
    using pa(3) pb(3) assms(3,4) by fastforce
  moreover have "map nid (a @ b) = map (\<lambda>(p, k). p @ rnd k) (pa @ pb)" using pa(1) pb(1) by simp
  ultimately show ?thesis unfolding idsFrom_def by blast
qed

lemma idsFrom_single:
  "length p = 2 \<Longrightarrow> nid n = p @ rnd k \<Longrightarrow> idsFrom rnd k (Suc k) [n]"
  unfolding idsFrom_def by (rule exI [of _ "[(p, k)]"]) simp

lemma idsFrom_cellNodes: "idsFrom rnd k (k + cellDraws cfg) (cellNodes rnd cfg ct cls txt k)"
proof -
  have 1: "idsFrom rnd k (k + 1) [domNode (''n_'' @ rnd k) ct cls [] kids]" for kids k ct cls
    using idsFrom_single [of "''n_''" _ rnd k] by simp
  have 2: "idsFrom rnd k (k + 1) [txtNode (''t_'' @ rnd k) v]" for v k
    using idsFrom_single [of "''t_''" _ rnd k] by simp
  show ?thesis
  proof (cases "csvData cfg")
    case None
    then show ?thesis using 1 by (simp add: cellNodes_def cellDraws_def)
  next
    case (Some d)
    show ?thesis
    proof (cases "useSpanFallback cfg")
      case True
      have "idsFrom rnd k (k + 3) ([domNode (''n_'' @ rnd k) ct cls [] [''n_'' @ rnd (k + 1)]]
          @ [domNode (''n_'' @ rnd (k + 1)) ''span'' [] [] [''t_'' @ rnd (k + 2)]]
          @ [txtNode (''t_'' @ rnd (k + 2)) txt])"
        by (intro idsFrom_append [where mid = "k + 1"] idsFrom_append [where mid = "k + 2" and lo = "k + 1"])
          (use 1 [of "k + 1"] 1 [of k] 2 [of "k + 2"] in \<open>simp_all add: numeral_3_eq_3 numeral_2_eq_2\<close>)
      then show ?thesis using Some True by (simp add: cellNodes_def cellDraws_def)
    next
      case False
      have "idsFrom rnd k (k + 2) ([domNode (''n_'' @ rnd k) ct cls [] [''t_'' @ rnd (k + 1)]]
          @ [txtNode (''t_'' @ rnd (k + 1)) txt])"
        by (intro idsFrom_append [where mid = "k + 1"])
          (use 1 [of k] 2 [of "k + 1"] in \<open>simp_all add: numeral_2_eq_2\<close>)
      then show ?thesis using Some False by (simp add: cellNodes_def cellDraws_def)
    qed
  qed
qed

lemma cellNodes_nonempty [simp]: "cellNodes rnd cfg ct cls txt k \<noteq> []"
  by (simp add: cellNodes_def split: option.splits)

lemma hd_cellNodes [simp]: "nid (hd (cellNodes rnd cfg ct cls txt k)) = ''n_'' @ rnd k"
  by (simp add: cellNodes_def split: option.splits)

lemma cellStep_eq:
  assumes c: "classIds rnd (classArg (cellClass cfg)) s = (cls, s1)" and t: "tr < length (nodes s)"
  shows "cellStep rnd cfg tr ct sr c s
     = s1\<lparr>nodes := (nodes s)[tr := addChild (nodes s ! tr) (''n_'' @ rnd (seed s1))]
                     @ cellNodes rnd cfg ct cls (textValue cfg sr c) (seed s1),
          seed := seed s1 + cellDraws cfg\<rparr>"
proof -
  have n: "nodes s1 = nodes s" using classIds_frame [OF c] by simp
  show ?thesis
    using t by (cases "csvData cfg")
      (simp_all add: cellStep_def c prim_defs n cellNodes_def cellDraws_def Let_def nth_append
        list_update_append)
qed

lemma cellStep_appends:
  assumes t: "tr < length (nodes s)"
  shows "appends rnd tr (cellBlock rnd cfg ct (textValue cfg sr c)) s (cellStep rnd cfg tr ct sr c s)"
proof -
  obtain cls s1 where c: "classIds rnd (classArg (cellClass cfg)) s = (cls, s1)"
    by (cases "classIds rnd (classArg (cellClass cfg)) s")
  have f: "nodes s1 = nodes s" "seed s \<le> seed s1" using classIds_frame [OF c] by simp_all
  have "idsFrom rnd (seed s) (seed s1 + cellDraws cfg) (cellNodes rnd cfg ct cls (textValue cfg sr c) (seed s1))"
    using idsFrom_cellNodes f(2) by (rule idsFrom_mono) simp_all
  then show ?thesis
    unfolding appends_def cellStep_eq [OF c t]
    by (intro exI [of _ "cellNodes rnd cfg ct cls (textValue cfg sr c) (seed s1)"])
      (use f in \<open>auto simp: cellBlock_def\<close>)
qed


lemma addChildren_simps [simp]:
  "addChildren n [] = n"
  "addChild (addChildren n cs) c = addChildren n (cs @ [c])"
  "addChildren (domNode i tag cls attrs kids) cs = domNode i tag cls attrs (kids @ cs)"
  by (simp_all add: addChildren_def addChild_def domNode_def)

lemma fold_appends:
  assumes step: "\<And>i s. p < length (nodes s) \<Longrightarrow> appends rnd p (Q i) s (f i s)"
  shows "p < length (nodes s) \<Longrightarrow>
    \<exists>bs. nodes (fold f [0 ..< n] s)
            = (nodes s)[p := addChildren (nodes s ! p) (map (\<lambda>b. nid (hd b)) bs)] @ concat bs
        \<and> list_all2 (\<lambda>b i. Q i b) bs [0 ..< n]
        \<and> idsFrom rnd (seed s) (seed (fold f [0 ..< n] s)) (concat bs)
        \<and> seed s \<le> seed (fold f [0 ..< n] s)"
proof (induction n)
  case 0
  show ?case by (rule exI [of _ "[]"]) simp
next
  case (Suc n)
  define sn where "sn = fold f [0 ..< n] s"
  from Suc obtain bs where bs:
    "nodes sn = (nodes s)[p := addChildren (nodes s ! p) (map (\<lambda>b. nid (hd b)) bs)] @ concat bs"
    "list_all2 (\<lambda>b i. Q i b) bs [0 ..< n]"
    "idsFrom rnd (seed s) (seed sn) (concat bs)" "seed s \<le> seed sn"
    unfolding sn_def by blast
  have p: "p < length (nodes sn)" using Suc.prems bs(1) by simp
  from step [OF p, of n] obtain blk where blk:
    "nodes (f n sn) = (nodes sn)[p := addChild (nodes sn ! p) (nid (hd blk))] @ blk"
    "Q n blk" "idsFrom rnd (seed sn) (seed (f n sn)) blk" "seed sn \<le> seed (f n sn)"
    unfolding appends_def by blast
  have e: "fold f [0 ..< Suc n] s = f n sn" by (simp add: sn_def)
  have "nodes (f n sn)
      = (nodes s)[p := addChildren (nodes s ! p) (map (\<lambda>b. nid (hd b)) (bs @ [blk]))] @ concat (bs @ [blk])"
    using Suc.prems by (simp add: blk(1) bs(1) nth_append list_update_append)
  moreover have "list_all2 (\<lambda>b i. Q i b) (bs @ [blk]) [0 ..< Suc n]"
    using bs(2) blk(2) by (simp add: list_all2_appendI)
  moreover have "idsFrom rnd (seed s) (seed (f n sn)) (concat (bs @ [blk]))"
    using idsFrom_append [OF bs(3) blk(3) bs(4) blk(4)] by simp
  moreover have "seed s \<le> seed (f n sn)" using bs(4) blk(4) by simp
  ultimately show ?case unfolding e by blast
qed

lemma makeRow_creates:
  "fst (makeRow rnd cfg tag r s) = length (nodes s)
   \<and> creates rnd (rowBlock rnd cfg (cellTagOf cfg tag) (sourceRowOf cfg tag r)) s
        (snd (makeRow rnd cfg tag r s))"
proof -
  obtain cls s1 where c: "classIds rnd (classArg (rowClass cfg)) s = (cls, s1)"
    by (cases "classIds rnd (classArg (rowClass cfg)) s")
  have f: "nodes s1 = nodes s" "seed s \<le> seed s1" using classIds_frame [OF c] by simp_all
  define trn where "trn = domNode (''n_'' @ rnd (seed s1)) ''tr'' cls [] []"
  define s3 where "s3 = s1\<lparr>seed := Suc (seed s1), nodes := nodes s @ [trn]\<rparr>"
  define ct where "ct = cellTagOf cfg tag"
  define sr where "sr = sourceRowOf cfg tag r"
  define fin where "fin = fold (cellStep rnd cfg (length (nodes s)) ct sr) [0 ..< cellCountOf cfg] s3"
  have m: "makeRow rnd cfg tag r s = (length (nodes s), fin)"
    by (simp add: makeRow_def c prim_defs f Let_def fin_def s3_def trn_def ct_def sr_def
        cellTagOf_def sourceRowOf_def cellCountOf_def)
  have p: "length (nodes s) < length (nodes s3)" by (simp add: s3_def)
  from fold_appends [of "length (nodes s)" rnd "\<lambda>c. cellBlock rnd cfg ct (textValue cfg sr c)"
      "cellStep rnd cfg (length (nodes s)) ct sr" s3 "cellCountOf cfg", OF cellStep_appends p]
  obtain bs where bs:
    "nodes fin = (nodes s3)[length (nodes s) := addChildren (nodes s3 ! length (nodes s)) (map (\<lambda>b. nid (hd b)) bs)] @ concat bs"
    "list_all2 (\<lambda>b c. cellBlock rnd cfg ct (textValue cfg sr c) b) bs [0 ..< cellCountOf cfg]"
    "idsFrom rnd (seed s3) (seed fin) (concat bs)" "seed s3 \<le> seed fin"
    unfolding fin_def by blast
  define blk where "blk = domNode (''n_'' @ rnd (seed s1)) ''tr'' cls [] (map (\<lambda>b. nid (hd b)) bs) # concat bs"
  have n: "nodes fin = nodes s @ blk"
    by (simp add: bs(1) s3_def trn_def blk_def)
  have r: "rowBlock rnd cfg ct sr blk"
    unfolding rowBlock_def blk_def using bs(2) by blast
  have "idsFrom rnd (seed s1) (Suc (seed s1)) [domNode (''n_'' @ rnd (seed s1)) ''tr'' cls [] (map (\<lambda>b. nid (hd b)) bs)]"
    using idsFrom_single [of "''n_''" _ rnd "seed s1"] by simp
  from idsFrom_append [OF this, of "seed fin" "concat bs"] bs(3,4)
  have "idsFrom rnd (seed s1) (seed fin) blk" by (simp add: s3_def blk_def)
  then have i: "idsFrom rnd (seed s) (seed fin) blk" using f(2) by (rule idsFrom_mono) simp
  have "seed s \<le> seed fin" using f(2) bs(4) by (simp add: s3_def)
  with n r i show ?thesis
    unfolding m creates_def ct_def sr_def by (auto simp: blk_def)
qed


lemma nth_append_hd: "blk \<noteq> [] \<Longrightarrow> (xs @ blk) ! length xs = hd blk"
  by (cases blk) simp_all

lemma bodyStep_appends:
  assumes t: "tbody < length (nodes s)"
  shows "appends rnd tbody (rowBlock rnd cfg (cellTagOf cfg ''tbody'') (sourceRowOf cfg ''tbody'' r)) s
           (bodyStep rnd cfg tbody r s)"
proof -
  obtain tr s1 where m: "makeRow rnd cfg ''tbody'' r s = (tr, s1)" by (cases "makeRow rnd cfg ''tbody'' r s")
  from makeRow_creates [of rnd cfg "''tbody''" r s] m obtain blk where b:
    "tr = length (nodes s)" "blk \<noteq> []" "nodes s1 = nodes s @ blk"
    "rowBlock rnd cfg (cellTagOf cfg ''tbody'') (sourceRowOf cfg ''tbody'' r) blk"
    "idsFrom rnd (seed s) (seed s1) blk" "seed s \<le> seed s1"
    unfolding creates_def by auto
  have "bodyStep rnd cfg tbody r s
      = s1\<lparr>nodes := (nodes s)[tbody := addChild (nodes s ! tbody) (nid (hd blk))] @ blk\<rparr>"
    using t b(2) by (simp add: bodyStep_def m prim_defs b(1,3) nth_append_hd nth_append list_update_append hd_conv_nth)
  then show ?thesis unfolding appends_def using b by auto
qed

lemma section_head:
  assumes c: "classIds rnd (classArg cls0) s = (cls, s1)"
  shows "nodes s1 = nodes s" "seed s \<le> seed s1"
    "idsFrom rnd (seed s) (Suc (seed s1)) [domNode (''n_'' @ rnd (seed s1)) tag cls attrs kids]"
proof -
  show f: "nodes s1 = nodes s" "seed s \<le> seed s1" using classIds_frame [OF c] by simp_all
  have "idsFrom rnd (seed s1) (Suc (seed s1)) [domNode (''n_'' @ rnd (seed s1)) tag cls attrs kids]"
    using idsFrom_single [of "''n_''" _ rnd "seed s1"] by simp
  then show "idsFrom rnd (seed s) (Suc (seed s1)) [domNode (''n_'' @ rnd (seed s1)) tag cls attrs kids]"
    using f(2) by (rule idsFrom_mono) simp
qed

lemma buildOneRowSection_creates:
  "fst (buildOneRowSection rnd cfg tag cls0 s) = length (nodes s)
   \<and> creates rnd (sectionBlock rnd cfg tag [0]) s (snd (buildOneRowSection rnd cfg tag cls0 s))"
proof -
  obtain cls s1 where c: "classIds rnd (classArg cls0) s = (cls, s1)"
    by (cases "classIds rnd (classArg cls0) s")
  note f = section_head [OF c]
  define secn where "secn = domNode (''n_'' @ rnd (seed s1)) tag cls [] []"
  define s3 where "s3 = s1\<lparr>seed := Suc (seed s1), nodes := nodes s @ [secn]\<rparr>"
  obtain tr s4 where m: "makeRow rnd cfg tag 0 s3 = (tr, s4)" by (cases "makeRow rnd cfg tag 0 s3")
  from makeRow_creates [of rnd cfg tag 0 s3] m obtain blk where b:
    "tr = length (nodes s3)" "blk \<noteq> []" "nodes s4 = nodes s3 @ blk"
    "rowBlock rnd cfg (cellTagOf cfg tag) (sourceRowOf cfg tag 0) blk"
    "idsFrom rnd (seed s3) (seed s4) blk" "seed s3 \<le> seed s4"
    unfolding creates_def by auto
  define sec where "sec = domNode (''n_'' @ rnd (seed s1)) tag cls [] (map (\<lambda>b. nid (hd b)) [blk]) # concat [blk]"
  have e0: "buildOneRowSection rnd cfg tag cls0 s
      = (case makeRow rnd cfg tag 0 s3 of
           (tr, s4) \<Rightarrow> (length (nodes s), pushChild (length (nodes s)) (idOf tr s4) s4))"
    by (simp add: buildOneRowSection_def c makeDomNode_eq push_def f(1) s3_def secn_def)
  have e: "buildOneRowSection rnd cfg tag cls0 s = (length (nodes s), s4\<lparr>nodes := nodes s @ sec\<rparr>)"
    unfolding e0 m using b(2)
    by (simp add: pushChild_eq idOf_def b(1,3) s3_def secn_def sec_def nth_append hd_conv_nth)
  have "list_all2 (\<lambda>b r. rowBlock rnd cfg (cellTagOf cfg tag) (sourceRowOf cfg tag r) b) [blk] [0]"
    using b(4) by simp
  then have "sectionBlock rnd cfg tag [0] sec"
    unfolding sectionBlock_def sec_def by blast
  moreover have "idsFrom rnd (seed s) (seed s4) sec"
    using idsFrom_append [OF f(3) [of tag "[]" "[nid (hd blk)]"] b(5) [unfolded s3_def, simplified]] f(2) b(6)
    by (simp add: sec_def s3_def)
  moreover have "seed s \<le> seed s4" using f(2) b(6) by (simp add: s3_def)
  ultimately show ?thesis unfolding e creates_def by (auto simp: sec_def)
qed

lemma buildBody_creates:
  "fst (buildBody rnd cfg s) = length (nodes s)
   \<and> creates rnd (sectionBlock rnd cfg ''tbody'' [0 ..< bodyRowCountOf cfg]) s (snd (buildBody rnd cfg s))"
proof -
  obtain cls s1 where c: "classIds rnd (classArg (tbodyClass cfg)) s = (cls, s1)"
    by (cases "classIds rnd (classArg (tbodyClass cfg)) s")
  note f = section_head [OF c]
  define secn where "secn = domNode (''n_'' @ rnd (seed s1)) ''tbody'' cls [] []"
  define s3 where "s3 = s1\<lparr>seed := Suc (seed s1), nodes := nodes s @ [secn]\<rparr>"
  define fin where "fin = fold (bodyStep rnd cfg (length (nodes s))) [0 ..< bodyRowCountOf cfg] s3"
  have e: "buildBody rnd cfg s = (length (nodes s), fin)"
    by (simp add: buildBody_def c prim_defs f(1) Let_def fin_def s3_def secn_def bodyRowCountOf_def)
  have p: "length (nodes s) < length (nodes s3)" by (simp add: s3_def)
  from fold_appends [of "length (nodes s)" rnd
      "\<lambda>r. rowBlock rnd cfg (cellTagOf cfg ''tbody'') (sourceRowOf cfg ''tbody'' r)"
      "bodyStep rnd cfg (length (nodes s))" s3 "bodyRowCountOf cfg", OF bodyStep_appends p]
  obtain bs where bs:
    "nodes fin = (nodes s3)[length (nodes s) := addChildren (nodes s3 ! length (nodes s)) (map (\<lambda>b. nid (hd b)) bs)] @ concat bs"
    "list_all2 (\<lambda>b r. rowBlock rnd cfg (cellTagOf cfg ''tbody'') (sourceRowOf cfg ''tbody'' r) b) bs [0 ..< bodyRowCountOf cfg]"
    "idsFrom rnd (seed s3) (seed fin) (concat bs)" "seed s3 \<le> seed fin"
    unfolding fin_def by blast
  define sec where "sec = domNode (''n_'' @ rnd (seed s1)) ''tbody'' cls [] (map (\<lambda>b. nid (hd b)) bs) # concat bs"
  have n: "nodes fin = nodes s @ sec" by (simp add: bs(1) s3_def secn_def sec_def)
  have "sectionBlock rnd cfg ''tbody'' [0 ..< bodyRowCountOf cfg] sec"
    unfolding sectionBlock_def sec_def using bs(2) by blast
  moreover have "idsFrom rnd (seed s) (seed fin) sec"
    using idsFrom_append [OF f(3) [of "''tbody''" "[]" "map (\<lambda>b. nid (hd b)) bs"] bs(3) [unfolded s3_def, simplified]] f(2) bs(4)
    by (simp add: sec_def s3_def)
  moreover have "seed s \<le> seed fin" using f(2) bs(4) by (simp add: s3_def)
  ultimately show ?thesis unfolding e creates_def using n by (auto simp: sec_def)
qed


lemma buildSection_shape:
  assumes "buildOneRowSection rnd cfg tag cls0 s = (r, s')"
  shows "\<exists>blk. r = length (nodes s) \<and> blk \<noteq> [] \<and> nodes s' = nodes s @ blk
     \<and> sectionBlock rnd cfg tag [0] blk \<and> idsFrom rnd (seed s) (seed s') blk \<and> seed s \<le> seed s'"
  using buildOneRowSection_creates [of rnd cfg tag cls0 s] assms unfolding creates_def by auto

lemma buildHead_shape:
  "\<exists>H. nodes (snd (buildHead rnd cfg s)) = nodes s @ H
     \<and> fst (buildHead rnd cfg s) = (if includeHead cfg then Some (length (nodes s)) else None)
     \<and> (if includeHead cfg then H \<noteq> [] \<and> sectionBlock rnd cfg ''thead'' [0] H else H = [])
     \<and> idsFrom rnd (seed s) (seed (snd (buildHead rnd cfg s))) H
     \<and> seed s \<le> seed (snd (buildHead rnd cfg s))"
proof (cases "includeHead cfg")
  case True
  obtain r s' where b: "buildOneRowSection rnd cfg ''thead'' (theadClass cfg) s = (r, s')"
    by (cases "buildOneRowSection rnd cfg ''thead'' (theadClass cfg) s")
  from buildSection_shape [OF b] True b show ?thesis by (auto simp: buildHead_def)
next
  case False
  then show ?thesis by (simp add: buildHead_def)
qed

lemma buildFoot_shape:
  "\<exists>F. nodes (snd (buildFoot rnd cfg s)) = nodes s @ F
     \<and> fst (buildFoot rnd cfg s) = (if includeFoot cfg then Some (length (nodes s)) else None)
     \<and> (if includeFoot cfg then F \<noteq> [] \<and> sectionBlock rnd cfg ''tfoot'' [0] F else F = [])
     \<and> idsFrom rnd (seed s) (seed (snd (buildFoot rnd cfg s))) F
     \<and> seed s \<le> seed (snd (buildFoot rnd cfg s))"
proof (cases "includeFoot cfg")
  case True
  obtain r s' where b: "buildOneRowSection rnd cfg ''tfoot'' (tfootClass cfg) s = (r, s')"
    by (cases "buildOneRowSection rnd cfg ''tfoot'' (tfootClass cfg) s")
  from buildSection_shape [OF b] True b show ?thesis by (auto simp: buildFoot_def)
next
  case False
  then show ?thesis by (simp add: buildFoot_def)
qed

lemma buildBody_shape:
  "\<exists>B. nodes (snd (buildBody rnd cfg s)) = nodes s @ B \<and> fst (buildBody rnd cfg s) = length (nodes s)
     \<and> B \<noteq> [] \<and> sectionBlock rnd cfg ''tbody'' [0 ..< bodyRowCountOf cfg] B
     \<and> idsFrom rnd (seed s) (seed (snd (buildBody rnd cfg s))) B
     \<and> seed s \<le> seed (snd (buildBody rnd cfg s))"
  using buildBody_creates [of rnd cfg s] unfolding creates_def by auto

lemma attachSections_nodes:
  assumes n: "nodes s = T # H @ B @ F" and b: "B \<noteq> []"
    and h: "thead = (if H = [] then None else Some 1)"
    and f: "tfoot = (if F = [] then None else Some (Suc (length H + length B)))"
  shows "nodes (attachSections 0 thead (Suc (length H)) tfoot s)
     = addChildren T ((if H = [] then [] else [nid (hd H)]) @ [nid (hd B)]
                      @ (if F = [] then [] else [nid (hd F)])) # H @ B @ F"
    and "seed (attachSections 0 thead (Suc (length H)) tfoot s) = seed s"
proof -
  have a: "addChild n c = addChildren n [c]" for n c
    by (simp add: addChild_def addChildren_def)
  have aa: "addChildren (addChildren n xs) ys = addChildren n (xs @ ys)" for n xs ys
    by (simp add: addChildren_def)
  show "nodes (attachSections 0 thead (Suc (length H)) tfoot s)
     = addChildren T ((if H = [] then [] else [nid (hd H)]) @ [nid (hd B)]
                      @ (if F = [] then [] else [nid (hd F)])) # H @ B @ F"
  proof (cases "H = []")
    case True
    show ?thesis
    proof (cases "F = []")
      case True
      with \<open>H = []\<close> show ?thesis
        using b by (simp add: attachSections_def h f n prim_defs Let_def hd_conv_nth a aa)
    next
      case False
      with \<open>H = []\<close> show ?thesis
        using b by (simp add: attachSections_def h f n prim_defs Let_def hd_conv_nth nth_append a aa)
    qed
  next
    case False
    show ?thesis
    proof (cases "F = []")
      case True
      with \<open>H \<noteq> []\<close> show ?thesis
        using b by (simp add: attachSections_def h f n prim_defs Let_def hd_conv_nth nth_append a aa)
    next
      case False
      with \<open>H \<noteq> []\<close> show ?thesis
        using b by (simp add: attachSections_def h f n prim_defs Let_def hd_conv_nth nth_append a aa)
    qed
  qed
  show "seed (attachSections 0 thead (Suc (length H)) tfoot s) = seed s"
    by (simp add: attachSections_def h f prim_defs Let_def)
qed

lemma pushDiv_eq:
  assumes "classIds rnd [preset] s = (cls, s1)"
  shows "pushDiv rnd preset s
     = (length (nodes s),
        s1\<lparr>seed := Suc (seed s1), nodes := nodes s @ [domNode (''n_'' @ rnd (seed s1)) ''div'' cls [] []]\<rparr>)"
  using classIds_frame [OF assms] by (simp add: pushDiv_def assms prim_defs)

lemma pushDiv_shape:
  "\<exists>i cls. nodes (snd (pushDiv rnd preset s)) = nodes s @ [domNode i ''div'' cls [] []]
     \<and> fst (pushDiv rnd preset s) = length (nodes s)
     \<and> idsFrom rnd (seed s) (seed (snd (pushDiv rnd preset s))) [domNode i ''div'' cls [] []]
     \<and> seed s \<le> seed (snd (pushDiv rnd preset s))"
proof -
  obtain cls s1 where c: "classIds rnd [preset] s = (cls, s1)" by (cases "classIds rnd [preset] s")
  have f: "seed s \<le> seed s1" using classIds_frame [OF c] by simp
  have "idsFrom rnd (seed s1) (Suc (seed s1)) [domNode (''n_'' @ rnd (seed s1)) ''div'' cls [] []]"
    using idsFrom_single [of "''n_''" _ rnd "seed s1"] by simp
  then have "idsFrom rnd (seed s) (Suc (seed s1)) [domNode (''n_'' @ rnd (seed s1)) ''div'' cls [] []]"
    using f by (rule idsFrom_mono) simp
  then show ?thesis using f unfolding pushDiv_eq [OF c] by auto
qed

lemma wrapSection_shape:
  assumes t: "table < length (nodes s)"
  shows "\<exists>W. nodes (wrapSection rnd cfg table s) = nodes s @ W
     \<and> (if wrapInSection cfg then wrapBlock (nid (nodes s ! table)) W else W = [])
     \<and> idsFrom rnd (seed s) (seed (wrapSection rnd cfg table s)) W
     \<and> seed s \<le> seed (wrapSection rnd cfg table s)"
proof (cases "wrapInSection cfg")
  case False
  then show ?thesis by (simp add: wrapSection_def)
next
  case True
  obtain r1 s1 where p1: "pushDiv rnd ''section_table'' s = (r1, s1)" by (cases "pushDiv rnd ''section_table'' s")
  obtain r2 s2 where p2: "pushDiv rnd ''padding-global'' s1 = (r2, s2)" by (cases "pushDiv rnd ''padding-global'' s1")
  obtain r3 s3 where p3: "pushDiv rnd ''container-large'' s2 = (r3, s3)" by (cases "pushDiv rnd ''container-large'' s2")
  obtain r4 s4 where p4: "pushDiv rnd ''padding-section-medium'' s3 = (r4, s4)" by (cases "pushDiv rnd ''padding-section-medium'' s3")
  obtain r5 s5 where p5: "pushDiv rnd ''table_component'' s4 = (r5, s5)" by (cases "pushDiv rnd ''table_component'' s4")
  from pushDiv_shape [of rnd "''section_table''" s] p1 obtain i1 c1 where a1:
    "nodes s1 = nodes s @ [domNode i1 ''div'' c1 [] []]" "r1 = length (nodes s)"
    "idsFrom rnd (seed s) (seed s1) [domNode i1 ''div'' c1 [] []]" "seed s \<le> seed s1" by auto
  from pushDiv_shape [of rnd "''padding-global''" s1] p2 obtain i2 c2 where a2:
    "nodes s2 = nodes s1 @ [domNode i2 ''div'' c2 [] []]" "r2 = length (nodes s1)"
    "idsFrom rnd (seed s1) (seed s2) [domNode i2 ''div'' c2 [] []]" "seed s1 \<le> seed s2" by auto
  from pushDiv_shape [of rnd "''container-large''" s2] p3 obtain i3 c3 where a3:
    "nodes s3 = nodes s2 @ [domNode i3 ''div'' c3 [] []]" "r3 = length (nodes s2)"
    "idsFrom rnd (seed s2) (seed s3) [domNode i3 ''div'' c3 [] []]" "seed s2 \<le> seed s3" by auto
  from pushDiv_shape [of rnd "''padding-section-medium''" s3] p4 obtain i4 c4 where a4:
    "nodes s4 = nodes s3 @ [domNode i4 ''div'' c4 [] []]" "r4 = length (nodes s3)"
    "idsFrom rnd (seed s3) (seed s4) [domNode i4 ''div'' c4 [] []]" "seed s3 \<le> seed s4" by auto
  from pushDiv_shape [of rnd "''table_component''" s4] p5 obtain i5 c5 where a5:
    "nodes s5 = nodes s4 @ [domNode i5 ''div'' c5 [] []]" "r5 = length (nodes s4)"
    "idsFrom rnd (seed s4) (seed s5) [domNode i5 ''div'' c5 [] []]" "seed s4 \<le> seed s5" by auto
  define W where "W = [domNode i1 ''div'' c1 [] [i2], domNode i2 ''div'' c2 [] [i3],
             domNode i3 ''div'' c3 [] [i4], domNode i4 ''div'' c4 [] [i5],
             domNode i5 ''div'' c5 [] [nid (nodes s ! table)]]"
  have n5: "nodes s5 = nodes s @ [domNode i1 ''div'' c1 [] [], domNode i2 ''div'' c2 [] [],
      domNode i3 ''div'' c3 [] [], domNode i4 ''div'' c4 [] [], domNode i5 ''div'' c5 [] []]"
    by (simp add: a1 a2 a3 a4 a5)
  have r: "r1 = length (nodes s)" "r2 = Suc (length (nodes s))" "r3 = Suc (Suc (length (nodes s)))"
    "r4 = Suc (Suc (Suc (length (nodes s))))" "r5 = Suc (Suc (Suc (Suc (length (nodes s)))))"
    by (simp_all add: a1 a2 a3 a4 a5)
  have e: "wrapSection rnd cfg table s = s5\<lparr>nodes := nodes s @ W\<rparr>"
    using t by (simp add: wrapSection_def True p1 p2 p3 p4 p5 Let_def prim_defs n5 r W_def nth_append
        list_update_append)
  have "idsFrom rnd (seed s) (seed s5) ([domNode i1 ''div'' c1 [] []] @ [domNode i2 ''div'' c2 [] []]
      @ [domNode i3 ''div'' c3 [] []] @ [domNode i4 ''div'' c4 [] []] @ [domNode i5 ''div'' c5 [] []])"
    using a1(3,4) a2(3,4) a3(3,4) a4(3,4) a5(3,4)
    by (intro idsFrom_append [where mid = "seed s1" and lo = "seed s"]
        idsFrom_append [where mid = "seed s2" and lo = "seed s1"]
        idsFrom_append [where mid = "seed s3" and lo = "seed s2"]
        idsFrom_append [where mid = "seed s4" and lo = "seed s3"]) simp_all
  then have "idsFrom rnd (seed s) (seed s5) W"
    by (simp add: idsFrom_def W_def)
  moreover have "wrapBlock (nid (nodes s ! table)) W" unfolding wrapBlock_def W_def by blast
  moreover have "seed s \<le> seed s5" using a1(4) a2(4) a3(4) a4(4) a5(4) by simp
  ultimately show ?thesis using True unfolding e by auto
qed


lemma built_shape:
  "builtShape rnd cfg (nodes (builtState rnd cfg))
   \<and> idsFrom rnd 0 (seed (builtState rnd cfg)) (nodes (builtState rnd cfg))"
proof -
  obtain cls s1' where c: "classIds rnd (classArg (tableClass cfg)) initState = (cls, s1')"
    by (cases "classIds rnd (classArg (tableClass cfg)) initState")
  note f = section_head [OF c]
  define attrs where "attrs = (if addAriaRole cfg then [(''role'', ''table'')] else [])"
  define T0 where "T0 = domNode (''n_'' @ rnd (seed s1')) ''table'' cls attrs []"
  define s1 where "s1 = s1'\<lparr>seed := Suc (seed s1'), nodes := [T0]\<rparr>"
  have i0: "nodes initState = []" "seed initState = 0" by (simp_all add: initState_def)
  have bt: "buildTable rnd cfg initState = (0, s1)"
    using f(1) by (simp add: buildTable_def c prim_defs Let_def s1_def T0_def attrs_def i0)
  have n1: "nodes s1 = [T0]" by (simp add: s1_def)
  have id1: "idsFrom rnd 0 (seed s1) [T0]"
    using f(3) [of "''table''" attrs "[]"] by (simp add: s1_def T0_def i0)
  obtain thead s2 where bh: "buildHead rnd cfg s1 = (thead, s2)" by (cases "buildHead rnd cfg s1")
  from buildHead_shape [of rnd cfg s1] bh obtain H where H:
    "nodes s2 = [T0] @ H" "thead = (if includeHead cfg then Some 1 else None)"
    "if includeHead cfg then H \<noteq> [] \<and> sectionBlock rnd cfg ''thead'' [0] H else H = []"
    "idsFrom rnd (seed s1) (seed s2) H" "seed s1 \<le> seed s2"
    by (auto simp: n1)
  obtain tbody s3 where bb: "buildBody rnd cfg s2 = (tbody, s3)" by (cases "buildBody rnd cfg s2")
  from buildBody_shape [of rnd cfg s2] bb obtain B where B:
    "nodes s3 = ([T0] @ H) @ B" "tbody = Suc (length H)" "B \<noteq> []"
    "sectionBlock rnd cfg ''tbody'' [0 ..< bodyRowCountOf cfg] B"
    "idsFrom rnd (seed s2) (seed s3) B" "seed s2 \<le> seed s3"
    by (auto simp: H(1))
  obtain tfoot s4 where bf: "buildFoot rnd cfg s3 = (tfoot, s4)" by (cases "buildFoot rnd cfg s3")
  from buildFoot_shape [of rnd cfg s3] bf obtain F where F:
    "nodes s4 = (([T0] @ H) @ B) @ F" "tfoot = (if includeFoot cfg then Some (Suc (length H + length B)) else None)"
    "if includeFoot cfg then F \<noteq> [] \<and> sectionBlock rnd cfg ''tfoot'' [0] F else F = []"
    "idsFrom rnd (seed s3) (seed s4) F" "seed s3 \<le> seed s4"
    by (auto simp: B(1))
  define kids where "kids = (if includeHead cfg then [nid (hd H)] else []) @ [nid (hd B)]
               @ (if includeFoot cfg then [nid (hd F)] else [])"
  define T where "T = domNode (''n_'' @ rnd (seed s1')) ''table'' cls attrs kids"
  define s5 where "s5 = attachSections 0 thead tbody tfoot s4"
  have hh: "includeHead cfg \<longleftrightarrow> H \<noteq> []" using H(3) by (cases "includeHead cfg") simp_all
  have ff: "includeFoot cfg \<longleftrightarrow> F \<noteq> []" using F(3) by (cases "includeFoot cfg") simp_all
  have n4: "nodes s4 = T0 # H @ B @ F" by (simp add: F(1))
  have th: "thead = (if H = [] then None else Some 1)" using H(2) hh by simp
  have tf: "tfoot = (if F = [] then None else Some (Suc (length H + length B)))" using F(2) ff by simp
  have k: "kids = (if H = [] then [] else [nid (hd H)]) @ [nid (hd B)] @ (if F = [] then [] else [nid (hd F)])"
    using hh ff by (simp add: kids_def)
  have n5: "nodes s5 = T # H @ B @ F"
    unfolding s5_def B(2) attachSections_nodes(1) [OF n4 B(3) th tf] k [symmetric]
    by (simp add: T_def T0_def)
  have sd5: "seed s5 = seed s4"
    unfolding s5_def B(2) by (rule attachSections_nodes(2) [OF n4 B(3) th tf])
  have t5: "0 < length (nodes s5)" by (simp add: n5)
  have h5: "nodes s5 ! 0 = T" by (simp add: n5)
  from wrapSection_shape [OF t5, of rnd cfg] obtain W where W:
    "nodes (wrapSection rnd cfg 0 s5) = nodes s5 @ W"
    "if wrapInSection cfg then wrapBlock (nid T) W else W = []"
    "idsFrom rnd (seed s5) (seed (wrapSection rnd cfg 0 s5)) W"
    "seed s5 \<le> seed (wrapSection rnd cfg 0 s5)"
    unfolding h5 by blast
  have e: "builtState rnd cfg = wrapSection rnd cfg 0 s5"
    by (simp add: builtState_def bt bh bb bf s5_def)
  have n: "nodes (builtState rnd cfg) = T # H @ B @ F @ W" by (simp add: e W(1) n5)
  have "builtShape rnd cfg (T # H @ B @ F @ W)"
    unfolding builtShape_def
    apply (rule exI [of _ "''n_'' @ rnd (seed s1')"], rule exI [of _ cls], rule exI [of _ H],
        rule exI [of _ B], rule exI [of _ F], rule exI [of _ W])
    using H(3) B(4) F(3) W(2) c
    by (auto simp: T_def attrs_def kids_def split: if_splits)
  moreover have "idsFrom rnd 0 (seed (builtState rnd cfg)) ([T] @ H @ B @ F @ W)"
  proof -
    have idT: "idsFrom rnd 0 (seed s1) [T]" using id1 by (simp add: idsFrom_def T_def T0_def)
    have 1: "idsFrom rnd (seed s4) (seed (builtState rnd cfg)) W" using W(3) by (simp add: e sd5)
    have 2: "seed s4 \<le> seed (builtState rnd cfg)" using W(4) by (simp add: e sd5)
    have 3: "idsFrom rnd (seed s3) (seed (builtState rnd cfg)) (F @ W)"
      using idsFrom_append [OF F(4) 1 F(5) 2] .
    have 4: "idsFrom rnd (seed s2) (seed (builtState rnd cfg)) (B @ F @ W)"
      using idsFrom_append [OF B(5) 3 B(6)] F(5) 2 by simp
    have 5: "idsFrom rnd (seed s1) (seed (builtState rnd cfg)) (H @ B @ F @ W)"
      using idsFrom_append [OF H(4) 4 H(5)] B(6) F(5) 2 by simp
    show ?thesis
      using idsFrom_append [OF idT 5] H(5) B(6) F(5) 2 by simp
  qed
  ultimately show ?thesis by (simp add: n)
qed

section \<open>Reading a built graph back\<close>

lemma idsFrom_distinct:
  assumes "inj rnd" "idsFrom rnd lo hi blk"
  shows "distinct (map nid blk)"
proof -
  from assms(2) obtain pk where pk: "map nid blk = map (\<lambda>(p, k). p @ rnd k) pk"
    "sorted_wrt (<) (map snd pk)" "\<forall>(p, k) \<in> set pk. length p = 2 \<and> lo \<le> k \<and> k < hi"
    unfolding idsFrom_def by blast
  have "distinct (map snd pk)" using pk(2) strict_sorted_iff by blast
  then have d: "distinct pk" by (simp add: distinct_map)
  have "inj_on (\<lambda>(p, k). p @ rnd k) (set pk)"
  proof (rule inj_onI)
    fix x y assume x: "x \<in> set pk" and y: "y \<in> set pk"
      and e: "(case x of (p, k) \<Rightarrow> p @ rnd k) = (case y of (p, k) \<Rightarrow> p @ rnd k)"
    obtain p k where xp: "x = (p, k)" by (cases x)
    obtain p' k' where yp: "y = (p', k')" by (cases y)
    have "length p = 2" using bspec [OF pk(3) x] xp by simp
    moreover have "length p' = 2" using bspec [OF pk(3) y] yp by simp
    ultimately have "length p = length p'" by simp
    with e xp yp have "p = p'" "rnd k = rnd k'" by simp_all
    with assms(1) show "x = y" using xp yp by (simp add: inj_eq)
  qed
  with d show ?thesis unfolding pk(1) by (simp add: distinct_map)
qed

lemma indexById_fold_other:
  "i \<notin> nid ` set ns \<Longrightarrow> fold (\<lambda>n m. m(nid n \<mapsto> n)) ns m0 i = m0 i"
  by (induction ns arbitrary: m0) auto

lemma indexById_fold_distinct:
  "distinct (map nid ns) \<Longrightarrow> n \<in> set ns \<Longrightarrow> fold (\<lambda>n m. m(nid n \<mapsto> n)) ns m0 (nid n) = Some n"
proof (induction ns arbitrary: m0)
  case Nil
  then show ?case by simp
next
  case (Cons a ns)
  show ?case
  proof (cases "n \<in> set ns")
    case True
    then show ?thesis using Cons by simp
  next
    case False
    then have na: "n = a" using Cons.prems by simp
    have o: "nid a \<notin> nid ` set ns" using Cons.prems by auto
    have "fold (\<lambda>n m. m(nid n \<mapsto> n)) (a # ns) m0 (nid n)
        = fold (\<lambda>n m. m(nid n \<mapsto> n)) ns (m0(nid a \<mapsto> a)) (nid a)"
      unfolding na by (simp only: fold_simps comp_apply)
    also have "\<dots> = (m0(nid a \<mapsto> a)) (nid a)" using o by (rule indexById_fold_other)
    also have "\<dots> = Some n" unfolding na by simp
    finally show ?thesis .
  qed
qed

lemma distinct_resolves: "distinct (map nid N) \<Longrightarrow> resolves N"
  by (simp add: resolves_def indexById_def indexById_fold_distinct)

lemma resolvesD: "resolves N \<Longrightarrow> n \<in> set N \<Longrightarrow> indexById N (nid n) = Some n"
  by (simp add: resolves_def)

lemma lookupAll_resolved:
  "resolves N \<Longrightarrow> set ms \<subseteq> set N \<Longrightarrow> lookupAll (indexById N) (map nid ms) = ms"
  by (induction ms) (simp_all add: resolvesD)

lemma getText_txtNode [simp]: "getTextFromNode (Suc k) idx (Some (txtNode i v)) = Inr v"
  by (simp add: txtNode_def)

lemma getText_domNode [simp]:
  "getTextFromNode (Suc k) idx (Some (domNode i tag cls attrs kids)) = firstText k idx kids"
  by (simp add: domNode_def)

lemma cellNodes_text:
  assumes r: "resolves N" and s: "set (cellNodes rnd cfg ct cls txt k) \<subseteq> set N"
    and e: "csvData cfg = None \<longrightarrow> txt = []"
  shows "getTextFromNode (Suc (Suc (Suc j))) (indexById N) (Some (hd (cellNodes rnd cfg ct cls txt k))) = Inr txt"
proof (cases "csvData cfg")
  case None
  then show ?thesis using e by (simp add: cellNodes_def)
next
  case (Some d)
  show ?thesis
  proof (cases "useSpanFallback cfg")
    case True
    from s Some True have m: "domNode (''n_'' @ rnd (k + 1)) ''span'' [] [] [''t_'' @ rnd (k + 2)] \<in> set N"
      "txtNode (''t_'' @ rnd (k + 2)) txt \<in> set N" by (simp_all add: cellNodes_def)
    from resolvesD [OF r m(1)] resolvesD [OF r m(2)] show ?thesis
      using Some True by (simp add: cellNodes_def)
  next
    case False
    from s Some False have m: "txtNode (''t_'' @ rnd (k + 1)) txt \<in> set N" by (simp add: cellNodes_def)
    from resolvesD [OF r m] show ?thesis using Some False by (simp add: cellNodes_def)
  qed
qed

lemma hd_cellNodes_tag [simp]:
  "normalizeTag (hd (cellNodes rnd cfg ct cls txt k)) = (if ct \<noteq> [] then toLowerCase ct else ''div'')"
  by (simp add: cellNodes_def split: option.splits)

lemma cellTagOf_cases: "cellTagOf cfg tag = ''td'' \<or> cellTagOf cfg tag = ''th''"
  by (simp add: cellTagOf_def)

lemma textValue_None [simp]: "csvData cfg = None \<Longrightarrow> textValue cfg sr c = []"
  by (simp add: textValue_def)

lemma mapE_map_Inr: "(\<And>x. x \<in> set xs \<Longrightarrow> f x = Inr (g x)) \<Longrightarrow> mapE f xs = Inr (map g xs)"
  by (induction xs) simp_all

lemma mapE_all2:
  "list_all2 (\<lambda>x y. f x = Inr y) xs ys \<Longrightarrow> mapE f xs = Inr ys"
  by (induction xs ys rule: list_all2_induct) simp_all

lemma list_all2_mem: "list_all2 P xs ys \<Longrightarrow> list_all2 (\<lambda>x y. P x y \<and> x \<in> set xs) xs ys"
  by (auto simp: list_all2_conv_all_nth)

lemma rowBlock_read:
  assumes r: "resolves N" and s: "set blk \<subseteq> set N"
    and b: "rowBlock rnd cfg ct sr blk" and ct: "ct = ''td'' \<or> ct = ''th''"
  shows "readRow (Suc (Suc (Suc j))) (indexById N) (hd blk)
           = Inr (map (textValue cfg sr) [0 ..< cellCountOf cfg])"
proof -
  from b obtain i cls cbs where blk: "blk = domNode i ''tr'' cls [] (map (\<lambda>b. nid (hd b)) cbs) # concat cbs"
    and cb: "list_all2 (\<lambda>b c. cellBlock rnd cfg ct (textValue cfg sr c) b) cbs [0 ..< cellCountOf cfg]"
    unfolding rowBlock_def by blast
  have ne: "\<And>b. b \<in> set cbs \<Longrightarrow> b \<noteq> [] \<and> set b \<subseteq> set N \<and> hd b \<in> set N
      \<and> (normalizeTag (hd b) = ''td'' \<or> normalizeTag (hd b) = ''th'')"
  proof -
    fix b assume bi: "b \<in> set cbs"
    then obtain c where "cellBlock rnd cfg ct (textValue cfg sr c) b"
      using cb by (auto simp: list_all2_conv_all_nth in_set_conv_nth)
    then obtain cl k where bk: "b = cellNodes rnd cfg ct cl (textValue cfg sr c) k"
      unfolding cellBlock_def by blast
    have sb: "set b \<subseteq> set N" using s bi blk by auto
    have "b \<noteq> []" using bk by simp
    moreover from this have "hd b \<in> set N" using sb by (meson hd_in_set subsetD)
    moreover have "normalizeTag (hd b) = ''td'' \<or> normalizeTag (hd b) = ''th''"
      using ct bk by (auto simp: toLower_simps)
    ultimately show "b \<noteq> [] \<and> set b \<subseteq> set N \<and> hd b \<in> set N
      \<and> (normalizeTag (hd b) = ''td'' \<or> normalizeTag (hd b) = ''th'')" using sb by simp
  qed
  have l: "lookupAll (indexById N) (map (\<lambda>b. nid (hd b)) cbs) = map hd cbs"
    using lookupAll_resolved [OF r, of "map hd cbs"] ne by (auto simp: comp_def)
  have f: "filter (\<lambda>n. normalizeTag n = ''td'' \<or> normalizeTag n = ''th'') (map hd cbs) = map hd cbs"
    using ne by (auto simp: filter_id_conv)
  have "list_all2 (\<lambda>x y. getTextFromNode (Suc (Suc (Suc j))) (indexById N) (Some x) = Inr y)
      (map hd cbs) (map (textValue cfg sr) [0 ..< cellCountOf cfg])"
    unfolding list_all2_map1 list_all2_map2
  proof (rule list_all2_mono [OF list_all2_mem [OF cb]])
    fix b c assume a: "cellBlock rnd cfg ct (textValue cfg sr c) b \<and> b \<in> set cbs"
    then obtain cl k where bk: "b = cellNodes rnd cfg ct cl (textValue cfg sr c) k"
      unfolding cellBlock_def by blast
    from a have "b \<in> set cbs" by simp
    then have "set (cellNodes rnd cfg ct cl (textValue cfg sr c) k) \<subseteq> set N" using ne bk by blast
    from cellNodes_text [OF r this] show
      "getTextFromNode (Suc (Suc (Suc j))) (indexById N) (Some (hd b)) = Inr (textValue cfg sr c)"
      unfolding bk by simp
  qed
  from mapE_all2 [OF this] show ?thesis
    by (simp add: readRow_def blk l f)
qed


lemma rowBlock_hd:
  "rowBlock rnd cfg ct sr blk \<Longrightarrow> blk \<noteq> [] \<and> normalizeTag (hd blk) = ''tr''"
  unfolding rowBlock_def by (auto simp: toLower_simps)

lemma sectionBlock_read:
  assumes r: "resolves N" and s: "set blk \<subseteq> set N" and b: "sectionBlock rnd cfg tag rs blk"
  shows "readSectionRows (Suc (Suc (Suc j))) (indexById N) (Some (hd blk)) = Inr (map (rowTexts cfg tag) rs)"
proof -
  from b obtain i cls rbs where blk: "blk = domNode i tag cls [] (map (\<lambda>b. nid (hd b)) rbs) # concat rbs"
    and rb: "list_all2 (\<lambda>b r. rowBlock rnd cfg (cellTagOf cfg tag) (sourceRowOf cfg tag r) b) rbs rs"
    unfolding sectionBlock_def by blast
  have ne: "\<And>b. b \<in> set rbs \<Longrightarrow> b \<noteq> [] \<and> set b \<subseteq> set N \<and> hd b \<in> set N \<and> normalizeTag (hd b) = ''tr''"
  proof -
    fix b assume bi: "b \<in> set rbs"
    then obtain x where "rowBlock rnd cfg (cellTagOf cfg tag) (sourceRowOf cfg tag x) b"
      using rb by (auto simp: list_all2_conv_all_nth in_set_conv_nth)
    from rowBlock_hd [OF this] have h: "b \<noteq> []" "normalizeTag (hd b) = ''tr''" by simp_all
    have sb: "set b \<subseteq> set N" using s bi blk by auto
    moreover have "hd b \<in> set N" using sb h(1) by (meson hd_in_set subsetD)
    ultimately show "b \<noteq> [] \<and> set b \<subseteq> set N \<and> hd b \<in> set N \<and> normalizeTag (hd b) = ''tr''"
      using h by simp
  qed
  have l: "lookupAll (indexById N) (map (\<lambda>b. nid (hd b)) rbs) = map hd rbs"
    using lookupAll_resolved [OF r, of "map hd rbs"] ne by (auto simp: comp_def)
  have f: "filter (\<lambda>n. normalizeTag n = ''tr'') (map hd rbs) = map hd rbs"
    using ne by (auto simp: filter_id_conv)
  have "list_all2 (\<lambda>x y. readRow (Suc (Suc (Suc j))) (indexById N) x = Inr y)
      (map hd rbs) (map (rowTexts cfg tag) rs)"
    unfolding list_all2_map1 list_all2_map2
  proof (rule list_all2_mono [OF list_all2_mem [OF rb]])
    fix b x assume a: "rowBlock rnd cfg (cellTagOf cfg tag) (sourceRowOf cfg tag x) b \<and> b \<in> set rbs"
    then have sb: "set b \<subseteq> set N" using ne by blast
    from a have rbk: "rowBlock rnd cfg (cellTagOf cfg tag) (sourceRowOf cfg tag x) b" by simp
    from rowBlock_read [OF r sb rbk cellTagOf_cases]
    show "readRow (Suc (Suc (Suc j))) (indexById N) (hd b) = Inr (rowTexts cfg tag x)"
      by (simp add: rowTexts_def)
  qed
  from mapE_all2 [OF this] show ?thesis
    by (simp add: readSectionRows_def blk l f)
qed

lemma sectionBlock_hd:
  "sectionBlock rnd cfg tag rs blk \<Longrightarrow> tag \<noteq> [] \<Longrightarrow> blk \<noteq> [] \<and> normalizeTag (hd blk) = toLowerCase tag"
  unfolding sectionBlock_def by auto

lemma built_resolves: "inj rnd \<Longrightarrow> resolves (nodes (builtState rnd cfg))"
  using built_shape [of rnd cfg] by (blast intro: distinct_resolves idsFrom_distinct)

lemma built_sections:
  fixes rnd :: "nat \<Rightarrow> string" and cfg :: config
  assumes i: "inj rnd"
  defines "N \<equiv> nodes (builtState rnd cfg)"
  shows "N \<noteq> [] \<and> normalizeTag (hd N) = ''table''
    \<and> sectionRowsOf (Suc (Suc (Suc j))) N ''thead''
        = Inr (if includeHead cfg then [rowTexts cfg ''thead'' 0] else [])
    \<and> sectionRowsOf (Suc (Suc (Suc j))) N ''tbody''
        = Inr (map (rowTexts cfg ''tbody'') [0 ..< bodyRowCountOf cfg])
    \<and> sectionRowsOf (Suc (Suc (Suc j))) N ''tfoot''
        = Inr (if includeFoot cfg then [rowTexts cfg ''tfoot'' 0] else [])"
proof -
  have r: "resolves N" unfolding N_def by (rule built_resolves [OF i])
  from built_shape [of rnd cfg] obtain ti cls H B F W where
    n: "N = domNode ti ''table'' cls (if addAriaRole cfg then [(''role'', ''table'')] else [])
              ((if includeHead cfg then [nid (hd H)] else []) @ [nid (hd B)]
               @ (if includeFoot cfg then [nid (hd F)] else []))
            # H @ B @ F @ W"
    and h: "if includeHead cfg then sectionBlock rnd cfg ''thead'' [0] H else H = []"
    and b: "sectionBlock rnd cfg ''tbody'' [0 ..< bodyRowCountOf cfg] B"
    and f: "if includeFoot cfg then sectionBlock rnd cfg ''tfoot'' [0] F else F = []"
    unfolding builtShape_def N_def by blast
  define ms where "ms = (if includeHead cfg then [hd H] else []) @ [hd B] @ (if includeFoot cfg then [hd F] else [])"
  have bn: "B \<noteq> []" "normalizeTag (hd B) = ''tbody''"
    using sectionBlock_hd [OF b] by (simp_all add: toLower_simps)
  have hn: "includeHead cfg \<Longrightarrow> H \<noteq> [] \<and> normalizeTag (hd H) = ''thead''"
    using h sectionBlock_hd [of rnd cfg "''thead''" "[0]" H] by (simp add: toLower_simps)
  have fn: "includeFoot cfg \<Longrightarrow> F \<noteq> [] \<and> normalizeTag (hd F) = ''tfoot''"
    using f sectionBlock_hd [of rnd cfg "''tfoot''" "[0]" F] by (simp add: toLower_simps)
  have sub: "set H \<subseteq> set N" "set B \<subseteq> set N" "set F \<subseteq> set N" by (auto simp: n)
  have msN: "set ms \<subseteq> set N"
    using bn(1) hn fn sub by (auto simp: ms_def dest: hd_in_set)
  have k: "children (hd N) = map nid ms" by (simp add: n ms_def)
  have l: "lookupAll (indexById N) (children (hd N)) = ms"
    unfolding k by (rule lookupAll_resolved [OF r msN])
  have t: "find (\<lambda>n. normalizeTag n = ''table'') N = Some (hd N)"
    by (simp add: n toLower_simps)
  have fh: "find (\<lambda>n. normalizeTag n = ''thead'') ms = (if includeHead cfg then Some (hd H) else None)"
    using bn hn fn by (simp add: ms_def)
  have fb: "find (\<lambda>n. normalizeTag n = ''tbody'') ms = Some (hd B)"
    using bn hn fn by (simp add: ms_def)
  have ff: "find (\<lambda>n. normalizeTag n = ''tfoot'') ms = (if includeFoot cfg then Some (hd F) else None)"
    using bn hn fn by (simp add: ms_def)
  have 1: "sectionRowsOf (Suc (Suc (Suc j))) N ''thead'' = Inr (if includeHead cfg then [rowTexts cfg ''thead'' 0] else [])"
    using h sectionBlock_read [OF r sub(1), of rnd cfg "''thead''" "[0]" j]
    by (simp add: sectionRowsOf_def t l fh)
  have 2: "sectionRowsOf (Suc (Suc (Suc j))) N ''tbody'' = Inr (map (rowTexts cfg ''tbody'') [0 ..< bodyRowCountOf cfg])"
    using sectionBlock_read [OF r sub(2) b, of j] by (simp add: sectionRowsOf_def t l fb)
  have 3: "sectionRowsOf (Suc (Suc (Suc j))) N ''tfoot'' = Inr (if includeFoot cfg then [rowTexts cfg ''tfoot'' 0] else [])"
    using f sectionBlock_read [OF r sub(3), of rnd cfg "''tfoot''" "[0]" j]
    by (simp add: sectionRowsOf_def t l ff)
  have "N \<noteq> []" "normalizeTag (hd N) = ''table''" by (simp_all add: n toLower_simps)
  with 1 2 3 show ?thesis by simp
qed

lemma extract_sections:
  assumes "ns \<noteq> []" "find (\<lambda>n. normalizeTag n = ''table'') ns = Some t"
    "sectionRowsOf fuel ns ''thead'' = Inr h" "sectionRowsOf fuel ns ''tbody'' = Inr b"
    "sectionRowsOf fuel ns ''tfoot'' = Inr f"
  shows "extractRowsFromXscp fuel (Envelope (Some ns))
     = Inr (Some \<lparr>rowsOut = (if h \<noteq> [] then h @ b else b), hasHeader = (h \<noteq> [])\<rparr>)"
  using assms by (simp add: extractRowsFromXscp_def sectionRowsOf_def Let_def)

lemma extract_built:
  assumes "inj rnd"
  shows "extractRowsFromXscp (Suc (Suc (Suc j))) (builtJson (built rnd cfg))
     = Inr (Some \<lparr>rowsOut = (if includeHead cfg then [rowTexts cfg ''thead'' 0] else [])
                              @ map (rowTexts cfg ''tbody'') [0 ..< bodyRowCountOf cfg],
                  hasHeader = includeHead cfg\<rparr>)"
proof -
  note s = built_sections [OF assms, of cfg j]
  have t: "find (\<lambda>n. normalizeTag n = ''table'') (nodes (builtState rnd cfg)) = Some (hd (nodes (builtState rnd cfg)))"
    using s by (cases "nodes (builtState rnd cfg)") simp_all
  show ?thesis
    using extract_sections [OF _ t, of "Suc (Suc (Suc j))"] s
    by (simp add: builtJson_def built_def)
qed

section \<open>Structure of a built graph\<close>

lemma closedIn_mono: "closedIn X blk \<Longrightarrow> set X \<subseteq> set Y \<Longrightarrow> closedIn Y blk"
  unfolding closedIn_def by blast

lemma closedIn_append [simp]: "closedIn X (a @ b) \<longleftrightarrow> closedIn X a \<and> closedIn X b"
  unfolding closedIn_def by auto

lemma closedIn_Cons [simp]:
  "closedIn X (n # b) \<longleftrightarrow> (\<forall>c \<in> set (children n). c \<in> nid ` set X) \<and> closedIn X b"
  unfolding closedIn_def by auto

lemma closedIn_Nil [simp]: "closedIn X []"
  unfolding closedIn_def by simp

lemma closedIn_concat: "(\<And>b. b \<in> set bs \<Longrightarrow> closedIn b b) \<Longrightarrow> closedIn (concat bs) (concat bs)"
  unfolding closedIn_def by fastforce

lemma cellNodes_closed: "closedIn (cellNodes rnd cfg ct cls txt k) (cellNodes rnd cfg ct cls txt k)"
  by (simp add: cellNodes_def split: option.splits)

lemma hd_ids_concat:
  "(\<And>b. b \<in> set bs \<Longrightarrow> b \<noteq> []) \<Longrightarrow> set (map (\<lambda>b. nid (hd b)) bs) \<subseteq> nid ` set (concat bs)"
  by (fastforce dest: hd_in_set)

lemma rowBlock_closed:
  assumes "rowBlock rnd cfg ct sr blk"
  shows "closedIn blk blk"
proof -
  from assms obtain i cls cbs where blk: "blk = domNode i ''tr'' cls [] (map (\<lambda>b. nid (hd b)) cbs) # concat cbs"
    and cb: "list_all2 (\<lambda>b c. cellBlock rnd cfg ct (textValue cfg sr c) b) cbs [0 ..< cellCountOf cfg]"
    unfolding rowBlock_def by blast
  have c: "\<And>b. b \<in> set cbs \<Longrightarrow> b \<noteq> [] \<and> closedIn b b"
  proof -
    fix b assume "b \<in> set cbs"
    then obtain c where "cellBlock rnd cfg ct (textValue cfg sr c) b"
      using cb by (auto simp: list_all2_conv_all_nth in_set_conv_nth)
    then show "b \<noteq> [] \<and> closedIn b b" unfolding cellBlock_def using cellNodes_closed by auto
  qed
  have "set (map (\<lambda>b. nid (hd b)) cbs) \<subseteq> nid ` set (concat cbs)" using c by (intro hd_ids_concat) simp
  moreover have "closedIn (concat cbs) (concat cbs)" using c by (intro closedIn_concat) simp
  ultimately show ?thesis
    unfolding blk by (auto intro: closedIn_mono)
qed

lemma sectionBlock_closed:
  assumes "sectionBlock rnd cfg tag rs blk"
  shows "closedIn blk blk"
proof -
  from assms obtain i cls rbs where blk: "blk = domNode i tag cls [] (map (\<lambda>b. nid (hd b)) rbs) # concat rbs"
    and rb: "list_all2 (\<lambda>b r. rowBlock rnd cfg (cellTagOf cfg tag) (sourceRowOf cfg tag r) b) rbs rs"
    unfolding sectionBlock_def by blast
  have c: "\<And>b. b \<in> set rbs \<Longrightarrow> b \<noteq> [] \<and> closedIn b b"
  proof -
    fix b assume "b \<in> set rbs"
    then obtain x where "rowBlock rnd cfg (cellTagOf cfg tag) (sourceRowOf cfg tag x) b"
      using rb by (auto simp: list_all2_conv_all_nth in_set_conv_nth)
    then show "b \<noteq> [] \<and> closedIn b b" using rowBlock_closed rowBlock_hd by blast
  qed
  have "set (map (\<lambda>b. nid (hd b)) rbs) \<subseteq> nid ` set (concat rbs)" using c by (intro hd_ids_concat) simp
  moreover have "closedIn (concat rbs) (concat rbs)" using c by (intro closedIn_concat) simp
  ultimately show ?thesis
    unfolding blk by (auto intro: closedIn_mono)
qed

lemma sectionBlock_nonempty: "sectionBlock rnd cfg tag rs blk \<Longrightarrow> blk \<noteq> []"
  unfolding sectionBlock_def by auto

lemma builtShape_closed:
  assumes "builtShape rnd cfg N"
  shows "closedIn N N"
proof -
  from assms obtain ti cls H B F W where
    n: "N = domNode ti ''table'' cls (if addAriaRole cfg then [(''role'', ''table'')] else [])
              ((if includeHead cfg then [nid (hd H)] else []) @ [nid (hd B)]
               @ (if includeFoot cfg then [nid (hd F)] else []))
            # H @ B @ F @ W"
    and h: "if includeHead cfg then sectionBlock rnd cfg ''thead'' [0] H else H = []"
    and b: "sectionBlock rnd cfg ''tbody'' [0 ..< bodyRowCountOf cfg] B"
    and f: "if includeFoot cfg then sectionBlock rnd cfg ''tfoot'' [0] F else F = []"
    and w: "if wrapInSection cfg then wrapBlock ti W else W = []"
    unfolding builtShape_def by blast
  have sub: "set H \<subseteq> set N" "set B \<subseteq> set N" "set F \<subseteq> set N" "set W \<subseteq> set N" by (auto simp: n)
  have cH: "closedIn N H" using h sectionBlock_closed [of rnd cfg "''thead''" "[0]" H] sub(1)
    by (cases "includeHead cfg") (auto intro: closedIn_mono)
  have cB: "closedIn N B" using sectionBlock_closed [OF b] sub(2) by (auto intro: closedIn_mono)
  have cF: "closedIn N F" using f sectionBlock_closed [of rnd cfg "''tfoot''" "[0]" F] sub(3)
    by (cases "includeFoot cfg") (auto intro: closedIn_mono)
  have cW: "closedIn N W"
  proof (cases "wrapInSection cfg")
    case True
    with w obtain i1 c1 i2 c2 i3 c3 i4 c4 i5 c5 where W: "W = [domNode i1 ''div'' c1 [] [i2], domNode i2 ''div'' c2 [] [i3],
             domNode i3 ''div'' c3 [] [i4], domNode i4 ''div'' c4 [] [i5],
             domNode i5 ''div'' c5 [] [ti]]" unfolding wrapBlock_def by auto
    have "ti \<in> nid ` set N" by (simp add: n)
    moreover have "{i2, i3, i4, i5} \<subseteq> nid ` set N" using sub(4) unfolding W by force
    ultimately show ?thesis unfolding W by simp
  next
    case False
    with w show ?thesis by simp
  qed
  have hB: "nid (hd B) \<in> nid ` set N" using sectionBlock_nonempty [OF b] sub(2) by (auto dest: hd_in_set)
  have hH: "includeHead cfg \<Longrightarrow> nid (hd H) \<in> nid ` set N"
    using h sectionBlock_nonempty [of rnd cfg "''thead''" "[0]" H] sub(1) by (auto dest: hd_in_set)
  have hF: "includeFoot cfg \<Longrightarrow> nid (hd F) \<in> nid ` set N"
    using f sectionBlock_nonempty [of rnd cfg "''tfoot''" "[0]" F] sub(3) by (auto dest: hd_in_set)
  have "closedIn N (domNode ti ''table'' cls (if addAriaRole cfg then [(''role'', ''table'')] else [])
              ((if includeHead cfg then [nid (hd H)] else []) @ [nid (hd B)]
               @ (if includeFoot cfg then [nid (hd F)] else [])) # H @ B @ F @ W)"
    using cH cB cF cW hB hH hF by auto
  then show ?thesis using n by simp
qed


lemma nv_domNode [simp]: "nv (domNode i tag cls attrs kids) = None"
  by (simp add: domNode_def)

lemma cellNodes_builtNode:
  "ct = ''td'' \<or> ct = ''th'' \<Longrightarrow> n \<in> set (cellNodes rnd cfg ct cls txt k) \<Longrightarrow> builtNode cfg n"
  unfolding builtNode_def cellNodes_def by (auto split: option.splits if_splits)

lemma rowBlock_builtNode:
  assumes "rowBlock rnd cfg ct sr blk" "ct = ''td'' \<or> ct = ''th''" "n \<in> set blk"
  shows "builtNode cfg n"
proof -
  from assms(1) obtain i cls cbs where blk: "blk = domNode i ''tr'' cls [] (map (\<lambda>b. nid (hd b)) cbs) # concat cbs"
    and cb: "list_all2 (\<lambda>b c. cellBlock rnd cfg ct (textValue cfg sr c) b) cbs [0 ..< cellCountOf cfg]"
    unfolding rowBlock_def by blast
  show ?thesis
  proof (cases "n = domNode i ''tr'' cls [] (map (\<lambda>b. nid (hd b)) cbs)")
    case True
    then show ?thesis unfolding builtNode_def by blast
  next
    case False
    then obtain b where b: "b \<in> set cbs" "n \<in> set b" using assms(3) blk by auto
    then obtain c where "cellBlock rnd cfg ct (textValue cfg sr c) b"
      using cb by (auto simp: list_all2_conv_all_nth in_set_conv_nth)
    then show ?thesis using cellNodes_builtNode [OF assms(2)] b(2) unfolding cellBlock_def by blast
  qed
qed

lemma sectionBlock_builtNode:
  assumes "sectionBlock rnd cfg tag rs blk" "tag \<in> {''thead'', ''tbody'', ''tfoot''}" "n \<in> set blk"
  shows "builtNode cfg n"
proof -
  from assms(1) obtain i cls rbs where blk: "blk = domNode i tag cls [] (map (\<lambda>b. nid (hd b)) rbs) # concat rbs"
    and rb: "list_all2 (\<lambda>b r. rowBlock rnd cfg (cellTagOf cfg tag) (sourceRowOf cfg tag r) b) rbs rs"
    unfolding sectionBlock_def by blast
  show ?thesis
  proof (cases "n = domNode i tag cls [] (map (\<lambda>b. nid (hd b)) rbs)")
    case True
    then show ?thesis unfolding builtNode_def using assms(2) by blast
  next
    case False
    then obtain b where b: "b \<in> set rbs" "n \<in> set b" using assms(3) blk by auto
    then obtain x where "rowBlock rnd cfg (cellTagOf cfg tag) (sourceRowOf cfg tag x) b"
      using rb by (auto simp: list_all2_conv_all_nth in_set_conv_nth)
    from rowBlock_builtNode [OF this cellTagOf_cases b(2)] show ?thesis .
  qed
qed

lemma builtShape_nodes:
  assumes "builtShape rnd cfg N"
  shows "N \<noteq> [] \<and> (\<exists>i cls attrs kids. hd N = domNode i ''table'' cls attrs kids)
     \<and> (\<forall>n \<in> set (tl N). builtNode cfg n)"
proof -
  from assms obtain ti cls H B F W where
    n: "N = domNode ti ''table'' cls (if addAriaRole cfg then [(''role'', ''table'')] else [])
              ((if includeHead cfg then [nid (hd H)] else []) @ [nid (hd B)]
               @ (if includeFoot cfg then [nid (hd F)] else []))
            # H @ B @ F @ W"
    and h: "if includeHead cfg then sectionBlock rnd cfg ''thead'' [0] H else H = []"
    and b: "sectionBlock rnd cfg ''tbody'' [0 ..< bodyRowCountOf cfg] B"
    and f: "if includeFoot cfg then sectionBlock rnd cfg ''tfoot'' [0] F else F = []"
    and w: "if wrapInSection cfg then wrapBlock ti W else W = []"
    unfolding builtShape_def by blast
  have nH: "\<forall>n \<in> set H. builtNode cfg n"
    using h sectionBlock_builtNode [of rnd cfg "''thead''" "[0]" H] by (cases "includeHead cfg") auto
  have nB: "\<forall>n \<in> set B. builtNode cfg n" using sectionBlock_builtNode [OF b] by auto
  have nF: "\<forall>n \<in> set F. builtNode cfg n"
    using f sectionBlock_builtNode [of rnd cfg "''tfoot''" "[0]" F] by (cases "includeFoot cfg") auto
  have nW: "\<forall>n \<in> set W. builtNode cfg n"
  proof (cases "wrapInSection cfg")
    case True
    with w show ?thesis unfolding wrapBlock_def builtNode_def by auto
  next
    case False
    with w show ?thesis by simp
  qed
  show ?thesis using nH nB nF nW unfolding n by auto
qed

lemma builtNode_tag:
  "builtNode cfg n \<Longrightarrow> normalizeTag n \<noteq> ''table'' \<and> rawTag n \<noteq> ''table''"
  unfolding builtNode_def by (auto simp: toLower_simps)

lemma builtNode_bare:
  "builtNode cfg n \<Longrightarrow> csvData cfg = None \<Longrightarrow>
     \<not> ntext n \<and> nv n = None \<and> normalizeTag n \<noteq> ''span''
     \<and> (normalizeTag n = ''td'' \<or> normalizeTag n = ''th'' \<longrightarrow> children n = [])"
  unfolding builtNode_def by (auto simp: toLower_simps)

lemma built_bareCells:
  assumes "csvData cfg = None"
  shows "bareCells (nodes (builtState rnd cfg))"
proof -
  from built_shape [of rnd cfg] have s: "builtShape rnd cfg (nodes (builtState rnd cfg))" by simp
  from builtShape_nodes [OF s] obtain i cls attrs kids where
    n: "nodes (builtState rnd cfg) \<noteq> []" "hd (nodes (builtState rnd cfg)) = domNode i ''table'' cls attrs kids"
    "\<forall>n \<in> set (tl (nodes (builtState rnd cfg))). builtNode cfg n" by blast
  have m: "\<And>m. m \<in> set (nodes (builtState rnd cfg)) \<Longrightarrow> m = domNode i ''table'' cls attrs kids \<or> builtNode cfg m"
    using n by (cases "nodes (builtState rnd cfg)") auto
  have t: "\<not> ntext (domNode i ''table'' cls attrs kids) \<and> nv (domNode i ''table'' cls attrs kids) = None
      \<and> normalizeTag (domNode i ''table'' cls attrs kids) \<noteq> ''span''
      \<and> (normalizeTag (domNode i ''table'' cls attrs kids) = ''td''
           \<or> normalizeTag (domNode i ''table'' cls attrs kids) = ''th'' \<longrightarrow>
          children (domNode i ''table'' cls attrs kids) = [])"
    by (simp add: toLower_simps)
  show ?thesis
    unfolding bareCells_def
  proof
    fix x assume "x \<in> set (nodes (builtState rnd cfg))"
    from m [OF this] show "\<not> ntext x \<and> nv x = None \<and> normalizeTag x \<noteq> ''span''
        \<and> (normalizeTag x = ''td'' \<or> normalizeTag x = ''th'' \<longrightarrow> children x = [])"
    proof (elim disjE)
      assume "x = domNode i ''table'' cls attrs kids"
      then show ?thesis using t by simp
    next
      assume "builtNode cfg x"
      from builtNode_bare [OF this assms] show ?thesis .
    qed
  qed
qed

lemma bare_getText:
  assumes "bareCells N" "n \<in> set N" "normalizeTag n = ''td'' \<or> normalizeTag n = ''th''"
  shows "getTextFromNode (Suc j) idx (Some n) = Inr []"
  using assms unfolding bareCells_def by auto

lemma bare_readRow:
  assumes "bareCells N"
  shows "\<exists>r. readRow (Suc j) (indexById N) tr = Inr r \<and> (\<forall>c \<in> set r. c = [])"
proof -
  define cells where "cells = filter (\<lambda>n. normalizeTag n = ''td'' \<or> normalizeTag n = ''th'')
          (lookupAll (indexById N) (children tr))"
  have "\<And>x. x \<in> set cells \<Longrightarrow> getTextFromNode (Suc j) (indexById N) (Some x) = Inr ((\<lambda>_. []) x)"
  proof -
    fix x assume "x \<in> set cells"
    then have "x \<in> set N" "normalizeTag x = ''td'' \<or> normalizeTag x = ''th''"
      using lookupAll_mem unfolding cells_def by auto
    from bare_getText [OF assms this] show "getTextFromNode (Suc j) (indexById N) (Some x) = Inr ((\<lambda>_. []) x)" .
  qed
  from mapE_map_Inr [OF this] have "readRow (Suc j) (indexById N) tr = Inr (map (\<lambda>_. []) cells)"
    unfolding readRow_def cells_def [symmetric] .
  then show ?thesis by auto
qed

lemma bare_readSectionRows:
  assumes "bareCells N"
  shows "\<exists>rs. readSectionRows (Suc j) (indexById N) sec = Inr rs \<and> allEmpty rs"
proof (cases sec)
  case None
  then show ?thesis by (simp add: allEmpty_def)
next
  case (Some a)
  define trs where "trs = filter (\<lambda>n. normalizeTag n = ''tr'') (lookupAll (indexById N) (children a))"
  have "\<exists>rs. mapE (readRow (Suc j) (indexById N)) trs = Inr rs \<and> allEmpty rs"
  proof (induction trs)
    case Nil
    then show ?case by (simp add: allEmpty_def)
  next
    case (Cons t ts)
    then obtain rs where rs: "mapE (readRow (Suc j) (indexById N)) ts = Inr rs" "allEmpty rs" by blast
    from bare_readRow [OF assms, of j t] obtain r where
      r: "readRow (Suc j) (indexById N) t = Inr r" "\<forall>c \<in> set r. c = []" by blast
    show ?case using rs r by (simp add: allEmpty_def)
  qed
  then show ?thesis using Some by (simp add: readSectionRows_def trs_def)
qed

lemma bare_extract:
  assumes "bareCells N" "N \<noteq> []" "normalizeTag (hd N) = ''table''"
  shows "\<exists>r. extractRowsFromXscp (Suc j) (Envelope (Some N)) = Inr (Some r) \<and> allEmpty (rowsOut r)"
proof -
  have t: "find (\<lambda>n. normalizeTag n = ''table'') N = Some (hd N)"
    using assms(2,3) by (cases N) simp_all
  obtain h where h: "sectionRowsOf (Suc j) N ''thead'' = Inr h" "allEmpty h"
    using bare_readSectionRows [OF assms(1)] unfolding sectionRowsOf_def t by auto
  obtain b where b: "sectionRowsOf (Suc j) N ''tbody'' = Inr b" "allEmpty b"
    using bare_readSectionRows [OF assms(1)] unfolding sectionRowsOf_def t by auto
  obtain f where f: "sectionRowsOf (Suc j) N ''tfoot'' = Inr f" "allEmpty f"
    using bare_readSectionRows [OF assms(1)] unfolding sectionRowsOf_def t by auto
  have "allEmpty (if h \<noteq> [] then h @ b else b)" using h(2) b(2) by (auto simp: allEmpty_def)
  then show ?thesis
    using extract_sections [OF assms(2) t h(1) b(1) f(1)] by simp
qed

subsection \<open>The payload and the example draws\<close>

lemma inj_exampleRnd: "inj exampleRnd"
  by (rule injI) (simp add: exampleRnd_def)

lemma built_nodes [simp]: "pnodes (built rnd cfg) = nodes (builtState rnd cfg)"
  by (simp add: built_def)

section \<open>The style index\<close>

lemma trim_aab: "trim ''a a b'' = ''a a b''"
  by (simp add: trim_def isWhite_def)

lemma splitWs_aab: "splitWs ''a a b'' = [''a'', ''a'', ''b'']"
  by (simp add: splitWs.simps [of "''a a b''"] splitWs.simps [of "''a b''"] splitWs.simps [of "''b''"]
      isWhite_def Let_def)

lemma tw_a: "tailwindToStyleLess ''a'' = []"
  by (simp add: tailwindToStyleLess_def trim_def isWhite_def splitWs.simps [of "''a''"] Let_def
      tokenCss_def matchPadding_def matchGap_def tokenCssRest_def)

lemma tw_b: "tailwindToStyleLess ''b'' = []"
  by (simp add: tailwindToStyleLess_def trim_def isWhite_def splitWs.simps [of "''b''"] Let_def
      tokenCss_def matchPadding_def matchGap_def tokenCssRest_def)

subsection \<open>The style collection through the build\<close>

lemma sty_prims [simp]:
  "sty (snd (makeDomNode rnd tag cls attrs False s)) = sty s"
  "sty (snd (makeTextNode rnd v s)) = sty s"
  "sty (snd (push n s)) = sty s"
  "sty (pushChild r c s) = sty s"
  by (simp_all add: prim_defs sty_def)

lemma fold_inv: "(\<And>x s. I s \<Longrightarrow> I (f x s)) \<Longrightarrow> I s \<Longrightarrow> I (fold f xs s)"
  by (induction xs arbitrary: s) simp_all

lemma cellStep_sty:
  "sty (cellStep rnd cfg tr ct sr c s) = sty (snd (classIds rnd (classArg (cellClass cfg)) s))"
  by (simp add: cellStep_def prim_defs sty_def Let_def split: prod.splits option.splits)

lemma cellStep_inv:
  assumes fr: "\<And>s s'. sty s' = sty s \<Longrightarrow> I s \<Longrightarrow> I s'"
    and cl: "\<And>c s. c \<in> set (classArgsOf cfg) \<Longrightarrow> I s \<Longrightarrow> I (snd (classIds rnd c s))"
    and i: "I s"
  shows "I (cellStep rnd cfg tr ct sr c s)"
proof -
  have "I (snd (classIds rnd (classArg (cellClass cfg)) s))"
    by (rule cl) (simp add: classArgsOf_def, fact i)
  then show ?thesis by (rule fr [OF cellStep_sty])
qed

lemma makeRow_inv:
  assumes fr: "\<And>s s'. sty s' = sty s \<Longrightarrow> I s \<Longrightarrow> I s'"
    and cl: "\<And>c s. c \<in> set (classArgsOf cfg) \<Longrightarrow> I s \<Longrightarrow> I (snd (classIds rnd c s))"
    and i: "I s"
  shows "I (snd (makeRow rnd cfg tag r s))"
proof -
  obtain cls s1 where a: "classIds rnd (classArg (rowClass cfg)) s = (cls, s1)"
    by (cases "classIds rnd (classArg (rowClass cfg)) s")
  have "I (snd (classIds rnd (classArg (rowClass cfg)) s))"
    by (rule cl) (simp add: classArgsOf_def, fact i)
  then have 1: "I s1" by (simp add: a)
  define s3 where "s3 = snd (push (fst (makeDomNode rnd ''tr'' cls [] False s1))
                              (snd (makeDomNode rnd ''tr'' cls [] False s1)))"
  have "sty s3 = sty s1" by (simp add: s3_def)
  then have 3: "I s3" using 1 by (rule fr)
  have "\<exists>ct sr k. snd (makeRow rnd cfg tag r s)
           = fold (cellStep rnd cfg (length (nodes s1)) ct sr) [0 ..< k] s3"
    by (simp add: makeRow_def a s3_def Let_def prim_defs split: prod.splits) blast
  then obtain ct sr k where
    e: "snd (makeRow rnd cfg tag r s) = fold (cellStep rnd cfg (length (nodes s1)) ct sr) [0 ..< k] s3"
    by blast
  have step: "I (cellStep rnd cfg (length (nodes s1)) ct sr x z)" if z: "I z" for x z
    by (rule cellStep_inv [where I = I]) (fact fr, fact cl, fact z)
  show ?thesis unfolding e
    by (rule fold_inv [where I = I and f = "cellStep rnd cfg (length (nodes s1)) ct sr"])
      (rule step, assumption, fact 3)
qed

lemma section_inv:
  assumes fr: "\<And>s s'. sty s' = sty s \<Longrightarrow> I s \<Longrightarrow> I s'"
    and cl: "\<And>c s. c \<in> set (classArgsOf cfg) \<Longrightarrow> I s \<Longrightarrow> I (snd (classIds rnd c s))"
    and c: "classArg cls0 \<in> set (classArgsOf cfg)"
    and i: "I s"
  shows "I (snd (buildOneRowSection rnd cfg tag cls0 s))"
proof -
  obtain cls s1 where a: "classIds rnd (classArg cls0) s = (cls, s1)"
    by (cases "classIds rnd (classArg cls0) s")
  have "I (snd (classIds rnd (classArg cls0) s))" by (rule cl) (fact c, fact i)
  then have 1: "I s1" by (simp add: a)
  define s3 where "s3 = snd (push (fst (makeDomNode rnd tag cls [] False s1))
                              (snd (makeDomNode rnd tag cls [] False s1)))"
  have "sty s3 = sty s1" by (simp add: s3_def)
  then have 3: "I s3" using 1 by (rule fr)
  have 4: "I (snd (makeRow rnd cfg tag 0 s3))" by (rule makeRow_inv [where I = I]) (fact fr, fact cl, fact 3)
  have "sty (snd (buildOneRowSection rnd cfg tag cls0 s)) = sty (snd (makeRow rnd cfg tag 0 s3))"
    by (simp add: buildOneRowSection_def a s3_def split: prod.splits)
  then show ?thesis using 4 by (rule fr)
qed

lemma buildHead_inv:
  assumes fr: "\<And>s s'. sty s' = sty s \<Longrightarrow> I s \<Longrightarrow> I s'"
    and cl: "\<And>c s. c \<in> set (classArgsOf cfg) \<Longrightarrow> I s \<Longrightarrow> I (snd (classIds rnd c s))"
    and i: "I s"
  shows "I (snd (buildHead rnd cfg s))"
proof (cases "includeHead cfg")
  case True
  have "I (snd (buildOneRowSection rnd cfg ''thead'' (theadClass cfg) s))"
    by (rule section_inv [where I = I]) (fact fr, fact cl, simp add: classArgsOf_def, fact i)
  then show ?thesis using True by (simp add: buildHead_def case_prod_beta)
next
  case False
  then show ?thesis using i by (simp add: buildHead_def)
qed

lemma buildFoot_inv:
  assumes fr: "\<And>s s'. sty s' = sty s \<Longrightarrow> I s \<Longrightarrow> I s'"
    and cl: "\<And>c s. c \<in> set (classArgsOf cfg) \<Longrightarrow> I s \<Longrightarrow> I (snd (classIds rnd c s))"
    and i: "I s"
  shows "I (snd (buildFoot rnd cfg s))"
proof (cases "includeFoot cfg")
  case True
  have "I (snd (buildOneRowSection rnd cfg ''tfoot'' (tfootClass cfg) s))"
    by (rule section_inv [where I = I]) (fact fr, fact cl, simp add: classArgsOf_def, fact i)
  then show ?thesis using True by (simp add: buildFoot_def case_prod_beta)
next
  case False
  then show ?thesis using i by (simp add: buildFoot_def)
qed

lemma bodyStep_inv:
  assumes fr: "\<And>s s'. sty s' = sty s \<Longrightarrow> I s \<Longrightarrow> I s'"
    and cl: "\<And>c s. c \<in> set (classArgsOf cfg) \<Longrightarrow> I s \<Longrightarrow> I (snd (classIds rnd c s))"
    and i: "I s"
  shows "I (bodyStep rnd cfg tbody r s)"
proof -
  have 1: "I (snd (makeRow rnd cfg ''tbody'' r s))" by (rule makeRow_inv [where I = I]) (fact fr, fact cl, fact i)
  have "sty (bodyStep rnd cfg tbody r s) = sty (snd (makeRow rnd cfg ''tbody'' r s))"
    by (simp add: bodyStep_def split: prod.splits)
  then show ?thesis using 1 by (rule fr)
qed

lemma buildBody_inv:
  assumes fr: "\<And>s s'. sty s' = sty s \<Longrightarrow> I s \<Longrightarrow> I s'"
    and cl: "\<And>c s. c \<in> set (classArgsOf cfg) \<Longrightarrow> I s \<Longrightarrow> I (snd (classIds rnd c s))"
    and i: "I s"
  shows "I (snd (buildBody rnd cfg s))"
proof -
  obtain cls s1 where a: "classIds rnd (classArg (tbodyClass cfg)) s = (cls, s1)"
    by (cases "classIds rnd (classArg (tbodyClass cfg)) s")
  have "I (snd (classIds rnd (classArg (tbodyClass cfg)) s))"
    by (rule cl) (simp add: classArgsOf_def, fact i)
  then have 1: "I s1" by (simp add: a)
  define s3 where "s3 = snd (push (fst (makeDomNode rnd ''tbody'' cls [] False s1))
                              (snd (makeDomNode rnd ''tbody'' cls [] False s1)))"
  have "sty s3 = sty s1" by (simp add: s3_def)
  then have 3: "I s3" using 1 by (rule fr)
  have e: "snd (buildBody rnd cfg s)
      = fold (bodyStep rnd cfg (length (nodes s1))) [0 ..< bodyRowCountOf cfg] s3"
    by (simp add: buildBody_def a s3_def Let_def prim_defs bodyRowCountOf_def split: prod.splits)
  have step: "I (bodyStep rnd cfg (length (nodes s1)) x z)" if z: "I z" for x z
    by (rule bodyStep_inv [where I = I]) (fact fr, fact cl, fact z)
  show ?thesis unfolding e
    by (rule fold_inv [where I = I and f = "bodyStep rnd cfg (length (nodes s1))"])
      (rule step, assumption, fact 3)
qed

lemma attachSections_sty [simp]: "sty (attachSections t h b f s) = sty s"
  by (simp add: attachSections_def Let_def split: option.splits)

lemma pushDiv_inv:
  assumes fr: "\<And>s s'. sty s' = sty s \<Longrightarrow> I s \<Longrightarrow> I s'"
    and cl: "\<And>s. I s \<Longrightarrow> I (snd (classIds rnd [preset] s))"
    and i: "I s"
  shows "I (snd (pushDiv rnd preset s))"
proof -
  have "sty (snd (pushDiv rnd preset s)) = sty (snd (classIds rnd [preset] s))"
    by (simp add: pushDiv_def prim_defs sty_def split: prod.splits)
  moreover have "I (snd (classIds rnd [preset] s))" by (rule cl) (fact i)
  ultimately show ?thesis by (rule fr)
qed

lemma wrapSection_inv:
  assumes fr: "\<And>s s'. sty s' = sty s \<Longrightarrow> I s \<Longrightarrow> I s'"
    and cl: "\<And>c s. c \<in> set (classArgsOf cfg) \<Longrightarrow> I s \<Longrightarrow> I (snd (classIds rnd c s))"
    and i: "I s"
  shows "I (wrapSection rnd cfg table s)"
proof (cases "wrapInSection cfg")
  case False
  then show ?thesis using i by (simp add: wrapSection_def)
next
  case True
  define s1 where "s1 = snd (pushDiv rnd ''section_table'' s)"
  define s2 where "s2 = snd (pushDiv rnd ''padding-global'' s1)"
  define s3 where "s3 = snd (pushDiv rnd ''container-large'' s2)"
  define s4 where "s4 = snd (pushDiv rnd ''padding-section-medium'' s3)"
  define s5 where "s5 = snd (pushDiv rnd ''table_component'' s4)"
  have 1: "I s1" unfolding s1_def
  proof (rule pushDiv_inv [where I = I])
    show "I (snd (classIds rnd [''section_table''] z))" if "I z" for z
      by (rule cl) (simp add: classArgsOf_def True, fact that)
  qed (fact fr, fact i)
  have 2: "I s2" unfolding s2_def
  proof (rule pushDiv_inv [where I = I])
    show "I (snd (classIds rnd [''padding-global''] z))" if "I z" for z
      by (rule cl) (simp add: classArgsOf_def True, fact that)
  qed (fact fr, fact 1)
  have 3: "I s3" unfolding s3_def
  proof (rule pushDiv_inv [where I = I])
    show "I (snd (classIds rnd [''container-large''] z))" if "I z" for z
      by (rule cl) (simp add: classArgsOf_def True, fact that)
  qed (fact fr, fact 2)
  have 4: "I s4" unfolding s4_def
  proof (rule pushDiv_inv [where I = I])
    show "I (snd (classIds rnd [''padding-section-medium''] z))" if "I z" for z
      by (rule cl) (simp add: classArgsOf_def True, fact that)
  qed (fact fr, fact 3)
  have 5: "I s5" unfolding s5_def
  proof (rule pushDiv_inv [where I = I])
    show "I (snd (classIds rnd [''table_component''] z))" if "I z" for z
      by (rule cl) (simp add: classArgsOf_def True, fact that)
  qed (fact fr, fact 4)
  have "sty (wrapSection rnd cfg table s) = sty s5"
    by (simp add: wrapSection_def True s1_def s2_def s3_def s4_def s5_def Let_def split: prod.splits)
  then show ?thesis using 5 by (rule fr)
qed

lemma buildTable_sty:
  "sty (snd (buildTable rnd cfg s)) = sty (snd (classIds rnd (classArg (tableClass cfg)) s))"
  by (simp add: buildTable_def prim_defs sty_def Let_def split: prod.splits)

lemma builtState_inv:
  assumes fr: "\<And>s s'. sty s' = sty s \<Longrightarrow> I s \<Longrightarrow> I s'"
    and cl: "\<And>c s. c \<in> set (classArgsOf cfg) \<Longrightarrow> I s \<Longrightarrow> I (snd (classIds rnd c s))"
    and i: "I (snd (classIds rnd (classArg (tableClass cfg)) initState))"
  shows "I (builtState rnd cfg)"
proof -
  define s1 where "s1 = snd (buildTable rnd cfg initState)"
  define s2 where "s2 = snd (buildHead rnd cfg s1)"
  define s3 where "s3 = snd (buildBody rnd cfg s2)"
  define s4 where "s4 = snd (buildFoot rnd cfg s3)"
  have 1: "I s1" unfolding s1_def using buildTable_sty i by (rule fr)
  have 2: "I s2" unfolding s2_def by (rule buildHead_inv [where I = I]) (fact fr, fact cl, fact 1)
  have 3: "I s3" unfolding s3_def by (rule buildBody_inv [where I = I]) (fact fr, fact cl, fact 2)
  have 4: "I s4" unfolding s4_def by (rule buildFoot_inv [where I = I]) (fact fr, fact cl, fact 3)
  define t where "t = fst (buildTable rnd cfg initState)"
  define h where "h = fst (buildHead rnd cfg s1)"
  define b where "b = fst (buildBody rnd cfg s2)"
  define f where "f = fst (buildFoot rnd cfg s3)"
  have e: "builtState rnd cfg = wrapSection rnd cfg t (attachSections t h b f s4)"
    by (simp add: builtState_def s1_def s2_def s3_def s4_def t_def h_def b_def f_def case_prod_beta)
  have 5: "I (attachSections t h b f s4)" using attachSections_sty 4 by (rule fr)
  show ?thesis unfolding e by (rule wrapSection_inv [where I = I]) (fact fr, fact cl, fact 5)
qed

subsection \<open>One record per name\<close>

lemma styleInv_sty: "sty s' = sty s \<Longrightarrow> styleInv s \<Longrightarrow> styleInv s'"
  by (simp add: styleInv_def sty_def)

lemma styleInv_ensureStyle:
  assumes "styleInv s"
  shows "styleInv (snd (ensureStyle rnd name s))"
proof (cases "name = [] \<or> trim name = [] \<or> styleIndex s name \<noteq> None")
  case True
  then show ?thesis using assms by (auto simp: ensureStyle_def)
next
  case False
  then have n: "styleIndex s name = None" by simp
  then have "name \<notin> sname ` set (styles s)"
    using assms by (force simp: styleInv_def map_of_eq_None_iff image_image)
  then show ?thesis using assms False
    by (auto simp: ensureStyle_def uid_def styleInv_def map_add_upd_left map_add_def fun_eq_iff
        split: prod.splits option.splits)
qed

lemma styleInv_ensureStyles: "styleInv s \<Longrightarrow> styleInv (snd (ensureStyles rnd ns s))"
proof (induction ns arbitrary: s)
  case Nil
  then show ?case by simp
next
  case (Cons n ns)
  from Cons.IH [OF styleInv_ensureStyle [OF Cons.prems, of rnd n]]
  show ?case by (simp add: case_prod_beta)
qed

lemma styleInv_classIds: "styleInv s \<Longrightarrow> styleInv (snd (classIds rnd l s))"
  by (simp add: classIds_def Let_def case_prod_beta styleInv_ensureStyles)

lemma styleInv_init: "styleInv initState"
  by (simp add: styleInv_def initState_def)

lemma styleInv_built: "styleInv (builtState rnd cfg)"
proof (rule builtState_inv [where I = styleInv])
  show "styleInv (snd (classIds rnd (classArg (tableClass cfg)) initState))"
    by (rule styleInv_classIds [OF styleInv_init])
qed (simp_all add: styleInv_sty styleInv_classIds)

subsection \<open>The table class alone\<close>

lemma classIds_Nil [simp]: "classIds rnd [] s = ([], s)"
  by (simp add: classIds_def List.map_filter_simps)

lemma onlyTableClass_args: "onlyTableClass cfg \<Longrightarrow> c \<in> set (classArgsOf cfg) \<Longrightarrow> c = []"
  by (auto simp: onlyTableClass_def classArgsOf_def classArg_def)

lemma onlyTableClass_sty:
  assumes "onlyTableClass cfg"
  shows "sty (builtState rnd cfg) = sty (snd (classIds rnd (classArg (tableClass cfg)) initState))"
proof (rule builtState_inv
      [where I = "\<lambda>s. sty s = sty (snd (classIds rnd (classArg (tableClass cfg)) initState))"])
  fix c s
  assume "c \<in> set (classArgsOf cfg)"
    and s: "sty s = sty (snd (classIds rnd (classArg (tableClass cfg)) initState))"
  then have "c = []" using onlyTableClass_args [OF assms] by blast
  then show "sty (snd (classIds rnd c s)) = sty (snd (classIds rnd (classArg (tableClass cfg)) initState))"
    using s by simp
qed simp_all

lemma classIds_aab:
  "classIds rnd [''a a b''] initState
     = ([''cls_'' @ rnd 0, ''cls_'' @ rnd 0, ''cls_'' @ rnd 1],
        \<lparr>nodes = [],
         styles = [styleRec (''cls_'' @ rnd 0) ''a'', styleRec (''cls_'' @ rnd 1) ''b''],
         styleIndex = [''a'' \<mapsto> ''cls_'' @ rnd 0, ''b'' \<mapsto> ''cls_'' @ rnd 1],
         seed = 2\<rparr>)"
  by (simp add: classIds_def trim_aab splitWs_aab ensureStyle_def uid_def initState_def tw_a tw_b
      SECTION_PRESETS_def styleRec_def List.map_filter_simps trim_def isWhite_def numeral_2_eq_2)

lemma table_classes:
  "classes (hd (nodes (builtState rnd cfg))) = fst (classIds rnd (classArg (tableClass cfg)) initState)"
  using built_shape [of rnd cfg] by (auto simp: builtShape_def domNode_def)

lemma built_pstyles [simp]: "pstyles (built rnd cfg) = styles (builtState rnd cfg)"
  by (simp add: built_def)

lemma built_aab:
  assumes "tableClass cfg = ''a a b''"
  shows "classes (hd (pnodes (built rnd cfg))) = [''cls_'' @ rnd 0, ''cls_'' @ rnd 0, ''cls_'' @ rnd 1]"
    and "onlyTableClass cfg \<Longrightarrow>
         pstyles (built rnd cfg)
           = [styleRec (''cls_'' @ rnd 0) ''a'', styleRec (''cls_'' @ rnd 1) ''b'']"
proof -
  have a: "classArg (tableClass cfg) = [''a a b'']" by (simp add: assms classArg_def)
  show "classes (hd (pnodes (built rnd cfg))) = [''cls_'' @ rnd 0, ''cls_'' @ rnd 0, ''cls_'' @ rnd 1]"
    by (simp add: table_classes a classIds_aab)
  assume "onlyTableClass cfg"
  from onlyTableClass_sty [OF this, of rnd]
  show "pstyles (built rnd cfg)
           = [styleRec (''cls_'' @ rnd 0) ''a'', styleRec (''cls_'' @ rnd 1) ''b'']"
    by (simp add: a classIds_aab sty_def)
qed

section \<open>The claims about the builder and the round trip\<close>

lemmas build_defs = built_def builtState_def buildTable_def buildHead_def buildBody_def buildFoot_def
  buildOneRowSection_def makeRow_def cellStep_def bodyStep_def attachSections_def wrapSection_def
  classIds_Nil classArg_def effectiveCols_def effectiveRows_def textValue_def nthOpt_def
  makeDomNode_def makeTextNode_def push_def pushChild_def idOf_def uid_def initState_def

lemma idsFrom_distinct_on:
  assumes "inj_on rnd {lo ..< hi}" "idsFrom rnd lo hi blk"
  shows "distinct (map nid blk)"
proof -
  from assms(2) obtain pk where pk: "map nid blk = map (\<lambda>(p, k). p @ rnd k) pk"
    "sorted_wrt (<) (map snd pk)" "\<forall>(p, k) \<in> set pk. length p = 2 \<and> lo \<le> k \<and> k < hi"
    unfolding idsFrom_def by blast
  have "distinct (map snd pk)" using pk(2) strict_sorted_iff by blast
  then have d: "distinct pk" by (simp add: distinct_map)
  have "inj_on (\<lambda>(p, k). p @ rnd k) (set pk)"
  proof (rule inj_onI)
    fix x y assume x: "x \<in> set pk" and y: "y \<in> set pk"
      and e: "(case x of (p, k) \<Rightarrow> p @ rnd k) = (case y of (p, k) \<Rightarrow> p @ rnd k)"
    obtain p k where xp: "x = (p, k)" by (cases x)
    obtain p' k' where yp: "y = (p', k')" by (cases y)
    have lp: "length p = 2" "lo \<le> k" "k < hi" using bspec [OF pk(3) x] xp by simp_all
    have lp': "length p' = 2" "lo \<le> k'" "k' < hi" using bspec [OF pk(3) y] yp by simp_all
    have "length p = length p'" using lp(1) lp'(1) by simp
    with e xp yp have "p = p'" "rnd k = rnd k'" by simp_all
    moreover have "k \<in> {lo ..< hi}" "k' \<in> {lo ..< hi}" using lp lp' by simp_all
    ultimately show "x = y" using assms(1) xp yp by (auto dest: inj_onD)
  qed
  with d show ?thesis unfolding pk(1) by (simp add: distinct_map)
qed

text \<open>
  Claim C6, as stated: the node ids of every built graph are unique.  An id is
  a prefix followed by what \<^verbatim>\<open>uid\<close> draws from \<^verbatim>\<open>Math.random\<close> and \<^verbatim>\<open>Date.now\<close>, and
  no id is compared with the earlier ones: when the draws repeat, here all of
  them, the nine element nodes of the build get the same id.
\<close>

theorem built_ids_collide_counterexample:
  "map nid (pnodes (built constRnd exampleConfig))
     = [''n_x'', ''n_x'', ''n_x'', ''n_x'', ''n_x'', ''n_x'', ''n_x'', ''n_x'', ''n_x'']
   \<and> \<not> distinct (map nid (pnodes (built constRnd exampleConfig)))"
proof -
  have "map nid (pnodes (built constRnd exampleConfig))
     = [''n_x'', ''n_x'', ''n_x'', ''n_x'', ''n_x'', ''n_x'', ''n_x'', ''n_x'', ''n_x'']"
    by (simp add: build_defs exampleConfig_def constRnd_def Let_def upt_rec numeral_eq_Suc)
  then show ?thesis by simp
qed

text \<open>
  Claim C6, amended: in every built graph, whatever the configuration, each id
  in a \<^verbatim>\<open>children\<close> list is the id of a node of the graph.  The id of each node
  is a two-character prefix followed by a \<^verbatim>\<open>uid\<close> draw of its own, the draws being
  numbered in the order of the calls; so the node ids are pairwise different
  whenever the draws of the build are pairwise different.
\<close>

theorem built_ids_resolve_and_differ:
  "(\<forall>n \<in> set (pnodes (built rnd cfg)). \<forall>c \<in> set (children n).
       c \<in> nid ` set (pnodes (built rnd cfg)))
   \<and> idsFrom rnd 0 (seed (builtState rnd cfg)) (pnodes (built rnd cfg))
   \<and> (inj_on rnd {0 ..< seed (builtState rnd cfg)} \<longrightarrow>
        distinct (map nid (pnodes (built rnd cfg))))"
proof -
  from built_shape [of rnd cfg] have s: "builtShape rnd cfg (nodes (builtState rnd cfg))"
    and i: "idsFrom rnd 0 (seed (builtState rnd cfg)) (nodes (builtState rnd cfg))" by simp_all
  from builtShape_closed [OF s] have "\<forall>n \<in> set (pnodes (built rnd cfg)). \<forall>c \<in> set (children n).
       c \<in> nid ` set (pnodes (built rnd cfg))"
    unfolding closedIn_def by simp
  moreover have "inj_on rnd {0 ..< seed (builtState rnd cfg)} \<longrightarrow>
      distinct (map nid (pnodes (built rnd cfg)))"
    using idsFrom_distinct_on [OF _ i] by simp
  ultimately show ?thesis using i by simp
qed

text \<open>The amended claim C6 on a build from a one-cell grid with the wrapper chain, with draws that all differ.\<close>

theorem built_ids_resolve_and_differ_witness:
  "inj_on exampleRnd
     {0 ..< seed (builtState exampleRnd (exampleConfig\<lparr>wrapInSection := True, csvData := Some [[''a'']]\<rparr>))}
   \<and> distinct (map nid (pnodes (built exampleRnd
         (exampleConfig\<lparr>wrapInSection := True, csvData := Some [[''a'']]\<rparr>))))
   \<and> closedIn (pnodes (built exampleRnd (exampleConfig\<lparr>wrapInSection := True, csvData := Some [[''a'']]\<rparr>)))
        (pnodes (built exampleRnd (exampleConfig\<lparr>wrapInSection := True, csvData := Some [[''a'']]\<rparr>)))"
proof -
  have "inj_on exampleRnd A" for A using inj_exampleRnd by (rule inj_on_subset) simp
  then show ?thesis
    using built_ids_resolve_and_differ [of exampleRnd "exampleConfig\<lparr>wrapInSection := True, csvData := Some [[''a'']]\<rparr>"]
    unfolding closedIn_def by blast
qed

lemma sectionBlock_hd_raw:
  "sectionBlock rnd cfg tag rs blk \<Longrightarrow> tag \<noteq> [] \<Longrightarrow> blk \<noteq> [] \<and> rawTag (hd blk) = tag"
  unfolding sectionBlock_def by auto

text \<open>
  Claim C5: for every combination of the head and foot flags, the children of
  the table element (the first node, and the only one tagged \<^verbatim>\<open>table\<close>) are the
  ids of the head section (if asked for), the body section and the foot section
  (if asked for), in this order; with pairwise different \<^verbatim>\<open>uid\<close> draws each id
  resolves to the section of that tag.
\<close>

theorem table_children_order:
  "(\<exists>secs. pnodes (built rnd cfg) \<noteq> [] \<and> rawTag (hd (pnodes (built rnd cfg))) = ''table''
      \<and> filter (\<lambda>n. rawTag n = ''table'') (pnodes (built rnd cfg)) = [hd (pnodes (built rnd cfg))]
      \<and> children (hd (pnodes (built rnd cfg))) = map nid secs
      \<and> set secs \<subseteq> set (tl (pnodes (built rnd cfg)))
      \<and> map rawTag secs = sectionTags cfg)
   \<and> (inj rnd \<longrightarrow>
        map (\<lambda>i. map_option rawTag (indexById (pnodes (built rnd cfg)) i))
          (children (hd (pnodes (built rnd cfg))))
        = map Some (sectionTags cfg))"
proof -
  define N where "N = nodes (builtState rnd cfg)"
  from built_shape [of rnd cfg] have s: "builtShape rnd cfg N" unfolding N_def by simp
  from s obtain ti cls H B F W where
    n: "N = domNode ti ''table'' cls (if addAriaRole cfg then [(''role'', ''table'')] else [])
              ((if includeHead cfg then [nid (hd H)] else []) @ [nid (hd B)]
               @ (if includeFoot cfg then [nid (hd F)] else []))
            # H @ B @ F @ W"
    and h: "if includeHead cfg then sectionBlock rnd cfg ''thead'' [0] H else H = []"
    and b: "sectionBlock rnd cfg ''tbody'' [0 ..< bodyRowCountOf cfg] B"
    and f: "if includeFoot cfg then sectionBlock rnd cfg ''tfoot'' [0] F else F = []"
    unfolding builtShape_def by blast
  define secs where "secs = (if includeHead cfg then [hd H] else []) @ [hd B] @ (if includeFoot cfg then [hd F] else [])"
  have bn: "B \<noteq> []" "rawTag (hd B) = ''tbody''" using sectionBlock_hd_raw [OF b] by simp_all
  have hn: "includeHead cfg \<Longrightarrow> H \<noteq> [] \<and> rawTag (hd H) = ''thead''"
    using h sectionBlock_hd_raw [of rnd cfg "''thead''" "[0]" H] by simp
  have fn: "includeFoot cfg \<Longrightarrow> F \<noteq> [] \<and> rawTag (hd F) = ''tfoot''"
    using f sectionBlock_hd_raw [of rnd cfg "''tfoot''" "[0]" F] by simp
  have 1: "N \<noteq> []" "rawTag (hd N) = ''table''" by (simp_all add: n)
  have "\<forall>m \<in> set (tl N). rawTag m \<noteq> ''table''"
    using builtShape_nodes [OF s] builtNode_tag by blast
  then have "filter (\<lambda>n. rawTag n = ''table'') (tl N) = []" by (simp add: filter_empty_conv)
  then have 2: "filter (\<lambda>n. rawTag n = ''table'') N = [hd N]" using 1 by (cases N) simp_all
  have 3: "children (hd N) = map nid secs" by (simp add: n secs_def)
  have 4: "set secs \<subseteq> set (tl N)" using bn(1) hn fn by (auto simp: n secs_def dest: hd_in_set)
  have 5: "map rawTag secs = sectionTags cfg" using bn hn fn by (simp add: secs_def sectionTags_def)
  have 6: "inj rnd \<longrightarrow> map (\<lambda>i. map_option rawTag (indexById N i)) (children (hd N)) = map Some (sectionTags cfg)"
  proof
    assume "inj rnd"
    then have r: "resolves N" unfolding N_def by (rule built_resolves)
    have "\<And>x. x \<in> set secs \<Longrightarrow> indexById N (nid x) = Some x"
      using 4 r 1(1) by (auto simp: resolves_def dest: list.set_sel(2))
    then have "map (\<lambda>i. map_option rawTag (indexById N i)) (map nid secs) = map Some (map rawTag secs)"
      by (induction secs) simp_all
    then show "map (\<lambda>i. map_option rawTag (indexById N i)) (children (hd N)) = map Some (sectionTags cfg)"
      unfolding 3 5 .
  qed
  from 1 2 3 4 5 6 show ?thesis unfolding built_nodes N_def [symmetric] by blast
qed

text \<open>Claim C5 on a build with head and foot.\<close>

theorem table_children_order_witness:
  "inj exampleRnd
   \<and> map (\<lambda>i. map_option rawTag
               (indexById (pnodes (built exampleRnd (exampleConfig\<lparr>includeFoot := True\<rparr>))) i))
        (children (hd (pnodes (built exampleRnd (exampleConfig\<lparr>includeFoot := True\<rparr>)))))
      = [Some ''thead'', Some ''tbody'', Some ''tfoot'']"
  using table_children_order [of exampleRnd "exampleConfig\<lparr>includeFoot := True\<rparr>"] inj_exampleRnd
  by (simp add: sectionTags_def exampleConfig_def)


lemma cellCountOf_csv: "csvData cfg = Some g \<Longrightarrow> cellCountOf cfg = gridWidth g"
  by (simp add: cellCountOf_def effectiveCols_def gridWidth_def)

lemma cellCountOf_none: "csvData cfg = None \<Longrightarrow> cellCountOf cfg = nat (cols cfg)"
  by (simp add: cellCountOf_def)

lemma bodyRowCountOf_none: "csvData cfg = None \<Longrightarrow> bodyRowCountOf cfg = nat (rows cfg)"
  by (simp add: bodyRowCountOf_def)

lemma bodyRowCountOf_csv:
  "csvData cfg = Some g \<Longrightarrow>
   bodyRowCountOf cfg = (if csvHasHeaderRow cfg then length g - 1 else length g)"
  by (auto simp: bodyRowCountOf_def effectiveRows_def)

lemma rowTexts_none: "csvData cfg = None \<Longrightarrow> rowTexts cfg tag r = replicate (nat (cols cfg)) []"
  unfolding rowTexts_def by (rule nth_equalityI) (simp_all add: cellCountOf_none)

lemma map_rowTexts_none:
  "csvData cfg = None \<Longrightarrow>
   map (rowTexts cfg tag) [0 ..< k] = replicate k (replicate (nat (cols cfg)) [])"
  by (rule nth_equalityI) (simp_all add: rowTexts_none)

lemma rowTexts_csv:
  "csvData cfg = Some g \<Longrightarrow>
   rowTexts cfg tag r
     = padRow (gridWidth g) (case sourceRowOf cfg tag r of Some row \<Rightarrow> row | None \<Rightarrow> [])"
  by (cases "sourceRowOf cfg tag r")
    (simp_all add: rowTexts_def cellCountOf_csv padRow_def textValue_def nthOpt_def)

lemma padRow_id: "length r = w \<Longrightarrow> padRow w r = r"
  by (auto simp: padRow_def nthOpt_def intro: nth_equalityI)

lemma map_nth_shift: "map (\<lambda>i. f ((x # xs) ! Suc i)) [0 ..< length xs] = map f xs"
  by (rule nth_equalityI) simp_all

lemma map_nth_f: "map (\<lambda>i. f (xs ! i)) [0 ..< length xs] = map f xs"
  by (rule nth_equalityI) simp_all

text \<open>
  Claim C10: without a grid every cell element is pushed with no child (so the
  graph holds no text node and no span, whatever the span-fallback flag is),
  and the extractor reads every cell of such a build as the empty string; with
  pairwise different \<^verbatim>\<open>uid\<close> draws it returns one row of \<open>cols\<close> empty strings
  for the head (if built) and for each of the \<open>rows\<close> body rows.
\<close>

theorem no_grid_cells_have_no_children:
  assumes "csvData cfg = None"
  shows "(\<forall>n \<in> set (pnodes (built rnd cfg)).
            \<not> ntext n \<and> rawTag n \<noteq> ''span''
            \<and> (rawTag n = ''td'' \<or> rawTag n = ''th'' \<longrightarrow> children n = []))
     \<and> (\<exists>r. extractRowsFromXscp (Suc j) (builtJson (built rnd cfg)) = Inr (Some r)
            \<and> (\<forall>row \<in> set (rowsOut r). \<forall>c \<in> set row. c = []))
     \<and> (inj rnd \<longrightarrow>
          extractRowsFromXscp (Suc (Suc (Suc j))) (builtJson (built rnd cfg))
            = Inr (Some \<lparr>rowsOut = replicate ((if includeHead cfg then 1 else 0) + nat (rows cfg))
                                      (replicate (nat (cols cfg)) []),
                         hasHeader = includeHead cfg\<rparr>))"
proof -
  define N where "N = nodes (builtState rnd cfg)"
  have b: "bareCells N" unfolding N_def by (rule built_bareCells [OF assms])
  from built_shape [of rnd cfg] have s: "builtShape rnd cfg N" unfolding N_def by simp
  have t: "N \<noteq> []" "normalizeTag (hd N) = ''table''"
    using builtShape_nodes [OF s] by (auto simp: toLower_simps)
  have 1: "\<forall>n \<in> set N. \<not> ntext n \<and> rawTag n \<noteq> ''span''
            \<and> (rawTag n = ''td'' \<or> rawTag n = ''th'' \<longrightarrow> children n = [])"
  proof
    fix n assume "n \<in> set N"
    with b have "\<not> ntext n" "normalizeTag n \<noteq> ''span''"
      "normalizeTag n = ''td'' \<or> normalizeTag n = ''th'' \<longrightarrow> children n = []"
      unfolding bareCells_def by blast+
    then show "\<not> ntext n \<and> rawTag n \<noteq> ''span''
            \<and> (rawTag n = ''td'' \<or> rawTag n = ''th'' \<longrightarrow> children n = [])"
      by (auto simp: normalizeTag_def toLower_simps)
  qed
  from bare_extract [OF b t, of j] have 2:
    "\<exists>r. extractRowsFromXscp (Suc j) (builtJson (built rnd cfg)) = Inr (Some r)
            \<and> (\<forall>row \<in> set (rowsOut r). \<forall>c \<in> set row. c = [])"
    by (simp add: builtJson_def N_def allEmpty_def)
  have 3: "inj rnd \<longrightarrow>
          extractRowsFromXscp (Suc (Suc (Suc j))) (builtJson (built rnd cfg))
            = Inr (Some \<lparr>rowsOut = replicate ((if includeHead cfg then 1 else 0) + nat (rows cfg))
                                      (replicate (nat (cols cfg)) []),
                         hasHeader = includeHead cfg\<rparr>)"
  proof
    assume "inj rnd"
    from extract_built [OF this, of j cfg] show
      "extractRowsFromXscp (Suc (Suc (Suc j))) (builtJson (built rnd cfg))
            = Inr (Some \<lparr>rowsOut = replicate ((if includeHead cfg then 1 else 0) + nat (rows cfg))
                                      (replicate (nat (cols cfg)) []),
                         hasHeader = includeHead cfg\<rparr>)"
      by (simp add: rowTexts_none [OF assms] map_rowTexts_none [OF assms]
          bodyRowCountOf_none [OF assms])
  qed
  from 1 2 3 show ?thesis unfolding built_nodes N_def [symmetric] by blast
qed

text \<open>Claim C10 on two columns, one body row and a head, with the span fallback switched on.\<close>

theorem no_grid_cells_have_no_children_witness:
  "csvData (exampleConfig\<lparr>useSpanFallback := True\<rparr>) = None \<and> inj exampleRnd
   \<and> extractRowsFromXscp 3 (builtJson (built exampleRnd (exampleConfig\<lparr>useSpanFallback := True\<rparr>)))
       = Inr (Some \<lparr>rowsOut = [[[], []], [[], []]], hasHeader = True\<rparr>)"
  using no_grid_cells_have_no_children [of "exampleConfig\<lparr>useSpanFallback := True\<rparr>" exampleRnd 0]
    inj_exampleRnd
  by (simp add: exampleConfig_def numeral_3_eq_3 numeral_2_eq_2)

text \<open>
  Claim C1, as stated: with the span fallback off and no footer, extracting a
  build gives back the grid.  It fails on the ragged grid that \<^verbatim>\<open>parseCSV\<close>
  makes of \<^verbatim>\<open>"a,b\nc"\<close>: the second row comes back with an added empty cell.
\<close>

theorem roundtrip_ragged_counterexample:
  "extractRowsFromXscp 3
     (builtJson (built exampleRnd (exampleConfig\<lparr>csvData := Some [[''a'', ''b''], [''c'']]\<rparr>)))
   = Inr (Some \<lparr>rowsOut = [[''a'', ''b''], [''c'', []]], hasHeader = True\<rparr>)
   \<and> [[''a'', ''b''], [''c'', []]] \<noteq> [[''a'', ''b''], [''c'']]"
proof -
  define cfg where "cfg = exampleConfig\<lparr>csvData := Some [[''a'', ''b''], [''c'']]\<rparr>"
  have c: "csvData cfg = Some [[''a'', ''b''], [''c'']]" "includeHead cfg" "csvHasHeaderRow cfg"
    by (simp_all add: cfg_def exampleConfig_def)
  have w: "gridWidth [[''a'', ''b''], [''c'']] = 2" by (simp add: gridWidth_def)
  have "extractRowsFromXscp (Suc (Suc (Suc 0))) (builtJson (built exampleRnd cfg))
      = Inr (Some \<lparr>rowsOut = [[''a'', ''b''], [''c'', []]], hasHeader = True\<rparr>)"
    unfolding extract_built [OF inj_exampleRnd]
    by (simp add: c rowTexts_csv [OF c(1)] bodyRowCountOf_csv [OF c(1)] w sourceRowOf_def nthOpt_def
        padRow_def numeral_2_eq_2)
  then show ?thesis by (simp add: cfg_def numeral_3_eq_3)
qed

text \<open>
  Claim C1, amended: when the head is built exactly when the first grid row is
  designated as header, the grid is not empty if a head is built, and the \<^verbatim>\<open>uid\<close>
  draws are pairwise different, extracting the build gives the header flag and
  the grid with every row filled with empty strings up to the longest row (with
  or without footer and span fallback); this is the grid itself when all its
  rows have the same length.
\<close>

theorem roundtrip_padded_grid:
  assumes "inj rnd" "csvData cfg = Some g" "includeHead cfg = csvHasHeaderRow cfg"
    "g \<noteq> [] \<or> \<not> includeHead cfg"
  shows "extractRowsFromXscp (Suc (Suc (Suc j))) (builtJson (built rnd cfg))
           = Inr (Some \<lparr>rowsOut = map (padRow (gridWidth g)) g, hasHeader = includeHead cfg\<rparr>)
     \<and> ((\<forall>r \<in> set g. length r = gridWidth g) \<longrightarrow> map (padRow (gridWidth g)) g = g)"
proof -
  have p: "(\<forall>r \<in> set g. length r = gridWidth g) \<longrightarrow> map (padRow (gridWidth g)) g = g"
    by (auto simp: padRow_id intro: map_idI)
  have "(if includeHead cfg then [rowTexts cfg ''thead'' 0] else [])
           @ map (rowTexts cfg ''tbody'') [0 ..< bodyRowCountOf cfg]
        = map (padRow (gridWidth g)) g"
  proof (cases "includeHead cfg")
    case True
    then have h: "csvHasHeaderRow cfg" and ne: "g \<noteq> []" using assms(3,4) by auto
    then obtain x xs where g: "g = x # xs" by (cases g) auto
    have "map (rowTexts cfg ''tbody'') [0 ..< length xs]
        = map (\<lambda>i. padRow (gridWidth g) ((x # xs) ! Suc i)) [0 ..< length xs]"
      by (rule map_cong) (simp_all add: rowTexts_csv [OF assms(2)] sourceRowOf_def assms(2) h nthOpt_def g)
    also have "\<dots> = map (padRow (gridWidth g)) xs" by (rule map_nth_shift)
    finally have b: "map (rowTexts cfg ''tbody'') [0 ..< length xs] = map (padRow (gridWidth g)) xs" .
    have t: "rowTexts cfg ''thead'' 0 = padRow (gridWidth g) x"
      by (simp add: rowTexts_csv [OF assms(2)] sourceRowOf_def assms(2) nthOpt_def g)
    show ?thesis using True h b t by (simp add: bodyRowCountOf_csv [OF assms(2)] g)
  next
    case False
    then have h: "\<not> csvHasHeaderRow cfg" using assms(3) by simp
    have "map (rowTexts cfg ''tbody'') [0 ..< length g]
        = map (\<lambda>i. padRow (gridWidth g) (g ! i)) [0 ..< length g]"
      by (rule map_cong) (simp_all add: rowTexts_csv [OF assms(2)] sourceRowOf_def assms(2) h nthOpt_def)
    also have "\<dots> = map (padRow (gridWidth g)) g" by (rule map_nth_f)
    finally show ?thesis using False h by (simp add: bodyRowCountOf_csv [OF assms(2)])
  qed
  then show ?thesis using extract_built [OF assms(1), of j cfg] p by simp
qed

text \<open>The amended claim C1 on the grid of \<^verbatim>\<open>"a,b\nc,d"\<close> with its first row as header.\<close>

theorem roundtrip_padded_grid_witness:
  "inj exampleRnd
   \<and> extractRowsFromXscp 3
       (builtJson (built exampleRnd (exampleConfig\<lparr>csvData := Some [[''a'', ''b''], [''c'', ''d'']]\<rparr>)))
     = Inr (Some \<lparr>rowsOut = [[''a'', ''b''], [''c'', ''d'']], hasHeader = True\<rparr>)"
proof -
  have w: "gridWidth [[''a'', ''b''], [''c'', ''d'']] = 2" by (simp add: gridWidth_def)
  show ?thesis
    using roundtrip_padded_grid [of exampleRnd "exampleConfig\<lparr>csvData := Some [[''a'', ''b''], [''c'', ''d'']]\<rparr>"
        "[[''a'', ''b''], [''c'', ''d'']]" 0] inj_exampleRnd
    by (simp add: exampleConfig_def w numeral_3_eq_3)
qed

lemma cellBlock_holds:
  assumes "csvData cfg = Some g" "cellBlock rnd cfg ''td'' v b"
  shows "cellHolds cfg b v"
  using assms unfolding cellBlock_def cellHolds_def cellNodes_def by auto

lemma footBlock_shape:
  assumes g: "csvData cfg = Some g" and f: "sectionBlock rnd cfg ''tfoot'' [0] F"
  shows "\<exists>sec tr cbs. F = sec # tr # concat cbs
           \<and> rawTag sec = ''tfoot'' \<and> children sec = [nid tr]
           \<and> rawTag tr = ''tr'' \<and> children tr = map (\<lambda>b. nid (hd b)) cbs
           \<and> list_all2 (cellHolds cfg) cbs (rowTexts cfg ''tfoot'' 0)"
proof -
  from f obtain i cls rbs where
    F: "F = domNode i ''tfoot'' cls [] (map (\<lambda>b. nid (hd b)) rbs) # concat rbs"
    and r: "list_all2 (\<lambda>b r. rowBlock rnd cfg (cellTagOf cfg ''tfoot'') (sourceRowOf cfg ''tfoot'' r) b) rbs [0]"
    unfolding sectionBlock_def by blast
  from r obtain rb where rbs: "rbs = [rb]"
    and rb: "rowBlock rnd cfg (cellTagOf cfg ''tfoot'') (sourceRowOf cfg ''tfoot'' 0) rb"
    by (auto simp: list_all2_Cons2)
  have ct: "cellTagOf cfg ''tfoot'' = ''td''" by (simp add: cellTagOf_def)
  from rb obtain j rcls cbs where
    R: "rb = domNode j ''tr'' rcls [] (map (\<lambda>b. nid (hd b)) cbs) # concat cbs"
    and c: "list_all2 (\<lambda>b c. cellBlock rnd cfg ''td'' (textValue cfg (sourceRowOf cfg ''tfoot'' 0) c) b)
              cbs [0 ..< cellCountOf cfg]"
    unfolding rowBlock_def ct by blast
  have "list_all2 (\<lambda>b c. cellHolds cfg b (textValue cfg (sourceRowOf cfg ''tfoot'' 0) c))
          cbs [0 ..< cellCountOf cfg]"
    using c by (rule list_all2_mono) (rule cellBlock_holds [OF g])
  then have h: "list_all2 (cellHolds cfg) cbs (rowTexts cfg ''tfoot'' 0)"
    by (simp add: rowTexts_def list_all2_map2)
  show ?thesis
    by (intro exI [of _ "domNode i ''tfoot'' cls [] [nid (hd rb)]"]
          exI [of _ "domNode j ''tr'' rcls [] (map (\<lambda>b. nid (hd b)) cbs)"] exI [of _ cbs])
      (simp add: F rbs R h rawTag_domNode)
qed

lemma rowTexts_foot:
  "csvData cfg = Some g \<Longrightarrow>
   rowTexts cfg ''tfoot'' 0 = padRow (gridWidth g) (case g of [] \<Rightarrow> [] | r0 # rest \<Rightarrow> r0)"
  by (cases g) (simp_all add: rowTexts_csv sourceRowOf_def nthOpt_def)

lemma built_foot:
  assumes g: "csvData cfg = Some g" and f: "includeFoot cfg"
  shows "\<exists>pre sec tr cbs post.
           pnodes (built rnd cfg) = pre @ sec # tr # concat cbs @ post
           \<and> last (children (hd (pnodes (built rnd cfg)))) = nid sec
           \<and> rawTag sec = ''tfoot'' \<and> children sec = [nid tr]
           \<and> rawTag tr = ''tr'' \<and> children tr = map (\<lambda>b. nid (hd b)) cbs
           \<and> list_all2 (cellHolds cfg) cbs
                (padRow (gridWidth g) (case g of [] \<Rightarrow> [] | r0 # rest \<Rightarrow> r0))"
proof -
  define N where "N = nodes (builtState rnd cfg)"
  from built_shape [of rnd cfg] have "builtShape rnd cfg N" unfolding N_def by simp
  then obtain ti cls H B F W where
    n: "N = domNode ti ''table'' cls (if addAriaRole cfg then [(''role'', ''table'')] else [])
              ((if includeHead cfg then [nid (hd H)] else []) @ [nid (hd B)]
               @ (if includeFoot cfg then [nid (hd F)] else []))
            # H @ B @ F @ W"
    and fb: "if includeFoot cfg then sectionBlock rnd cfg ''tfoot'' [0] F else F = []"
    unfolding builtShape_def by blast
  from fb f have "sectionBlock rnd cfg ''tfoot'' [0] F" by simp
  from footBlock_shape [OF g this] obtain sec tr cbs where
    F: "F = sec # tr # concat cbs" and s: "rawTag sec = ''tfoot''" "children sec = [nid tr]"
      "rawTag tr = ''tr''" "children tr = map (\<lambda>b. nid (hd b)) cbs"
      "list_all2 (cellHolds cfg) cbs (rowTexts cfg ''tfoot'' 0)"
    by blast
  have 1: "N = (domNode ti ''table'' cls (if addAriaRole cfg then [(''role'', ''table'')] else [])
              ((if includeHead cfg then [nid (hd H)] else []) @ [nid (hd B)] @ [nid sec])
            # H @ B) @ sec # tr # concat cbs @ W"
    using n f F by simp
  have 2: "last (children (hd N)) = nid sec" unfolding 1 by simp
  define pre where "pre = domNode ti ''table'' cls (if addAriaRole cfg then [(''role'', ''table'')] else [])
              ((if includeHead cfg then [nid (hd H)] else []) @ [nid (hd B)] @ [nid sec])
            # H @ B"
  have 3: "N = pre @ sec # tr # concat cbs @ W" unfolding pre_def by (rule 1)
  have 4: "list_all2 (cellHolds cfg) cbs
                (padRow (gridWidth g) (case g of [] \<Rightarrow> [] | r0 # rest \<Rightarrow> r0))"
    using s(5) by (simp add: rowTexts_foot [OF g])
  show ?thesis
    unfolding built_nodes N_def [symmetric]
    using 2 3 4 s(1-4) by blast
qed

text \<open>
  Claim C2, as stated: with a grid and a footer, the footer cells carry no
  text.  On the grid of \<^verbatim>\<open>"a,b\nc,d"\<close> the last six nodes of the build are the
  \<^verbatim>\<open>tfoot\<close> element, its row, and two \<^verbatim>\<open>td\<close> cells each followed by its text
  node, with the values \<^verbatim>\<open>a\<close> and \<^verbatim>\<open>b\<close>; the footer row reads back as \<^verbatim>\<open>a\<close>, \<^verbatim>\<open>b\<close>:
  \<^verbatim>\<open>makeRow("tfoot", 0)\<close> takes \<^verbatim>\<open>csvData[0]\<close> as its source row.
\<close>

theorem footer_text_counterexample:
  "map (\<lambda>n. (rawTag n, nv n, length (children n)))
     (drop 13 (pnodes (built exampleRnd
        (exampleConfig\<lparr>includeFoot := True, csvData := Some [[''a'', ''b''], [''c'', ''d'']]\<rparr>))))
   = [(''tfoot'', None, 1), (''tr'', None, 2), (''td'', None, 1), ([], Some ''a'', 0),
      (''td'', None, 1), ([], Some ''b'', 0)]
   \<and> sectionRowsOf 3
     (pnodes (built exampleRnd
        (exampleConfig\<lparr>includeFoot := True, csvData := Some [[''a'', ''b''], [''c'', ''d'']]\<rparr>)))
     ''tfoot''
   = Inr [[''a'', ''b'']]"
proof -
  define cfg where "cfg = exampleConfig\<lparr>includeFoot := True, csvData := Some [[''a'', ''b''], [''c'', ''d'']]\<rparr>"
  have c: "csvData cfg = Some [[''a'', ''b''], [''c'', ''d'']]" "includeFoot cfg"
    by (simp_all add: cfg_def exampleConfig_def)
  have w: "gridWidth [[''a'', ''b''], [''c'', ''d'']] = 2" by (simp add: gridWidth_def)
  from built_sections [OF inj_exampleRnd, of cfg 0]
  have "sectionRowsOf (Suc (Suc (Suc 0))) (nodes (builtState exampleRnd cfg)) ''tfoot''
      = Inr [rowTexts cfg ''tfoot'' 0]" using c(2) by simp
  then have 1: "sectionRowsOf 3 (pnodes (built exampleRnd cfg)) ''tfoot'' = Inr [[''a'', ''b'']]"
    by (simp add: numeral_3_eq_3 rowTexts_csv [OF c(1)] w sourceRowOf_def c(1)
        nthOpt_def padRow_def numeral_2_eq_2)
  have 2: "map (\<lambda>n. (rawTag n, nv n, length (children n))) (drop 13 (pnodes (built exampleRnd cfg)))
   = [(''tfoot'', None, 1), (''tr'', None, 2), (''td'', None, 1), ([], Some ''a'', 0),
      (''td'', None, 1), ([], Some ''b'', 0)]"
    unfolding cfg_def
    by (simp add: build_defs exampleConfig_def Let_def upt_rec numeral_eq_Suc rawTag_def mathMax.simps)
  show ?thesis using 1 2 unfolding cfg_def by simp
qed

text \<open>
  Claim C2, amended: with a grid and a footer, the footer row is built from
  grid row 0.  In the node list the \<^verbatim>\<open>tfoot\<close> element (the last child of the
  table element) is followed by its one row and the row by its cells, as many
  as the longest grid row has; cell \<open>c\<close> is a \<^verbatim>\<open>td\<close> element followed by a text
  node (with the span fallback, by a \<^verbatim>\<open>span\<close> and then a text node) that holds
  cell \<open>c\<close> of the first grid row, or the empty string where that row is shorter
  or the grid is empty; each of these nodes has the next one as its only child.
  When the \<^verbatim>\<open>uid\<close> draws are pairwise different, the extractor reads these texts
  as the footer row.
\<close>

theorem footer_reads_first_row:
  assumes "csvData cfg = Some g" "includeFoot cfg"
  shows "(\<exists>pre sec tr cbs post.
           pnodes (built rnd cfg) = pre @ sec # tr # concat cbs @ post
           \<and> last (children (hd (pnodes (built rnd cfg)))) = nid sec
           \<and> rawTag sec = ''tfoot'' \<and> children sec = [nid tr]
           \<and> rawTag tr = ''tr'' \<and> children tr = map (\<lambda>b. nid (hd b)) cbs
           \<and> list_all2 (cellHolds cfg) cbs
                (padRow (gridWidth g) (case g of [] \<Rightarrow> [] | r0 # rest \<Rightarrow> r0)))
     \<and> (inj rnd \<longrightarrow>
          (\<forall>j. sectionRowsOf (Suc (Suc (Suc j))) (pnodes (built rnd cfg)) ''tfoot''
                = Inr [padRow (gridWidth g) (case g of [] \<Rightarrow> [] | r0 # rest \<Rightarrow> r0)]))"
proof -
  have "inj rnd \<longrightarrow>
          (\<forall>j. sectionRowsOf (Suc (Suc (Suc j))) (pnodes (built rnd cfg)) ''tfoot''
                = Inr [padRow (gridWidth g) (case g of [] \<Rightarrow> [] | r0 # rest \<Rightarrow> r0)])"
  proof (intro impI allI)
    fix j assume i: "inj rnd"
    show "sectionRowsOf (Suc (Suc (Suc j))) (pnodes (built rnd cfg)) ''tfoot''
                = Inr [padRow (gridWidth g) (case g of [] \<Rightarrow> [] | r0 # rest \<Rightarrow> r0)]"
      using built_sections [OF i, of cfg j] assms(2) by (simp add: rowTexts_foot [OF assms(1)])
  qed
  with built_foot [OF assms, of rnd] show ?thesis by blast
qed

text \<open>
  The amended claim C2 on the grid of \<^verbatim>\<open>"a,b\nc"\<close>, without a head: two footer
  cells, holding \<^verbatim>\<open>a\<close> and \<^verbatim>\<open>b\<close>.
\<close>

theorem footer_reads_first_row_witness:
  "csvData (exampleConfig\<lparr>includeHead := False, includeFoot := True, csvHasHeaderRow := False,
                          csvData := Some [[''a'', ''b''], [''c'']]\<rparr>) = Some [[''a'', ''b''], [''c'']]
   \<and> includeFoot (exampleConfig\<lparr>includeHead := False, includeFoot := True, csvHasHeaderRow := False,
                          csvData := Some [[''a'', ''b''], [''c'']]\<rparr>)
   \<and> inj exampleRnd
   \<and> (\<exists>pre sec tr cbs post.
         pnodes (built exampleRnd
            (exampleConfig\<lparr>includeHead := False, includeFoot := True, csvHasHeaderRow := False,
                            csvData := Some [[''a'', ''b''], [''c'']]\<rparr>))
           = pre @ sec # tr # concat cbs @ post
         \<and> rawTag sec = ''tfoot'' \<and> children sec = [nid tr]
         \<and> children tr = map (\<lambda>b. nid (hd b)) cbs
         \<and> list_all2 (cellHolds (exampleConfig\<lparr>includeHead := False, includeFoot := True,
               csvHasHeaderRow := False, csvData := Some [[''a'', ''b''], [''c'']]\<rparr>)) cbs [''a'', ''b''])
   \<and> sectionRowsOf 3
       (pnodes (built exampleRnd
          (exampleConfig\<lparr>includeHead := False, includeFoot := True, csvHasHeaderRow := False,
                          csvData := Some [[''a'', ''b''], [''c'']]\<rparr>)))
       ''tfoot''
     = Inr [[''a'', ''b'']]"
proof -
  define cfg where "cfg = exampleConfig\<lparr>includeHead := False, includeFoot := True,
      csvHasHeaderRow := False, csvData := Some [[''a'', ''b''], [''c'']]\<rparr>"
  have c: "csvData cfg = Some [[''a'', ''b''], [''c'']]" "includeFoot cfg"
    by (simp_all add: cfg_def exampleConfig_def)
  have w: "padRow (gridWidth [[''a'', ''b''], [''c'']]) (case [[''a'', ''b''], [''c'']] of [] \<Rightarrow> [] | r0 # rest \<Rightarrow> r0)
      = [''a'', ''b'']"
    by (simp add: gridWidth_def padRow_def nthOpt_def numeral_2_eq_2)
  note t = footer_reads_first_row [OF c, of exampleRnd, unfolded w]
  from t have 1: "\<exists>pre sec tr cbs post.
         pnodes (built exampleRnd cfg) = pre @ sec # tr # concat cbs @ post
         \<and> rawTag sec = ''tfoot'' \<and> children sec = [nid tr]
         \<and> children tr = map (\<lambda>b. nid (hd b)) cbs
         \<and> list_all2 (cellHolds cfg) cbs [''a'', ''b'']"
    by blast
  from t inj_exampleRnd have "sectionRowsOf (Suc (Suc (Suc 0))) (pnodes (built exampleRnd cfg)) ''tfoot''
      = Inr [[''a'', ''b'']]" by blast
  then have 2: "sectionRowsOf 3 (pnodes (built exampleRnd cfg)) ''tfoot'' = Inr [[''a'', ''b'']]"
    by (simp add: numeral_3_eq_3)
  show ?thesis using c 1 2 inj_exampleRnd unfolding cfg_def by blast
qed

text \<open>
  Claim C4, as stated: building with the table class \<^verbatim>\<open>"a a b"\<close> gives two style
  records and a \<^verbatim>\<open>classes\<close> sequence of length 2 on the table element.  The style
  records are two, but \<^verbatim>\<open>classIds\<close> maps every token to its id and drops no
  repetition: the sequence has length 3, with the id of \<^verbatim>\<open>a\<close> twice.
\<close>

theorem table_classes_repeat_counterexample:
  "classes (hd (pnodes (built exampleRnd (exampleConfig\<lparr>tableClass := ''a a b''\<rparr>))))
     = [''cls_'', ''cls_'', ''cls_x'']
   \<and> length (classes (hd (pnodes (built exampleRnd (exampleConfig\<lparr>tableClass := ''a a b''\<rparr>))))) = 3
   \<and> map sname (pstyles (built exampleRnd (exampleConfig\<lparr>tableClass := ''a a b''\<rparr>)))
     = [''a'', ''b'']"
proof -
  define cfg where "cfg = exampleConfig\<lparr>tableClass := ''a a b''\<rparr>"
  have c: "tableClass cfg = ''a a b''" "onlyTableClass cfg"
    by (simp_all add: cfg_def exampleConfig_def onlyTableClass_def)
  have 1: "classes (hd (pnodes (built exampleRnd cfg))) = [''cls_'', ''cls_'', ''cls_x'']"
    unfolding built_aab(1) [OF c(1)] by (simp add: exampleRnd_def)
  have 2: "map sname (pstyles (built exampleRnd cfg)) = [''a'', ''b'']"
    unfolding built_aab(2) [OF c] by (simp add: styleRec_def)
  show ?thesis unfolding cfg_def [symmetric] using 1 2 by simp
qed

text \<open>
  Claim C4, amended.  Two calls of \<^verbatim>\<open>ensureStyle\<close> in a row with a name that is
  not blank return the same id; together they append one style record, with
  that name and id, when the name is not in the index, and none when it is.  A
  build has no two style records with the same name.  With the table class
  \<^verbatim>\<open>"a a b"\<close> the \<^verbatim>\<open>classes\<close> of the table element are the id of \<^verbatim>\<open>a\<close>, the id of
  \<^verbatim>\<open>a\<close> again and the id of \<^verbatim>\<open>b\<close> (length 3), and when no other class is
  configured and there is no wrapper chain, the style records are exactly those
  of \<^verbatim>\<open>a\<close> and \<^verbatim>\<open>b\<close>, in this order.
\<close>

theorem style_dedup:
  "(trim name \<noteq> [] \<longrightarrow>
      (\<exists>i s1. ensureStyle rnd name s = (Some i, s1) \<and> ensureStyle rnd name s1 = (Some i, s1)
         \<and> (case styleIndex s name of
              Some j \<Rightarrow> i = j \<and> styles s1 = styles s
            | None \<Rightarrow> \<exists>st. styles s1 = styles s @ [st] \<and> sid st = i \<and> sname st = name)))
   \<and> distinct (map sname (pstyles (built rnd cfg)))
   \<and> (tableClass cfg = ''a a b'' \<longrightarrow>
        classes (hd (pnodes (built rnd cfg))) = [''cls_'' @ rnd 0, ''cls_'' @ rnd 0, ''cls_'' @ rnd 1]
        \<and> (onlyTableClass cfg \<longrightarrow>
             pstyles (built rnd cfg)
               = [styleRec (''cls_'' @ rnd 0) ''a'', styleRec (''cls_'' @ rnd 1) ''b'']))"
proof -
  have 1: "trim name \<noteq> [] \<longrightarrow>
      (\<exists>i s1. ensureStyle rnd name s = (Some i, s1) \<and> ensureStyle rnd name s1 = (Some i, s1)
         \<and> (case styleIndex s name of
              Some j \<Rightarrow> i = j \<and> styles s1 = styles s
            | None \<Rightarrow> \<exists>st. styles s1 = styles s @ [st] \<and> sid st = i \<and> sname st = name))"
  proof
    assume "trim name \<noteq> []"
    from ensureStyle_twice [OF this, of rnd s] obtain i s1 where
      e: "ensureStyle rnd name s = (Some i, s1)" "ensureStyle rnd name s1 = (Some i, s1)"
        "case styleIndex s name of
           Some j \<Rightarrow> i = j \<and> s1 = s
         | None \<Rightarrow> i = ''cls_'' @ rnd (seed s) \<and>
             (\<exists>st. styles s1 = styles s @ [st] \<and> sid st = i \<and> sname st = name)"
      by blast
    from e(3) have "case styleIndex s name of
              Some j \<Rightarrow> i = j \<and> styles s1 = styles s
            | None \<Rightarrow> \<exists>st. styles s1 = styles s @ [st] \<and> sid st = i \<and> sname st = name"
      by (auto split: option.splits)
    with e(1,2) show "\<exists>i s1. ensureStyle rnd name s = (Some i, s1) \<and> ensureStyle rnd name s1 = (Some i, s1)
         \<and> (case styleIndex s name of
              Some j \<Rightarrow> i = j \<and> styles s1 = styles s
            | None \<Rightarrow> \<exists>st. styles s1 = styles s @ [st] \<and> sid st = i \<and> sname st = name)"
      by blast
  qed
  have 2: "distinct (map sname (pstyles (built rnd cfg)))"
    using styleInv_built [of rnd cfg] by (simp add: styleInv_def)
  show ?thesis using 1 2 built_aab [of cfg rnd] by blast
qed

text \<open>
  The amended claim C4 on the name \<^verbatim>\<open>a\<close> in the initial state and on the build
  with the table class \<^verbatim>\<open>"a a b"\<close>.
\<close>

theorem style_dedup_witness:
  "trim ''a'' \<noteq> [] \<and> tableClass (exampleConfig\<lparr>tableClass := ''a a b''\<rparr>) = ''a a b''
   \<and> onlyTableClass (exampleConfig\<lparr>tableClass := ''a a b''\<rparr>)
   \<and> distinct (map sname (pstyles (built exampleRnd (exampleConfig\<lparr>tableClass := ''a a b''\<rparr>))))
   \<and> pstyles (built exampleRnd (exampleConfig\<lparr>tableClass := ''a a b''\<rparr>))
       = [styleRec ''cls_'' ''a'', styleRec ''cls_x'' ''b'']
   \<and> (\<exists>i s1. ensureStyle exampleRnd ''a'' initState = (Some i, s1)
         \<and> ensureStyle exampleRnd ''a'' s1 = (Some i, s1)
         \<and> (\<exists>st. styles s1 = [st] \<and> sid st = i \<and> sname st = ''a''))"
proof -
  have c: "tableClass (exampleConfig\<lparr>tableClass := ''a a b''\<rparr>) = ''a a b''"
    "onlyTableClass (exampleConfig\<lparr>tableClass := ''a a b''\<rparr>)"
    by (simp_all add: exampleConfig_def onlyTableClass_def)
  have t: "trim ''a'' \<noteq> []" by (simp add: trim_def isWhite_def)
  have r: "exampleRnd 0 = []" "exampleRnd 1 = ''x''" by (simp_all add: exampleRnd_def)
  note w = style_dedup [of "''a''" exampleRnd initState "exampleConfig\<lparr>tableClass := ''a a b''\<rparr>"]
  from w have "distinct (map sname (pstyles (built exampleRnd (exampleConfig\<lparr>tableClass := ''a a b''\<rparr>))))"
    by blast
  moreover from w c have "pstyles (built exampleRnd (exampleConfig\<lparr>tableClass := ''a a b''\<rparr>))
       = [styleRec (''cls_'' @ exampleRnd 0) ''a'', styleRec (''cls_'' @ exampleRnd 1) ''b'']"
    by blast
  moreover from w t have "\<exists>i s1. ensureStyle exampleRnd ''a'' initState = (Some i, s1)
         \<and> ensureStyle exampleRnd ''a'' s1 = (Some i, s1)
         \<and> (\<exists>st. styles s1 = [st] \<and> sid st = i \<and> sname st = ''a'')"
    by (simp add: initState_def)
  ultimately show ?thesis using c t unfolding r by simp
qed

end
